(* ===== verification/Prelude.thy ===== *)
theory Prelude
  imports Main "HOL-Library.Signed_Division" "HOL-Library.Monad_Syntax"
begin

text \<open>
  Shared vocabulary of the development: the fixed-width conversions of C (an assignment to
  an \<open>unsigned int\<close>, an \<open>unsigned long\<close> or a \<open>long\<close> reduces the value modulo its width)
  and the generic lemmas the components use.  C's \<open>/\<close> and \<open>%\<close> on signed integers
  truncate; they are \<open>sdiv\<close> and \<open>smod\<close> of \<open>HOL-Library.Signed_Division\<close>.
\<close>

named_theorems cconv
  \<comment> \<open>conversions that change nothing, for values in range\<close>

section \<open>Conversions between C integer types\<close>

text \<open>\<open>u32\<close> is the value stored in a \<open>uint\<close>, \<open>u64\<close> in an \<open>ulong\<close> or \<open>ulonglong\<close>,
  \<open>s64\<close> in a \<open>long\<close> or \<open>longlong\<close> (two's complement, LP64).\<close>

definition u32 :: "int \<Rightarrow> nat" where
  "u32 x = nat (x mod 2 ^ 32)"

definition u64 :: "int \<Rightarrow> nat" where
  "u64 x = nat (x mod 2 ^ 64)"

definition s64 :: "int \<Rightarrow> int" where
  "s64 x = (x + 2 ^ 63) mod 2 ^ 64 - 2 ^ 63"

lemma u32_less [simp]: "u32 x < 2 ^ 32"
  by (simp add: u32_def nat_less_iff)

lemma u64_less [simp]: "u64 x < 2 ^ 64"
  by (simp add: u64_def nat_less_iff)

lemma u32_id [cconv]: "0 \<le> x \<Longrightarrow> x < 2 ^ 32 \<Longrightarrow> u32 x = nat x"
  by (simp add: u32_def)

lemma u32_of_nat [cconv]: "n < 2 ^ 32 \<Longrightarrow> u32 (int n) = n"
  by (simp add: u32_def)

lemma u64_id [cconv]: "0 \<le> x \<Longrightarrow> x < 2 ^ 64 \<Longrightarrow> u64 x = nat x"
  by (simp add: u64_def)

lemma u64_of_nat [cconv]: "n < 2 ^ 64 \<Longrightarrow> u64 (int n) = n"
  by (simp add: u64_def)

lemma s64_id [cconv]: "- (2 ^ 63) \<le> x \<Longrightarrow> x < 2 ^ 63 \<Longrightarrow> s64 x = x"
  by (simp add: s64_def)

lemma u64_neg: "x < 0 \<Longrightarrow> - (2 ^ 63) \<le> x \<Longrightarrow> 2 ^ 63 \<le> u64 x"
proof -
  assume "x < 0" and "- (2 ^ 63) \<le> x"
  then have "x mod 2 ^ 64 = x + 2 ^ 64"
    using mod_pos_pos_trivial [of "x + 2 ^ 64" "2 ^ 64"] by simp
  with \<open>- (2 ^ 63) \<le> x\<close> show ?thesis by (simp add: u64_def)
qed

section \<open>Truncating division on non-negative operands\<close>

lemma sdiv_nonneg [simp]: "0 \<le> (a::int) \<Longrightarrow> 0 \<le> b \<Longrightarrow> a sdiv b = a div b"
  by (cases "a = 0"; cases "b = 0") (auto simp: signed_divide_int_def)

lemma smod_nonneg [simp]: "0 \<le> (a::int) \<Longrightarrow> 0 \<le> b \<Longrightarrow> a smod b = a mod b"
  by (cases "a = 0") (auto simp: signed_modulo_int_def)

lemma sdiv_neg_small [simp]: "- b < (a::int) \<Longrightarrow> a < 0 \<Longrightarrow> a sdiv b = 0"
  by (auto simp: signed_divide_int_def)

text \<open>The idiom that turns a truncated quotient and a negative remainder into a floor.\<close>

lemma trunc_to_floor:
  assumes "0 < (k::int)"
  shows "(if m smod k < 0 then (m smod k + k, s + m sdiv k - 1) else (m smod k, s + m sdiv k)) =
    (m mod k, s + m div k)"
proof (cases "m < 0")
  case True
  with assms have q: "m sdiv k = - ((- m) div k)" "m smod k = - ((- m) mod k)"
    by (simp_all add: signed_divide_int_def signed_modulo_int_def)
  have "0 \<le> (- m) mod k" using assms by simp
  then show ?thesis
    using zdiv_zminus1_eq_if [of k "- m"] zmod_zminus1_eq_if [of "- m" k] assms
    unfolding q by (cases "(- m) mod k = 0") (auto simp: order.strict_iff_order)
qed (use assms in \<open>simp add: not_less\<close>)

section \<open>Checked array accesses\<close>

text \<open>A read or write of an array of C; \<open>None\<close> is an access outside the allocation.\<close>

definition get :: "'a list \<Rightarrow> nat \<Rightarrow> 'a option" where
  "get r i = (if i < length r then Some (r ! i) else None)"

definition put :: "'a list \<Rightarrow> nat \<Rightarrow> 'a \<Rightarrow> 'a list option" where
  "put r i x = (if i < length r then Some (r[i := x]) else None)"

end
