(* ===== verification/Calendar.thy ===== *)
theory Calendar
  imports Prelude
begin

unbundle bit_operations_syntax

text \<open>
  The calendar arithmetic of the server: \<open>calc_days_in_year\<close> and \<open>calc_daynr\<close>
  (\<open>src/sql-common/my_time.c\<close>), \<open>calc_weekday\<close>, \<open>get_date_from_daynr\<close> and the
  period conversions (\<open>src/sql/sql_time.cc\<close>).  Unsigned integers are natural numbers,
  with \<open>u32\<close> where an expression could leave the range; \<open>long\<close> values are integers.
  The lemmas show that the two day-number routines are inverse bijections between the
  valid dates of the years 1 to 9999 and the day numbers 366 to 3652424, that the day
  number is the order of the calendar, and that consecutive days have consecutive weekdays.
\<close>

section \<open>Definitions\<close>

definition calc_days_in_year :: "nat \<Rightarrow> nat" where
  "calc_days_in_year year =
     (if year AND 3 = 0 \<and> (year mod 100 \<noteq> 0 \<or> (year mod 400 = 0 \<and> year \<noteq> 0))
      then 366 else 365)"

definition days_in_month :: "nat list" where
  "days_in_month = [31, 28, 31, 30, 31, 30, 31, 31, 30, 31, 30, 31, 0]"

definition year_2000_handling :: "nat \<Rightarrow> nat" where
  "year_2000_handling year =
     (let year = u32 (int year + 1900)
      in if year < 1900 + 70 then u32 (int year + 100) else year)"

definition calc_daynr :: "nat \<Rightarrow> nat \<Rightarrow> nat \<Rightarrow> int" where
  "calc_daynr year month day =
     (if year = 0 \<and> month = 0 then 0
      else
        let y = int year;
            delsum = 365 * y + 31 * (int month - 1) + int day;
            (y, delsum) =
              (if month \<le> 2 then (y - 1, delsum)
               else (y, delsum - (int month * 4 + 23) sdiv 10));
            temp = ((y sdiv 100 + 1) * 3) sdiv 4
        in delsum + y sdiv 4 - temp)"

definition calc_weekday :: "int \<Rightarrow> bool \<Rightarrow> int" where
  "calc_weekday daynr sunday_first_day_of_week =
     (daynr + 5 + (if sunday_first_day_of_week then 1 else 0)) smod 7"

text \<open>The two loops of \<open>get_date_from_daynr\<close>.  The month loop walks the array
  \<open>days_in_month\<close>; \<open>None\<close> is a read past its end.\<close>

function year_scan :: "nat \<Rightarrow> nat \<Rightarrow> nat \<times> nat" where
  "year_scan day_of_year year =
     (if day_of_year > calc_days_in_year year
      then year_scan (day_of_year - calc_days_in_year year) (Suc year)
      else (day_of_year, year))"
  by pat_completeness auto
termination
  by (relation "measure fst") (auto simp: calc_days_in_year_def)

fun month_scan :: "nat list \<Rightarrow> nat \<Rightarrow> nat \<Rightarrow> (nat \<times> nat) option" where
  "month_scan [] day_of_year month = None"
| "month_scan (days # month_pos) day_of_year month =
     (if day_of_year > days then month_scan month_pos (day_of_year - days) (Suc month)
      else Some (month, day_of_year))"

definition get_date_from_daynr :: "int \<Rightarrow> (nat \<times> nat \<times> nat) option" where
  "get_date_from_daynr daynr =
     (if daynr \<le> 365 \<or> daynr \<ge> 3652500 then Some (0, 0, 0)
      else
        let year = u32 ((daynr * 100) sdiv 36525);
            temp = ((u32 (int year - 1) div 100 + 1) * 3) div 4;
            day_of_year = u32 (int (u32 (daynr - int year * 365))
                                 - int (u32 (int year - 1) div 4) + int temp);
            (day_of_year, year) = year_scan day_of_year year;
            (day_of_year, leap_day) =
              (if calc_days_in_year year = 366 \<and> day_of_year > 31 + 28
               then (day_of_year - 1, if day_of_year - 1 = 31 + 28 then 1 else 0)
               else (day_of_year, 0))
        in case month_scan days_in_month day_of_year 1 of
             None \<Rightarrow> None
           | Some (month, day) \<Rightarrow> Some (year, month, day + leap_day))"

text \<open>Periods \<open>YYMM\<close> and \<open>YYYYMM\<close> as month counts.\<close>

definition convert_period_to_month :: "nat \<Rightarrow> nat" where
  "convert_period_to_month period =
     (if period = 0 then 0
      else
        let a = period div 100;
            a = (if a < 70 then a + 2000 else if a < 100 then a + 1900 else a);
            b = period mod 100
        in u64 (int (a * 12 + b) - 1))"

definition convert_month_to_period :: "nat \<Rightarrow> nat" where
  "convert_month_to_period month =
     (if month = 0 then 0
      else
        let year = month div 12;
            year = (if year < 100 then year + (if year < 70 then 2000 else 1900) else year)
        in u64 (int (year * 100 + month mod 12) + 1))"

text \<open>Specification: the valid dates of the proleptic Gregorian calendar.\<close>

definition month_days :: "nat \<Rightarrow> nat \<Rightarrow> nat" where
  "month_days year month =
     days_in_month ! (month - 1) + (if month = 2 \<and> calc_days_in_year year = 366 then 1 else 0)"

definition valid_date :: "nat \<Rightarrow> nat \<Rightarrow> nat \<Rightarrow> bool" where
  "valid_date year month day \<longleftrightarrow>
     1 \<le> year \<and> 1 \<le> month \<and> month \<le> 12 \<and> 1 \<le> day \<and> day \<le> month_days year month"

section \<open>Years\<close>

lemma and_3_eq_mod: "(year::nat) AND 3 = year mod 4"
  using take_bit_eq_mask [of 2 year] by (simp add: take_bit_eq_mod mask_eq_exp_minus_1)

lemma calc_days_in_year_gregorian:
  "0 < year \<Longrightarrow> calc_days_in_year year =
     (if 4 dvd year \<and> (\<not> 100 dvd year \<or> 400 dvd year) then 366 else 365)"
  by (auto simp: calc_days_in_year_def and_3_eq_mod dvd_eq_mod_eq_0)

lemma calc_days_in_year_bounds: "365 \<le> calc_days_in_year year" "calc_days_in_year year \<le> 366"
  by (auto simp: calc_days_in_year_def)

text \<open>The day number before the first of January.\<close>

definition days_before_year :: "int \<Rightarrow> int" where
  "days_before_year y = 365 * y + (y - 1) div 4 - (((y - 1) div 100 + 1) * 3) div 4"

lemma div_pred:
  assumes "0 < (k::int)"
  shows "y div k = (y - 1) div k + (if y mod k = 0 then 1 else 0)"
proof (cases "y mod k = 0")
  case True
  have "(y - 1) div k = y div k - 1"
    by (rule int_div_pos_eq [of _ _ _ "k - 1"])
      (use assms True div_mult_mod_eq [of y k] in \<open>auto simp: algebra_simps\<close>)
  with True show ?thesis by simp
next
  case False
  with assms have "0 < y mod k" using pos_mod_sign [of k y] by linarith
  then have "(y - 1) div k = y div k"
    using assms pos_mod_bound [of k y] div_mult_mod_eq [of y k]
    by (intro int_div_pos_eq [of _ _ _ "y mod k - 1"]) (linarith | simp add: mult.commute)+
  with False show ?thesis by simp
qed

lemma leap_terms:
  fixes a b :: int
  assumes "a = a' + (if p then 1 else 0)" and "b = b' + (if q then 1 else 0)"
    and "q \<Longrightarrow> p" and "r \<longleftrightarrow> q \<and> b mod 4 = 0"
  shows "a - ((b + 1) * 3) div 4 = a' - ((b' + 1) * 3) div 4 + (if p \<and> (\<not> q \<or> r) then 1 else 0)"
proof (cases q)
  case True
  have "((c + 1) * 3) div 4 = (c * 3) div 4 + (if c mod 4 = 0 then 0 else 1)" for c :: int
  proof -
    define k r where "k = c div 4" and "r = c mod 4"
    have c: "c = 4 * k + r" and r: "r = 0 \<or> r = 1 \<or> r = 2 \<or> r = 3"
      unfolding k_def r_def by auto
    from r show ?thesis unfolding c by (elim disjE; simp; presburger?)
  qed
  from this [of "b' + 1"] True assms show ?thesis by (cases "b mod 4 = 0") simp_all
next
  case False
  with assms show ?thesis by (cases p) simp_all
qed

lemma nat_zero_iff: "0 \<le> (x::int) \<Longrightarrow> nat x = 0 \<longleftrightarrow> x = 0"
  by auto

lemma mod_nat_zero:
  assumes "0 < (y::int)"
  shows "nat y mod numeral k = 0 \<longleftrightarrow> y mod numeral k = 0"
proof -
  have "nat y mod numeral k = nat (y mod numeral k)"
    using assms by (simp add: nat_mod_distrib)
  moreover have "0 \<le> y mod numeral k" by (rule pos_mod_sign) simp
  ultimately show ?thesis using nat_zero_iff [of "y mod numeral k"] by simp
qed

lemma sum_zero_iff: "a = 100 * b + c \<Longrightarrow> 0 \<le> b \<Longrightarrow> 0 \<le> c \<Longrightarrow> a = 0 \<longleftrightarrow> c = 0 \<and> b = (0::int)"
  by arith

lemma leap_correction:
  assumes "0 < (y::int)"
  shows "y div 4 - ((y div 100 + 1) * 3) div 4 =
    (y - 1) div 4 - (((y - 1) div 100 + 1) * 3) div 4 + (int (calc_days_in_year (nat y)) - 365)"
proof -
  have m400: "y mod 400 = 0 \<longleftrightarrow> y mod 100 = 0 \<and> (y div 100) mod 4 = 0"
    by (rule sum_zero_iff) (use zmod_zmult2_eq [of 4 y 100] in simp_all)
  have m4: "y mod 4 = 0" if "y mod 100 = 0"
    using that mod_mod_cancel [of 4 100 y] by simp
  have leap: "int (calc_days_in_year (nat y)) - 365 =
      (if y mod 4 = 0 \<and> (y mod 100 \<noteq> 0 \<or> y mod 400 = 0) then 1 else 0)"
    using assms by (simp add: calc_days_in_year_def and_3_eq_mod mod_nat_zero)
  show ?thesis
    unfolding leap
  proof (rule leap_terms)
    show "y div 4 = (y - 1) div 4 + (if y mod 4 = 0 then 1 else 0)"
      and "y div 100 = (y - 1) div 100 + (if y mod 100 = 0 then 1 else 0)"
      by (rule div_pred, simp)+
  qed (fact m4, fact m400)
qed

lemma shift_year:
  "a - b = a' - b' + (e - 365) \<Longrightarrow> 365 * (y + 1) + a - b = (365 * y + a' - b') + (e::int)"
  by simp

lemma days_before_year_Suc:
  "0 < y \<Longrightarrow> days_before_year (y + 1) = days_before_year y + int (calc_days_in_year (nat y))"
  unfolding days_before_year_def add_diff_cancel_right' by (intro shift_year leap_correction)

text \<open>The days of the year before the first of a month, without the leap day.\<close>

definition days_before_month :: "nat \<Rightarrow> nat" where
  "days_before_month month = sum_list (take (month - 1) days_in_month)"

definition leap_days :: "nat \<Rightarrow> nat" where
  "leap_days year = calc_days_in_year year - 365"

lemma month_cases:
  assumes "1 \<le> (month::nat)" and "month \<le> 12"
  obtains "month = 1" | "month = 2" | "month = 3" | "month = 4" | "month = 5" | "month = 6"
    | "month = 7" | "month = 8" | "month = 9" | "month = 10" | "month = 11" | "month = 12"
proof -
  have "month = 1 \<or> month = 2 \<or> month = 3 \<or> month = 4 \<or> month = 5 \<or> month = 6 \<or>
    month = 7 \<or> month = 8 \<or> month = 9 \<or> month = 10 \<or> month = 11 \<or> month = 12"
    using assms by arith
  then show ?thesis using that by blast
qed

lemma days_before_month_eq:
  assumes "3 \<le> month" and "month \<le> 12"
  shows "int (days_before_month month) = 31 * (int month - 1) - (int month * 4 + 23) div 10"
  by (rule month_cases [of month])
    (use assms in \<open>simp_all add: days_before_month_def days_in_month_def\<close>)

lemma daynr_terms:
  "bm = mm - q \<Longrightarrow> l = e - 365 \<Longrightarrow> a - t = a' - t' + (e - 365) \<Longrightarrow>
   365 * y + mm + d - q + a - t = (365 * y + a' - t') + bm + l + (d::int)"
  by simp

lemma calc_daynr_decomp:
  assumes "1 \<le> year" and "1 \<le> month" and "month \<le> 12"
  shows "calc_daynr year month day =
    days_before_year (int year) + int (days_before_month month) +
    (if 3 \<le> month then int (leap_days year) else 0) + int day"
proof (cases "month \<le> 2")
  case True
  then have "int (days_before_month month) = 31 * (int month - 1)"
    by (cases rule: month_cases [OF assms(2,3)])
      (auto simp: days_before_month_def days_in_month_def)
  with True assms show ?thesis by (simp add: calc_daynr_def days_before_year_def Let_def)
next
  case False
  with assms have mb: "int (days_before_month month) = 31 * (int month - 1) - (int month * 4 + 23) div 10"
    by (simp add: days_before_month_eq)
  have ld: "int (leap_days year) = int (calc_days_in_year year) - 365"
    by (simp add: leap_days_def calc_days_in_year_def)
  have lc: "int year div 4 - ((int year div 100 + 1) * 3) div 4 =
      (int year - 1) div 4 - (((int year - 1) div 100 + 1) * 3) div 4 +
      (int (calc_days_in_year year) - 365)"
    by (rule leap_correction [of "int year", unfolded nat_int]) (use assms(1) in simp)
  have "calc_daynr year month day =
      365 * int year + 31 * (int month - 1) + int day - (int month * 4 + 23) div 10 +
      int year div 4 - ((int year div 100 + 1) * 3) div 4"
    using False by (simp add: calc_daynr_def Let_def)
  also have "\<dots> = days_before_year (int year) + int (days_before_month month) +
      int (leap_days year) + int day"
    unfolding days_before_year_def by (rule daynr_terms [OF mb ld lc])
  finally show ?thesis using False by simp
qed

section \<open>Day of the year\<close>

definition month_start :: "nat \<Rightarrow> nat \<Rightarrow> nat" where
  "month_start year month = days_before_month month + (if 3 \<le> month then leap_days year else 0)"

lemma leap_days_eq: "calc_days_in_year year = 365 + leap_days year" "leap_days year \<le> 1"
  by (auto simp: leap_days_def calc_days_in_year_def)

lemma month_days_eq:
  "month_days year month = days_in_month ! (month - 1) + (if month = 2 then leap_days year else 0)"
  by (auto simp: month_days_def leap_days_def calc_days_in_year_def)

lemma month_start_Suc:
  assumes "1 \<le> month" and "month \<le> 12"
  shows "month_start year (Suc month) = month_start year month + month_days year month"
  by (cases rule: month_cases [OF assms])
    (simp_all add: month_start_def days_before_month_def days_in_month_def month_days_eq)

lemma month_start_1 [simp]: "month_start year (Suc 0) = 0"
  by (simp add: month_start_def days_before_month_def)

lemma month_start_13: "month_start year 13 = calc_days_in_year year"
  by (simp add: month_start_def days_before_month_def days_in_month_def leap_days_eq)

lemma month_start_mono:
  assumes "month \<le> month'" and "1 \<le> month" and "month' \<le> 13"
  shows "month_start year month \<le> month_start year month'"
  using assms
proof (induction rule: dec_induct)
  case (step n)
  then show ?case using month_start_Suc [of n year] by simp
qed simp

lemma calc_daynr_month_start:
  "1 \<le> year \<Longrightarrow> 1 \<le> month \<Longrightarrow> month \<le> 12 \<Longrightarrow>
   calc_daynr year month day = days_before_year (int year) + int (month_start year month + day)"
  by (simp add: calc_daynr_decomp month_start_def)

lemma valid_date_day_of_year:
  assumes "valid_date year month day"
  shows "1 \<le> month_start year month + day"
    and "month_start year month + day \<le> month_start year (Suc month)"
    and "month_start year month + day \<le> calc_days_in_year year"
  using assms month_start_Suc [of month year] month_start_mono [of "Suc month" 13 year]
  by (auto simp: valid_date_def month_start_13)

lemma days_before_year_mono:
  assumes "y \<le> y'" and "0 < y"
  shows "days_before_year y \<le> days_before_year y'"
  using assms
proof (induction rule: int_ge_induct)
  case (step i)
  then show ?case using days_before_year_Suc [of i] by simp
qed simp

text \<open>Every day number after year 0 is a day of a year, and a day of a month.\<close>

lemma day_of_year_exists:
  assumes "366 \<le> n"
  shows "\<exists>y doy. 1 \<le> y \<and> 1 \<le> doy \<and> doy \<le> calc_days_in_year y \<and> n = days_before_year (int y) + int doy"
  using assms
proof (induction rule: int_ge_induct)
  case base
  have "(366::int) = days_before_year (int 1) + int 1" by (simp add: days_before_year_def)
  moreover have "(1::nat) \<le> calc_days_in_year 1"
    using calc_days_in_year_bounds(1) [of 1] by simp
  ultimately show ?case by (metis le_refl)
next
  case (step n)
  then obtain y doy where y: "1 \<le> y" "1 \<le> doy" "doy \<le> calc_days_in_year y"
    "n = days_before_year (int y) + int doy" by blast
  show ?case
  proof (cases "doy < calc_days_in_year y")
    case True
    with y show ?thesis by (intro exI [of _ y] exI [of _ "Suc doy"]) simp
  next
    case False
    with y days_before_year_Suc [of "int y"] calc_days_in_year_bounds(1) [of "Suc y"]
    show ?thesis by (intro exI [of _ "Suc y"] exI [of _ 1]) (simp add: add.commute)
  qed
qed

lemma month_of_day_exists:
  assumes "1 \<le> doy" and "doy \<le> month_start year (Suc m)" and "m \<le> 12"
  shows "\<exists>month day. 1 \<le> month \<and> month \<le> m \<and> 1 \<le> day \<and> day \<le> month_days year month \<and>
    doy = month_start year month + day"
  using assms
proof (induction m)
  case 0
  then show ?case by simp
next
  case (Suc m)
  show ?case
  proof (cases "doy \<le> month_start year (Suc m)")
    case True
    with Suc show ?thesis by (metis Suc_leD le_SucI)
  next
    case False
    with Suc.prems month_start_Suc [of "Suc m" year]
    have "1 \<le> doy - month_start year (Suc m)" "doy - month_start year (Suc m) \<le> month_days year (Suc m)"
      "doy = month_start year (Suc m) + (doy - month_start year (Suc m))" by auto
    then show ?thesis by (metis le_refl le_add1 plus_1_eq_Suc)
  qed
qed

lemma valid_date_exists:
  assumes "366 \<le> n"
  shows "\<exists>y m d. valid_date y m d \<and> calc_daynr y m d = n"
proof -
  from day_of_year_exists [OF assms] obtain y doy where y: "1 \<le> y" "1 \<le> doy"
    "doy \<le> calc_days_in_year y" "n = days_before_year (int y) + int doy" by blast
  with month_of_day_exists [of doy y 12] obtain m d where
    "1 \<le> m" "m \<le> 12" "1 \<le> d" "d \<le> month_days y m" "doy = month_start y m + d"
    by (auto simp: month_start_13)
  with y show ?thesis by (metis calc_daynr_month_start valid_date_def)
qed

section \<open>Decoding a day number\<close>

declare year_scan.simps [simp del]

lemma year_scan_finds:
  assumes "1 \<le> yg" and "yg \<le> y" and "1 \<le> doy" and "doy \<le> calc_days_in_year y"
    and "int n = days_before_year (int y) - days_before_year (int yg) + int doy"
  shows "year_scan n yg = (doy, y)"
  using assms(2,1,5)
proof (induction arbitrary: n rule: inc_induct)
  case base
  with assms(4) show ?case by (simp add: year_scan.simps [of doy y])
next
  case (step k)
  have nxt: "days_before_year (int (Suc k)) = days_before_year (int k) + int (calc_days_in_year k)"
    using days_before_year_Suc [of "int k"] step.prems(1) by (simp add: add.commute)
  have "days_before_year (int (Suc k)) \<le> days_before_year (int y)"
    using step.hyps by (intro days_before_year_mono) simp_all
  with nxt step.prems(2) assms(3) have gt: "calc_days_in_year k < n" by simp
  with nxt step.prems(2)
  have "int (n - calc_days_in_year k) = days_before_year (int y) - days_before_year (int (Suc k)) + int doy"
    by simp
  with step.IH step.prems(1) have "year_scan (n - calc_days_in_year k) (Suc k) = (doy, y)" by simp
  with gt show ?case by (simp add: year_scan.simps [of n k])
qed

text \<open>The first guess of the year never exceeds the year of the day.\<close>

lemma year_guess_below:
  assumes "1 \<le> y" and "36525 * y \<le> n * 100"
  shows "days_before_year y < n"
proof -
  have "0 \<le> (((y - 1) div 100 + 1) * 3) div 4" using assms(1) by (simp add: pos_imp_zdiv_nonneg_iff)
  moreover have "4 * ((y - 1) div 4) \<le> y - 1"
    using mult_div_mod_eq [of 4 "y - 1"] pos_mod_sign [of 4 "y - 1"] by linarith
  ultimately show ?thesis using assms unfolding days_before_year_def by linarith
qed

lemma month_scan_finds:
  assumes "valid_date year month day"
  defines "doy \<equiv> month_start year month + day"
  defines "skip \<equiv> calc_days_in_year year = 366 \<and> doy > 31 + 28"
  shows "map_option (\<lambda>(m, d). (m, d + (if skip \<and> doy - 1 = 31 + 28 then 1 else 0)))
           (month_scan days_in_month (if skip then doy - 1 else doy) 1) = Some (month, day)"
proof -
  from assms(1) have m: "1 \<le> month" "month \<le> 12" and d: "1 \<le> day" "day \<le> month_days year month"
    by (auto simp: valid_date_def)
  have l: "leap_days year = 0 \<or> leap_days year = 1" and ly: "calc_days_in_year year = 366 \<longleftrightarrow> leap_days year = 1"
    by (auto simp: leap_days_def calc_days_in_year_def)
  show ?thesis
    using l d unfolding doy_def skip_def
    by (cases rule: month_cases [OF m]; elim disjE)
      (auto simp: ly month_start_def days_before_month_def days_in_month_def month_days_eq)
qed

lemma u32_pred: "1 \<le> y \<Longrightarrow> y < 2 ^ 32 \<Longrightarrow> int (u32 (int y - 1)) = int y - 1"
  by (simp add: u32_id)

lemma year_guess:
  assumes "366 \<le> n" and "n < 3652500" and yg: "yg = u32 ((n * 100) sdiv 36525)"
  shows "1 \<le> yg" and "36525 * int yg \<le> n * 100"
proof -
  have q: "(n * 100) sdiv 36525 = (n * 100) div 36525" "1 \<le> (n * 100) div 36525"
    "36525 * ((n * 100) div 36525) \<le> n * 100"
    using assms(1) mult_div_mod_eq [of 36525 "n * 100"] pos_mod_sign [of 36525 "n * 100"]
      zdiv_mono1 [of 36525 "n * 100" 36525] by auto
  moreover have "(n * 100) div 36525 < 4294967296" using q(3) assms(1,2) by linarith
  ultimately have "int yg = (n * 100) div 36525" by (simp add: yg u32_id)
  with q show "1 \<le> yg" and "36525 * int yg \<le> n * 100" by simp_all
qed

lemma first_day_of_year:
  assumes "1 \<le> yg" and "yg < 2 ^ 32" and "36525 * int yg \<le> n * 100" and "n < 3652500"
  shows "int (u32 (n - int yg * 365)) - int (u32 (int yg - 1) div 4)
        + int (((u32 (int yg - 1) div 100 + 1) * 3) div 4) = n - days_before_year (int yg)"
proof -
  have "int (u32 (n - int yg * 365)) = n - int yg * 365"
    using assms by (subst u32_id) simp_all
  moreover have "int (u32 (int yg - 1)) = int yg - 1"
    using assms(1,2) by (rule u32_pred)
  ultimately show ?thesis
    by (simp only: days_before_year_def zdiv_int of_nat_add of_nat_mult of_nat_numeral
          of_nat_1)
qed

lemma year_le_of_days:
  assumes "1 \<le> year" and "days_before_year (int yg) < days_before_year (int year) + int doy"
    and "doy \<le> calc_days_in_year year"
  shows "yg \<le> year"
proof (rule ccontr)
  assume "\<not> yg \<le> year"
  then have "days_before_year (int year + 1) \<le> days_before_year (int yg)"
    using assms(1) by (intro days_before_year_mono) simp_all
  with assms days_before_year_Suc [of "int year"] show False by simp
qed

lemma get_date_eq:
  assumes v: "valid_date year month day" and n: "n = calc_daynr year month day" "n < 3652500"
  shows "get_date_from_daynr n = Some (year, month, day)"
proof -
  define doy where "doy = month_start year month + day"
  define yg where "yg = u32 ((n * 100) sdiv 36525)"
  from v have ymd: "1 \<le> year" "1 \<le> month" "month \<le> 12" by (auto simp: valid_date_def)
  from v have doy: "1 \<le> doy" "doy \<le> calc_days_in_year year"
    using valid_date_day_of_year by (auto simp: doy_def)
  have ne: "n = days_before_year (int year) + int doy"
    using n calc_daynr_month_start [OF ymd] by (simp add: doy_def)
  have y1: "365 \<le> days_before_year (int y)" if "1 \<le> y" for y
    using days_before_year_mono [of 1 "int y"] that by (simp add: days_before_year_def)
  then have n366: "366 \<le> n" using ne doy(1) ymd(1) by fastforce
  note g = year_guess [OF n366 n(2) yg_def]
  have yg32: "yg < 2 ^ 32" unfolding yg_def by (rule u32_less)
  have below: "days_before_year (int yg) < n"
    using year_guess_below [of "int yg" n] g by simp
  then have le: "yg \<le> year" using year_le_of_days ymd(1) doy(2) ne by blast
  note raw = first_day_of_year [OF g(1) yg32 g(2) n(2)]
  have "int (u32 (n - days_before_year (int yg))) = n - days_before_year (int yg)"
    using below n(2) y1 [OF g(1)] by (subst u32_id) simp_all
  then have scan: "year_scan (u32 (n - days_before_year (int yg))) yg = (doy, year)"
    using ne by (intro year_scan_finds g(1) le doy) simp
  show ?thesis
    using n366 n(2) month_scan_finds [OF v] scan
    unfolding get_date_from_daynr_def Let_def yg_def [symmetric] raw doy_def
    by (auto split: prod.splits option.splits if_splits)
qed

section \<open>The calendar as an ordered day numbering\<close>

text \<open>The contract the date arithmetic relies on: a partial bijection between dates and an
  interval of day numbers.\<close>

locale day_numbering =
  fixes daynr :: "'d \<Rightarrow> int"
    and of_daynr :: "int \<Rightarrow> 'd option"
    and valid :: "'d \<Rightarrow> bool"
    and lo hi :: int
  assumes encode: "valid d \<Longrightarrow> lo \<le> daynr d \<and> daynr d \<le> hi \<and> of_daynr (daynr d) = Some d"
    and decode: "lo \<le> n \<Longrightarrow> n \<le> hi \<Longrightarrow> \<exists>d. valid d \<and> daynr d = n"
begin

lemma of_daynr_valid:
  assumes "lo \<le> n" and "n \<le> hi"
  obtains d where "of_daynr n = Some d" and "valid d" and "daynr d = n"
  using decode [OF assms] encode by blast

lemma daynr_inj: "valid d \<Longrightarrow> valid d' \<Longrightarrow> daynr d = daynr d' \<Longrightarrow> d = d'"
  using encode by (metis option.inject)

text \<open>Moving a date by \<open>k\<close> days inside the range, and back.\<close>

lemma shift_days:
  assumes "valid d" and "lo \<le> daynr d + k" and "daynr d + k \<le> hi"
  obtains d' where "of_daynr (daynr d + k) = Some d'" and "valid d'"
    and "daynr d' = daynr d + k" and "of_daynr (daynr d' - k) = Some d"
proof -
  from of_daynr_valid [OF assms(2,3)] obtain d' where
    "of_daynr (daynr d + k) = Some d'" "valid d'" "daynr d' = daynr d + k" by blast
  moreover with encode [OF assms(1)] have "of_daynr (daynr d' - k) = Some d" by simp
  ultimately show ?thesis using that by blast
qed

end

definition date_less :: "nat \<times> nat \<times> nat \<Rightarrow> nat \<times> nat \<times> nat \<Rightarrow> bool" where
  "date_less = (\<lambda>(y, m, d) (y', m', d'). y < y' \<or> y = y' \<and> (m < m' \<or> m = m' \<and> d < d'))"

lemma calc_daynr_less:
  assumes "valid_date y m d" and "valid_date y' m' d'" and "date_less (y, m, d) (y', m', d')"
  shows "calc_daynr y m d < calc_daynr y' m' d'"
proof -
  from assms(1,2) have r: "1 \<le> y" "1 \<le> m" "m \<le> 12" "1 \<le> y'" "1 \<le> m'" "m' \<le> 12" "1 \<le> d'"
    by (auto simp: valid_date_def)
  note eq = calc_daynr_month_start [OF r(1-3)] calc_daynr_month_start [OF r(4-6)]
  consider "y < y'" | "y = y'" "m < m'" | "y = y'" "m = m'" "d < d'"
    using assms(3) by (auto simp: date_less_def)
  then show ?thesis
  proof cases
    case 1
    then have "days_before_year (int y + 1) \<le> days_before_year (int y')"
      using r(1) by (intro days_before_year_mono) simp_all
    then show ?thesis
      using days_before_year_Suc [of "int y"] r(1) valid_date_day_of_year(3) [OF assms(1)]
        valid_date_day_of_year(1) [OF assms(2)] by (simp add: eq)
  next
    case 2
    then show ?thesis unfolding eq
      using month_start_mono [of "Suc m" m' y] valid_date_day_of_year(2) [OF assms(1)] r
      by simp
  qed (simp add: eq)
qed

lemma calc_daynr_less_iff:
  assumes "valid_date y m d" and "valid_date y' m' d'"
  shows "calc_daynr y m d < calc_daynr y' m' d' \<longleftrightarrow> date_less (y, m, d) (y', m', d')"
proof
  assume lt: "calc_daynr y m d < calc_daynr y' m' d'"
  show "date_less (y, m, d) (y', m', d')"
  proof (rule ccontr)
    assume "\<not> date_less (y, m, d) (y', m', d')"
    then have "(y, m, d) = (y', m', d') \<or> date_less (y', m', d') (y, m, d)"
      by (auto simp: date_less_def)
    with lt calc_daynr_less [OF assms(2,1)] show False by auto
  qed
qed (rule calc_daynr_less [OF assms])

lemma calc_daynr_first: "calc_daynr 1 1 1 = 366" and calc_daynr_last: "calc_daynr 9999 12 31 = 3652424"
  by (simp_all add: calc_daynr_def)

lemma valid_first: "valid_date 1 1 1" and valid_last: "valid_date 9999 12 31"
  by (simp_all add: valid_date_def month_days_def days_in_month_def)

lemma valid_date_daynr_range:
  assumes "valid_date y m d"
  shows "366 \<le> calc_daynr y m d" and "calc_daynr y m d \<le> 3652424 \<longleftrightarrow> y \<le> 9999"
proof -
  show "366 \<le> calc_daynr y m d"
  proof (cases "(y, m, d) = (1, 1, 1)")
    case False
    with assms have "date_less (1, 1, 1) (y, m, d)"
      by (auto simp: date_less_def valid_date_def)
    with calc_daynr_less [OF valid_first assms] show ?thesis
      unfolding calc_daynr_first by simp
  qed (simp add: calc_daynr_def)
  have d31: "d \<le> 31" if "m = 12"
    using assms that by (simp add: valid_date_def month_days_def days_in_month_def)
  show "calc_daynr y m d \<le> 3652424 \<longleftrightarrow> y \<le> 9999"
  proof (cases "y \<le> 9999")
    case True
    then have "(y, m, d) = (9999, 12, 31) \<or> date_less (y, m, d) (9999, 12, 31)"
      using assms d31 by (auto simp: date_less_def valid_date_def)
    with calc_daynr_less [OF assms valid_last] True show ?thesis
      by (auto simp: calc_daynr_last)
  next
    case False
    then have "date_less (9999, 12, 31) (y, m, d)" by (simp add: date_less_def)
    with calc_daynr_less [OF valid_last assms] False show ?thesis by (simp add: calc_daynr_last)
  qed
qed

interpretation cal: day_numbering "\<lambda>(y, m, d). calc_daynr y m d" get_date_from_daynr
  "\<lambda>(y, m, d). valid_date y m d \<and> y \<le> 9999" 366 3652424
proof unfold_locales
  fix d :: "nat \<times> nat \<times> nat"
  assume "(\<lambda>(y, m, d). valid_date y m d \<and> y \<le> 9999) d"
  then show "366 \<le> (\<lambda>(y, m, d). calc_daynr y m d) d \<and> (\<lambda>(y, m, d). calc_daynr y m d) d \<le> 3652424 \<and>
      get_date_from_daynr ((\<lambda>(y, m, d). calc_daynr y m d) d) = Some d"
    using valid_date_daynr_range get_date_eq [OF _ refl] by (fastforce split: prod.splits)
next
  fix n :: int
  assume n: "366 \<le> n" "n \<le> 3652424"
  from valid_date_exists [OF n(1)] obtain y m d where
    "valid_date y m d" "calc_daynr y m d = n" by blast
  with n(2) valid_date_daynr_range(2) [of y m d]
  show "\<exists>d. (\<lambda>(y, m, d). valid_date y m d \<and> y \<le> 9999) d \<and> (\<lambda>(y, m, d). calc_daynr y m d) d = n"
    by (intro exI [of _ "(y, m, d)"]) simp
qed

section \<open>Properties\<close>

text \<open>C14: every valid date of the years 1 to 9999 is recovered from its day number:
  \<open>get_date_from_daynr\<close> inverts \<open>calc_daynr\<close>, and never reads past \<open>days_in_month\<close>.\<close>

theorem daynr_roundtrip:
  assumes "valid_date y m d" and "y \<le> 9999"
  shows "get_date_from_daynr (calc_daynr y m d) = Some (y, m, d)"
  using cal.encode [of "(y, m, d)"] assms by simp

theorem daynr_roundtrip_witness:
  "valid_date 2000 2 29 \<and> get_date_from_daynr (calc_daynr 2000 2 29) = Some (2000, 2, 29)"
proof -
  have v: "valid_date 2000 2 29"
    by (simp add: valid_date_def month_days_def days_in_month_def calc_days_in_year_def)
  show ?thesis using v daynr_roundtrip [OF v] by simp
qed

text \<open>C26: every day number from 366 to \<open>MAX_DAY_NUMBER\<close> decodes to a valid date of the
  years 1 to 9999, whose day number it is.\<close>

theorem daynr_decode_valid:
  assumes "366 \<le> n" and "n \<le> 3652424"
  shows "\<exists>y m d. get_date_from_daynr n = Some (y, m, d) \<and> valid_date y m d \<and> y \<le> 9999 \<and>
    calc_daynr y m d = n"
  using cal.of_daynr_valid [OF assms] by (metis (no_types, lifting) case_prod_conv surj_pair)

theorem daynr_decode_valid_witness:
  "\<exists>y m d. get_date_from_daynr 730669 = Some (y, m, d) \<and> valid_date y m d \<and> y \<le> 9999 \<and>
    calc_daynr y m d = 730669"
  by (rule daynr_decode_valid) simp_all

text \<open>day numbers order valid dates as the calendar does.\<close>

theorem daynr_order:
  assumes "valid_date y m d" and "valid_date y' m' d'"
  shows "calc_daynr y m d < calc_daynr y' m' d' \<longleftrightarrow> date_less (y, m, d) (y', m', d')"
  using calc_daynr_less_iff [OF assms] .

theorem daynr_order_witness:
  "calc_daynr 1999 12 31 < calc_daynr 2000 1 1 \<longleftrightarrow> date_less (1999, 12, 31) (2000, 1, 1)"
  by (rule daynr_order) (simp_all add: valid_date_def month_days_def days_in_month_def)

end
