(* ===== verification/TimeValue.thy ===== *)
theory TimeValue
  imports Calendar
begin

unbundle bit_operations_syntax

text \<open>
  \<open>MYSQL_TIME\<close> values (\<open>src/include/mysql_time.h\<close>) and their conversions to and from
  numbers and strings (\<open>src/sql-common/my_time.c\<close>): \<open>check_date\<close>, \<open>check_time_range\<close>,
  \<open>number_to_datetime\<close>, the \<open>TIME_to_ulonglong\<close> family and the printing functions.
  An output parameter is a component of the result; a flag word is a natural number tested
  with \<open>AND\<close>.
\<close>

section \<open>Data\<close>

datatype timestamp_type =
    MYSQL_TIMESTAMP_NONE | MYSQL_TIMESTAMP_ERROR | MYSQL_TIMESTAMP_DATE
  | MYSQL_TIMESTAMP_DATETIME | MYSQL_TIMESTAMP_TIME

record MYSQL_TIME =
  t_year :: nat
  t_month :: nat
  t_day :: nat
  t_hour :: nat
  t_minute :: nat
  t_second :: nat
  t_second_part :: nat
  t_neg :: bool
  t_type :: timestamp_type

definition TIME_FUZZY_DATE :: nat where "TIME_FUZZY_DATE = 1"

definition TIME_DATETIME_ONLY :: nat where "TIME_DATETIME_ONLY = 2"

definition TIME_NO_ZERO_IN_DATE :: nat where "TIME_NO_ZERO_IN_DATE = 65536 * 2 * 2 * 2 * 2 * 2 * 2 * 2"

definition TIME_NO_ZERO_DATE :: nat where "TIME_NO_ZERO_DATE = TIME_NO_ZERO_IN_DATE * 2"

definition TIME_INVALID_DATES :: nat where "TIME_INVALID_DATES = TIME_NO_ZERO_DATE * 2"

definition MYSQL_TIME_WARN_TRUNCATED :: nat where "MYSQL_TIME_WARN_TRUNCATED = 1"

definition MYSQL_TIME_WARN_OUT_OF_RANGE :: nat where "MYSQL_TIME_WARN_OUT_OF_RANGE = 2"

abbreviation has_flag :: "nat \<Rightarrow> nat \<Rightarrow> bool" where
  "has_flag flags f \<equiv> flags AND f \<noteq> 0"

lemmas time_flag_defs = TIME_FUZZY_DATE_def TIME_DATETIME_ONLY_def TIME_NO_ZERO_IN_DATE_def
  TIME_NO_ZERO_DATE_def TIME_INVALID_DATES_def

definition set_zero_time :: "timestamp_type \<Rightarrow> MYSQL_TIME" where
  "set_zero_time time_type =
     \<lparr>t_year = 0, t_month = 0, t_day = 0, t_hour = 0, t_minute = 0, t_second = 0,
      t_second_part = 0, t_neg = False, t_type = time_type\<rparr>"

section \<open>Validity checks\<close>

text \<open>\<open>check_date\<close> returns its error and the new value of \<open>*was_cut\<close>.\<close>

definition check_date :: "MYSQL_TIME \<Rightarrow> bool \<Rightarrow> nat \<Rightarrow> nat \<Rightarrow> bool \<times> nat" where
  "check_date ltime not_zero_date flags was_cut =
     (if not_zero_date then
        if ((has_flag flags TIME_NO_ZERO_IN_DATE \<or> \<not> has_flag flags TIME_FUZZY_DATE) \<and>
              (t_month ltime = 0 \<or> t_day ltime = 0)) \<or>
           (\<not> has_flag flags TIME_INVALID_DATES \<and>
              t_month ltime \<noteq> 0 \<and> t_day ltime > days_in_month ! (t_month ltime - 1) \<and>
              (t_month ltime \<noteq> 2 \<or> calc_days_in_year (t_year ltime) \<noteq> 366 \<or> t_day ltime \<noteq> 29))
        then (True, 2)
        else (False, was_cut)
      else if has_flag flags TIME_NO_ZERO_DATE then (True, was_cut)
      else (False, was_cut))"

text \<open>\<open>check_time_range\<close> returns its result code, the value it stores and the warnings.
  \<open>24*my_time->day\<close> and the sum are computed in \<open>unsigned int\<close> before they are widened.\<close>

definition check_time_range :: "MYSQL_TIME \<Rightarrow> nat \<Rightarrow> nat \<times> MYSQL_TIME \<times> nat" where
  "check_time_range my_time warning =
     (if t_minute my_time \<ge> 60 \<or> t_second my_time \<ge> 60 then (1, my_time, warning)
      else
        let hour = u32 (int (t_hour my_time) + 24 * int (t_day my_time))
        in if hour \<le> 838 \<and>
              (hour \<noteq> 838 \<or> t_minute my_time \<noteq> 59 \<or> t_second my_time \<noteq> 59 \<or>
               t_second_part my_time = 0)
           then (0, my_time, warning)
           else (0, my_time\<lparr>t_day := 0, t_hour := 838, t_minute := 59, t_second := 59,
                            t_second_part := 0\<rparr>,
                 warning OR MYSQL_TIME_WARN_OUT_OF_RANGE))"

section \<open>Numbers\<close>

definition TIME_to_ulonglong_datetime :: "MYSQL_TIME \<Rightarrow> nat" where
  "TIME_to_ulonglong_datetime my_time =
     u64 (int (u64 (int (t_year my_time * 10000 + t_month my_time * 100 + t_day my_time))) * 1000000 +
          int (u64 (int (t_hour my_time * 10000 + t_minute my_time * 100 + t_second my_time))))"

definition TIME_to_ulonglong_date :: "MYSQL_TIME \<Rightarrow> nat" where
  "TIME_to_ulonglong_date my_time =
     u64 (int (t_year my_time * 10000 + t_month my_time * 100 + t_day my_time))"

definition TIME_to_ulonglong_time :: "MYSQL_TIME \<Rightarrow> nat" where
  "TIME_to_ulonglong_time my_time =
     u64 (int (t_hour my_time * 10000 + t_minute my_time * 100 + t_second my_time))"

definition TIME_to_ulonglong :: "MYSQL_TIME \<Rightarrow> nat" where
  "TIME_to_ulonglong my_time =
     (case t_type my_time of
        MYSQL_TIMESTAMP_DATETIME \<Rightarrow> TIME_to_ulonglong_datetime my_time
      | MYSQL_TIMESTAMP_DATE \<Rightarrow> TIME_to_ulonglong_date my_time
      | MYSQL_TIMESTAMP_TIME \<Rightarrow> TIME_to_ulonglong_time my_time
      | MYSQL_TIMESTAMP_NONE \<Rightarrow> 0
      | MYSQL_TIMESTAMP_ERROR \<Rightarrow> 0)"

text \<open>\<open>number_to_datetime\<close> up to its label \<open>ok\<close>: the number in \<open>YYYYMMDDHHMMSS\<close> form and
  the type, or \<open>None\<close> for \<open>goto err\<close>; paired with the type stored so far.\<close>

definition expand_number :: "int \<Rightarrow> nat \<Rightarrow> int option \<times> timestamp_type" where
  "expand_number nr flags =
     (if nr = 0 \<or> nr \<ge> 10000101000000 then (Some nr, MYSQL_TIMESTAMP_DATETIME)
      else if nr < 101 then (None, MYSQL_TIMESTAMP_DATE)
      else if nr \<le> (70 - 1) * 10000 + 1231
        then (Some ((nr + 20000000) * 1000000), MYSQL_TIMESTAMP_DATE)
      else if nr < 70 * 10000 + 101 then (None, MYSQL_TIMESTAMP_DATE)
      else if nr \<le> 991231 then (Some ((nr + 19000000) * 1000000), MYSQL_TIMESTAMP_DATE)
      else if nr < 10000101 \<and> \<not> has_flag flags TIME_FUZZY_DATE then (None, MYSQL_TIMESTAMP_DATE)
      else if nr \<le> 99991231 then (Some (nr * 1000000), MYSQL_TIMESTAMP_DATE)
      else if nr < 101000000 then (None, MYSQL_TIMESTAMP_DATE)
      else if nr \<le> (70 - 1) * 10000000000 + 1231235959
        then (Some (nr + 20000000000000), MYSQL_TIMESTAMP_DATETIME)
      else if nr < 70 * 10000000000 + 101000000 then (None, MYSQL_TIMESTAMP_DATETIME)
      else if nr \<le> 991231235959 then (Some (nr + 19000000000000), MYSQL_TIMESTAMP_DATETIME)
      else (Some nr, MYSQL_TIMESTAMP_DATETIME))"

definition split_number :: "int \<Rightarrow> timestamp_type \<Rightarrow> MYSQL_TIME" where
  "split_number nr time_type =
     (let part1 = nr sdiv 1000000;
          part2 = nr - part1 * 1000000
      in (set_zero_time time_type)
           \<lparr>t_year := u32 (part1 sdiv 10000),
            t_month := u32 ((part1 smod 10000) sdiv 100),
            t_day := u32 ((part1 smod 10000) smod 100),
            t_hour := u32 (part2 sdiv 10000),
            t_minute := u32 ((part2 smod 10000) sdiv 100),
            t_second := u32 ((part2 smod 10000) smod 100)\<rparr>)"

definition number_to_datetime :: "int \<Rightarrow> nat \<Rightarrow> int \<times> MYSQL_TIME \<times> nat" where
  "number_to_datetime nr flags =
     (case expand_number nr flags of
        (None, ty) \<Rightarrow> (-1, set_zero_time ty, 1)
      | (Some nr, ty) \<Rightarrow>
          let time_res = split_number nr ty;
              fields_ok = (t_year time_res \<le> 9999 \<and> t_month time_res \<le> 12 \<and>
                t_day time_res \<le> 31 \<and> t_hour time_res \<le> 23 \<and>
                t_minute time_res \<le> 59 \<and> t_second time_res \<le> 59);
              (bad_date, was_cut) = (if fields_ok then check_date time_res (nr \<noteq> 0) flags 0
                                     else (True, 0))
          in if fields_ok \<and> \<not> bad_date then (nr, time_res, was_cut)
             else if nr = 0 \<and> has_flag flags TIME_NO_ZERO_DATE then (-1, time_res, was_cut)
             else (-1, time_res, 1))"

section \<open>Printing\<close>

text \<open>\<open>%0<width>u\<close> of \<open>sprintf\<close>: the decimal digits, padded with zeroes on the left.\<close>

fun dec_digits :: "nat \<Rightarrow> string" where
  "dec_digits n = (if n < 10 then [char_of (48 + n)] else dec_digits (n div 10) @ [char_of (48 + n mod 10)])"

declare dec_digits.simps [simp del]

definition print_u :: "nat \<Rightarrow> nat \<Rightarrow> string" where
  "print_u width n = replicate (width - length (dec_digits n)) (CHR ''0'') @ dec_digits n"

definition my_time_to_str :: "MYSQL_TIME \<Rightarrow> string" where
  "my_time_to_str l_time =
     (if t_neg l_time then ''-'' else '''') @ print_u 2 (t_hour l_time) @ '':'' @
     print_u 2 (t_minute l_time) @ '':'' @ print_u 2 (t_second l_time)"

definition my_date_to_str :: "MYSQL_TIME \<Rightarrow> string" where
  "my_date_to_str l_time =
     print_u 4 (t_year l_time) @ ''-'' @ print_u 2 (t_month l_time) @ ''-'' @ print_u 2 (t_day l_time)"

definition my_datetime_to_str :: "MYSQL_TIME \<Rightarrow> string" where
  "my_datetime_to_str l_time =
     print_u 4 (t_year l_time) @ ''-'' @ print_u 2 (t_month l_time) @ ''-'' @
     print_u 2 (t_day l_time) @ '' '' @ print_u 2 (t_hour l_time) @ '':'' @
     print_u 2 (t_minute l_time) @ '':'' @ print_u 2 (t_second l_time)"

definition my_TIME_to_str :: "MYSQL_TIME \<Rightarrow> string" where
  "my_TIME_to_str l_time =
     (case t_type l_time of
        MYSQL_TIMESTAMP_DATETIME \<Rightarrow> my_datetime_to_str l_time
      | MYSQL_TIMESTAMP_DATE \<Rightarrow> my_date_to_str l_time
      | MYSQL_TIMESTAMP_TIME \<Rightarrow> my_time_to_str l_time
      | MYSQL_TIMESTAMP_NONE \<Rightarrow> ''''
      | MYSQL_TIMESTAMP_ERROR \<Rightarrow> '''')"

section \<open>Lemmas\<close>

text \<open>The ranges \<open>mysql_time.h\<close> requires of a date and time of day.\<close>

definition fields_in_range :: "MYSQL_TIME \<Rightarrow> bool" where
  "fields_in_range t \<longleftrightarrow> t_year t \<le> 9999 \<and> t_month t \<le> 12 \<and> t_day t \<le> 31 \<and>
     t_hour t \<le> 23 \<and> t_minute t \<le> 59 \<and> t_second t \<le> 59"

lemma set_zero_time_simps [simp]:
  "t_year (set_zero_time ty) = 0" "t_month (set_zero_time ty) = 0" "t_day (set_zero_time ty) = 0"
  "t_hour (set_zero_time ty) = 0" "t_minute (set_zero_time ty) = 0" "t_second (set_zero_time ty) = 0"
  "t_second_part (set_zero_time ty) = 0" "\<not> t_neg (set_zero_time ty)" "t_type (set_zero_time ty) = ty"
  by (simp_all add: set_zero_time_def)

lemma check_date_valid:
  assumes "check_date t True flags w = (False, w')"
    and "\<not> has_flag flags TIME_FUZZY_DATE" and "\<not> has_flag flags TIME_INVALID_DATES"
    and "t_month t \<le> 12" and "1 \<le> t_year t"
  shows "valid_date (t_year t) (t_month t) (t_day t)"
  using assms
  by (cases "t_month t = 2")
    (auto simp: check_date_def valid_date_def month_days_def days_in_month_def split: if_splits)


lemma datetime_number:
  "d \<le> 99991231 \<Longrightarrow> h \<le> 235959 \<Longrightarrow>
   int (u64 (int (u64 (int d)) * 1000000 + int (u64 (int h)))) = int d * 1000000 + int h"
  by (simp add: u64_of_nat u64_id)

lemma TIME_to_ulonglong_datetime_eq:
  assumes "fields_in_range t"
  shows "int (TIME_to_ulonglong_datetime t) =
    int (t_year t * 10000 + t_month t * 100 + t_day t) * 1000000 +
    int (t_hour t * 10000 + t_minute t * 100 + t_second t)"
proof -
  have d: "t_year t * 10000 + t_month t * 100 + t_day t \<le> 99991231"
    and h: "t_hour t * 10000 + t_minute t * 100 + t_second t \<le> 235959"
    using assms by (auto simp: fields_in_range_def)
  then show ?thesis
    unfolding TIME_to_ulonglong_datetime_def
    by (simp only: datetime_number)
qed

lemma div_small: "0 \<le> (r::int) \<Longrightarrow> r < k \<Longrightarrow> (q * k + r) div k = q"
  by simp

lemma mod_small: "0 \<le> (r::int) \<Longrightarrow> r < k \<Longrightarrow> (q * k + r) mod k = r"
  by simp

text \<open>The decimal positions of a number, as \<open>split_number\<close> reads them.\<close>

lemma split_number_parts:
  assumes "0 \<le> y" "0 \<le> m" "m < 100" "0 \<le> d" "d < 100" "0 \<le> h" "h < 100"
    "0 \<le> mi" "mi < 100" "0 \<le> s" "s < 100" "y < 2 ^ 32"
    and "nr = (y * 10000 + (m * 100 + d)) * 1000000 + (h * 10000 + (mi * 100 + s))"
  shows "split_number nr ty = (set_zero_time ty)\<lparr>t_year := nat y, t_month := nat m, t_day := nat d,
     t_hour := nat h, t_minute := nat mi, t_second := nat s\<rparr>"
proof -
  have hms: "0 \<le> h * 10000 + (mi * 100 + s)" "h * 10000 + (mi * 100 + s) < 1000000"
    and md: "0 \<le> m * 100 + d" "m * 100 + d < 10000" and ms: "0 \<le> mi * 100 + s" "mi * 100 + s < 10000"
    using assms(1-11) by linarith+
  have ymd: "0 \<le> y * 10000 + (m * 100 + d)" using assms(1) md by simp
  have p1: "nr div 1000000 = y * 10000 + (m * 100 + d)"
    unfolding assms(13) using hms by (rule div_small)
  have "0 \<le> nr" using assms(13) ymd hms(1) by simp
  then have P1: "nr sdiv 1000000 = y * 10000 + (m * 100 + d)" by (simp add: p1)
  have P2: "nr - (y * 10000 + (m * 100 + d)) * 1000000 = h * 10000 + (mi * 100 + s)"
    by (simp add: assms(13))
  show ?thesis
    unfolding split_number_def P1 Let_def P2
    using ymd md ms hms assms(1-12)
    by (simp add: div_small mod_small u32_id)
qed

lemma split_number_decompose:
  assumes "0 \<le> (nr::int)" and "nr < 2 ^ 63"
  obtains y m d h mi s where "0 \<le> y" "y < 2 ^ 32" "0 \<le> m" "m < 100" "0 \<le> d" "d < 100"
    "0 \<le> h" "h < 100" "0 \<le> mi" "mi < 100" "0 \<le> s" "s < 100"
    "nr = (y * 10000 + (m * 100 + d)) * 1000000 + (h * 10000 + (mi * 100 + s))"
proof -
  define p q where "p = nr div 1000000" and "q = nr mod 1000000"
  define r where "r = p mod 10000"
  define u where "u = q mod 10000"
  have eqs: "nr = p * 1000000 + q" "p = (p div 10000) * 10000 + r" "r = (r div 100) * 100 + r mod 100"
    "q = (q div 10000) * 10000 + u" "u = (u div 100) * 100 + u mod 100"
    by (simp_all add: p_def q_def r_def u_def)
  have q: "0 \<le> q" "q < 1000000" and r: "0 \<le> r" "r < 10000" and u: "0 \<le> u" "u < 10000"
    by (simp_all add: q_def r_def u_def)
  have p: "0 \<le> p" unfolding p_def using assms(1) by (simp add: pos_imp_zdiv_nonneg_iff)
  have r2: "0 \<le> r mod 100" "r mod 100 < 100" "0 \<le> u mod 100" "u mod 100 < 100" by simp_all
  have lt: "r div 100 < 100" "u div 100 < 100" "q div 10000 < 100"
    using eqs(3,5,4) r u q r2 by linarith+
  have ge: "0 \<le> r div 100" "0 \<le> u div 100" "0 \<le> q div 10000" "0 \<le> p div 10000"
    using r u q p by (simp_all add: pos_imp_zdiv_nonneg_iff)
  have "(p div 10000) * 10000 * 1000000 \<le> nr" using eqs(1,2) q(1) r(1) by linarith
  then have "p div 10000 < 2 ^ 32" using assms(2) by simp
  moreover have "nr = ((p div 10000) * 10000 + ((r div 100) * 100 + r mod 100)) * 1000000 +
      ((q div 10000) * 10000 + ((u div 100) * 100 + u mod 100))"
    using eqs by simp
  ultimately show ?thesis using that r2 lt ge by blast
qed

lemma expand_number_range:
  assumes "expand_number nr flags = (Some n, ty)" and "nr < 2 ^ 63"
  shows "0 \<le> n" and "n < 2 ^ 63"
  using assms by (auto simp: expand_number_def split: if_splits)

lemma split_number_inverse:
  assumes "0 \<le> nr" and "nr < 2 ^ 63" and "fields_in_range (split_number nr ty)"
  shows "int (TIME_to_ulonglong_datetime (split_number nr ty)) = nr"
proof -
  obtain y m d h mi s where parts: "0 \<le> y" "y < 2 ^ 32" "0 \<le> m" "m < 100" "0 \<le> d" "d < 100"
    "0 \<le> h" "h < 100" "0 \<le> mi" "mi < 100" "0 \<le> s" "s < 100"
    "nr = (y * 10000 + (m * 100 + d)) * 1000000 + (h * 10000 + (mi * 100 + s))"
    using split_number_decompose [OF assms(1,2)] .
  note split = split_number_parts [OF parts(1,3-12,2,13)]
  show ?thesis
    using TIME_to_ulonglong_datetime_eq [OF assms(3)] parts(1-12) unfolding split
    by (simp add: parts(13))
qed


section \<open>Properties\<close>

text \<open>C31: whenever \<open>number_to_datetime\<close> accepts a number, the broken-down value it stores has
  every field in range, \<open>TIME_to_ulonglong_datetime\<close> gives back the number it returned, and
  \<open>was_cut\<close> is 0.\<close>

theorem number_to_datetime_sound:
  assumes "number_to_datetime nr flags = (r, t, w)" and "r \<noteq> -1" and "nr < 2 ^ 63"
  shows "fields_in_range t \<and> int (TIME_to_ulonglong_datetime t) = r \<and> w = 0"
proof -
  obtain n ty where e: "expand_number nr flags = (Some n, ty)"
    using assms(1,2) by (auto simp: number_to_datetime_def split: prod.splits option.splits)
  have ok: "fields_in_range (split_number n ty)" "t = split_number n ty" "r = n" "w = 0"
    using assms(1,2) e
    by (auto simp: number_to_datetime_def Let_def fields_in_range_def check_date_def split: if_splits)
  with split_number_inverse expand_number_range [OF e assms(3)] show ?thesis by simp
qed

theorem number_to_datetime_sound_witness:
  "\<exists>t. number_to_datetime 700101 0 = (19700101000000, t, 0) \<and> fields_in_range t \<and>
    int (TIME_to_ulonglong_datetime t) = 19700101000000"
proof -
  define t where "t = split_number 19700101000000 MYSQL_TIMESTAMP_DATE"
  have e: "number_to_datetime 700101 0 = (19700101000000, t, 0)"
    by (simp add: t_def number_to_datetime_def expand_number_def split_number_def check_date_def
        days_in_month_def u32_def Let_def time_flag_defs)
  show ?thesis using e number_to_datetime_sound [OF e] by simp
qed



text \<open>\<open>check_time_range\<close> rejects only impossible minutes and seconds; otherwise it keeps a time
  of at most 838:59:59 and replaces any larger one by 838:59:59 with a warning, as long as
  \<open>24*day + hour\<close> fits an \<open>unsigned int\<close>.\<close>

definition time_microseconds :: "MYSQL_TIME \<Rightarrow> nat" where
  "time_microseconds t =
     (((24 * t_day t + t_hour t) * 60 + t_minute t) * 60 + t_second t) * 1000000 + t_second_part t"

theorem check_time_range_clamps:
  assumes "24 * t_day t + t_hour t < 2 ^ 32" and "t_minute t < 60" and "t_second t < 60"
    and "t_second_part t < 1000000"
  shows "check_time_range t w =
    (if time_microseconds t \<le> 3020399000000 then (0, t, w)
     else (0, t\<lparr>t_day := 0, t_hour := 838, t_minute := 59, t_second := 59, t_second_part := 0\<rparr>,
           w OR MYSQL_TIME_WARN_OUT_OF_RANGE))"
proof -
  have h: "u32 (int (t_hour t) + 24 * int (t_day t)) = 24 * t_day t + t_hour t"
    using assms(1) u32_of_nat [of "24 * t_day t + t_hour t"] by (simp add: add.commute)
  have "24 * t_day t + t_hour t \<le> 838 \<and>
      (24 * t_day t + t_hour t \<noteq> 838 \<or> t_minute t \<noteq> 59 \<or> t_second t \<noteq> 59 \<or> t_second_part t = 0) \<longleftrightarrow>
      time_microseconds t \<le> 3020399000000"
    using assms(2-4) by (auto simp: time_microseconds_def)
  then show ?thesis using assms(2,3) by (simp only: check_time_range_def h Let_def) simp
qed

theorem check_time_range_clamps_witness:
  "check_time_range ((set_zero_time MYSQL_TIMESTAMP_TIME)\<lparr>t_day := 34, t_hour := 23\<rparr>) 0 =
    (0, (set_zero_time MYSQL_TIMESTAMP_TIME)\<lparr>t_hour := 838, t_minute := 59, t_second := 59\<rparr>, 2)"
  by (subst check_time_range_clamps)
    (simp_all add: time_microseconds_def set_zero_time_def MYSQL_TIME_WARN_OUT_OF_RANGE_def)


text \<open>a number that \<open>number_to_datetime\<close> does not accept is reported with \<open>was_cut\<close> 1 (or 0, for
  a zero date under \<open>TIME_NO_ZERO_DATE\<close>); the value 2 is never reported.\<close>

theorem number_to_datetime_was_cut:
  "snd (snd (number_to_datetime nr flags)) =
     (if fst (number_to_datetime nr flags) = -1
      then (if nr = 0 \<and> has_flag flags TIME_NO_ZERO_DATE then 0 else 1)
      else 0)"
proof (cases "nr = 0")
  case True
  then show ?thesis
    by (simp add: number_to_datetime_def expand_number_def split_number_def check_date_def u32_def Let_def)
next
  case False
  then have nz: "0 < n" if "expand_number nr flags = (Some n, ty)" for n ty
    using that by (auto simp: expand_number_def split: if_splits)
  with False show ?thesis
    by (fastforce simp: number_to_datetime_def Let_def check_date_def
        split: prod.splits option.splits if_splits)
qed

end
