(* ===== verification/DateArith.thy ===== *)
theory DateArith
  imports TimeValue
begin

unbundle bit_operations_syntax

text \<open>
  Date arithmetic of \<open>src/sql/sql_time.cc\<close>: \<open>date_add_interval\<close>, \<open>calc_time_diff\<close>,
  \<open>my_time_compare\<close>, \<open>calc_time_from_sec\<close> and \<open>calc_week\<close>.  Mixed signed and unsigned
  expressions are converted as C converts them (\<open>u32\<close>, \<open>u64\<close>, \<open>s64\<close>).  The lemmas show that
  adding an interval moves the instant by exactly the interval or fails, that comparison is
  the order of instants, and that week mode 3 is ISO 8601.
\<close>

section \<open>Definitions\<close>

datatype interval_type =
    INTERVAL_YEAR | INTERVAL_QUARTER | INTERVAL_MONTH | INTERVAL_WEEK | INTERVAL_DAY
  | INTERVAL_HOUR | INTERVAL_MINUTE | INTERVAL_SECOND | INTERVAL_MICROSECOND
  | INTERVAL_YEAR_MONTH | INTERVAL_DAY_HOUR | INTERVAL_DAY_MINUTE
  | INTERVAL_DAY_SECOND | INTERVAL_HOUR_MINUTE | INTERVAL_HOUR_SECOND
  | INTERVAL_MINUTE_SECOND | INTERVAL_DAY_MICROSECOND | INTERVAL_HOUR_MICROSECOND
  | INTERVAL_MINUTE_MICROSECOND | INTERVAL_SECOND_MICROSECOND | INTERVAL_LAST

record INTERVAL =
  i_year :: nat
  i_month :: nat
  i_day :: nat
  i_hour :: nat
  i_minute :: nat
  i_second :: nat
  i_second_part :: nat
  i_neg :: bool

definition MAX_DAY_NUMBER :: nat where "MAX_DAY_NUMBER = 3652424"

definition interval_sign :: "INTERVAL \<Rightarrow> int" where
  "interval_sign interval = (if i_neg interval then -1 else 1)"

text \<open>The three groups of cases of \<open>date_add_interval\<close>.  The result is the error flag and the
  value left in \<open>*ltime\<close>; \<open>None\<close> would be a read outside \<open>days_in_month\<close>.\<close>

definition add_time_units :: "MYSQL_TIME \<Rightarrow> INTERVAL \<Rightarrow> (bool \<times> MYSQL_TIME) option" where
  "add_time_units ltime interval =
     (let sign = interval_sign interval;
          ltime = ltime\<lparr>t_type := MYSQL_TIMESTAMP_DATETIME\<rparr>;
          microseconds = s64 (int (t_second_part ltime) + sign * int (i_second_part interval));
          extra_sec = microseconds sdiv 1000000;
          microseconds = microseconds smod 1000000;
          sec = int (u32 (int (u32 (int (t_day ltime) - 1)) * 3600)) * 24 +
                int (u32 (int (t_hour ltime) * 3600)) + int (u32 (int (t_minute ltime) * 60)) +
                int (t_second ltime) +
                sign * s64 (int (i_day interval) * 3600 * 24 + int (i_hour interval) * 3600 +
                            int (i_minute interval) * 60 + int (i_second interval)) +
                extra_sec;
          (microseconds, sec) =
            (if microseconds < 0 then (microseconds + 1000000, sec - 1) else (microseconds, sec));
          days = sec sdiv (3600 * 24);
          sec = sec - days * 3600 * 24;
          (days, sec) = (if sec < 0 then (days - 1, sec + 3600 * 24) else (days, sec));
          ltime = ltime\<lparr>t_second_part := u32 microseconds, t_second := u32 (sec smod 60),
                        t_minute := u32 ((sec sdiv 60) smod 60), t_hour := u32 (sec sdiv 3600)\<rparr>;
          daynr = calc_daynr (t_year ltime) (t_month ltime) 1 + days
      in if u64 daynr > MAX_DAY_NUMBER then Some (True, ltime)
         else case get_date_from_daynr daynr of
                None \<Rightarrow> None
              | Some (y, m, d) \<Rightarrow> Some (False, ltime\<lparr>t_year := y, t_month := m, t_day := d\<rparr>))"

definition add_days :: "MYSQL_TIME \<Rightarrow> INTERVAL \<Rightarrow> (bool \<times> MYSQL_TIME) option" where
  "add_days ltime interval =
     (let period = calc_daynr (t_year ltime) (t_month ltime) (t_day ltime) +
                   interval_sign interval * s64 (int (i_day interval))
      in if u64 period > MAX_DAY_NUMBER then Some (True, ltime)
         else case get_date_from_daynr period of
                None \<Rightarrow> None
              | Some (y, m, d) \<Rightarrow> Some (False, ltime\<lparr>t_year := y, t_month := m, t_day := d\<rparr>))"

definition add_years :: "MYSQL_TIME \<Rightarrow> INTERVAL \<Rightarrow> bool \<times> MYSQL_TIME" where
  "add_years ltime interval =
     (let ltime = ltime\<lparr>t_year := u32 (int (t_year ltime) +
                                     interval_sign interval * s64 (int (i_year interval)))\<rparr>
      in if t_year ltime \<ge> 10000 then (True, ltime)
         else (False,
               if t_month ltime = 2 \<and> t_day ltime = 29 \<and> calc_days_in_year (t_year ltime) \<noteq> 366
               then ltime\<lparr>t_day := 28\<rparr> else ltime))"

definition add_months :: "MYSQL_TIME \<Rightarrow> INTERVAL \<Rightarrow> bool \<times> MYSQL_TIME" where
  "add_months ltime interval =
     (let sign = interval_sign interval;
          period = int (u32 (int (t_year ltime) * 12)) + sign * s64 (int (i_year interval)) * 12 +
                   int (t_month ltime) - 1 + sign * s64 (int (i_month interval))
      in if u64 period \<ge> 120000 then (True, ltime)
         else
           let ltime = ltime\<lparr>t_year := u32 (period sdiv 12), t_month := u32 (period smod 12) + 1\<rparr>;
               len = days_in_month ! (t_month ltime - 1)
           in (False,
               if t_day ltime > len
               then ltime\<lparr>t_day := (if t_month ltime = 2 \<and> calc_days_in_year (t_year ltime) = 366
                                   then len + 1 else len)\<rparr>
               else ltime))"

definition date_add_interval :: "MYSQL_TIME \<Rightarrow> interval_type \<Rightarrow> INTERVAL \<Rightarrow> (bool \<times> MYSQL_TIME) option" where
  "date_add_interval ltime int_type interval =
     (let ltime = ltime\<lparr>t_neg := False\<rparr>
      in if int_type \<in> {INTERVAL_SECOND, INTERVAL_SECOND_MICROSECOND, INTERVAL_MICROSECOND,
             INTERVAL_MINUTE, INTERVAL_HOUR, INTERVAL_MINUTE_MICROSECOND, INTERVAL_MINUTE_SECOND,
             INTERVAL_HOUR_MICROSECOND, INTERVAL_HOUR_SECOND, INTERVAL_HOUR_MINUTE,
             INTERVAL_DAY_MICROSECOND, INTERVAL_DAY_SECOND, INTERVAL_DAY_MINUTE, INTERVAL_DAY_HOUR}
         then add_time_units ltime interval
         else if int_type \<in> {INTERVAL_DAY, INTERVAL_WEEK} then add_days ltime interval
         else if int_type = INTERVAL_YEAR then Some (add_years ltime interval)
         else if int_type \<in> {INTERVAL_YEAR_MONTH, INTERVAL_QUARTER, INTERVAL_MONTH}
         then Some (add_months ltime interval)
         else Some (True, ltime))"

text \<open>\<open>calc_time_diff\<close> returns the sign, the seconds and the microseconds.\<close>

definition calc_time_diff :: "MYSQL_TIME \<Rightarrow> MYSQL_TIME \<Rightarrow> int \<Rightarrow> bool \<times> int \<times> int" where
  "calc_time_diff l_time1 l_time2 l_sign =
     (let days =
            (if t_type l_time1 = MYSQL_TIMESTAMP_TIME
             then int (t_day l_time1) - l_sign * int (t_day l_time2)
             else
               calc_daynr (t_year l_time1) (t_month l_time1) (t_day l_time1) -
               (if t_type l_time2 = MYSQL_TIMESTAMP_TIME then l_sign * int (t_day l_time2)
                else l_sign * calc_daynr (t_year l_time2) (t_month l_time2) (t_day l_time2)));
          microseconds =
            (days * 86400 +
             (int (t_hour l_time1) * 3600 + int (t_minute l_time1) * 60 + int (t_second l_time1)) -
             l_sign * (int (t_hour l_time2) * 3600 + int (t_minute l_time2) * 60 +
                       int (t_second l_time2))) * 1000000 +
            int (t_second_part l_time1) - l_sign * int (t_second_part l_time2);
          (microseconds, neg) = (if microseconds < 0 then (- microseconds, True) else (microseconds, False))
      in (neg, microseconds sdiv 1000000, microseconds smod 1000000))"

definition my_time_compare :: "MYSQL_TIME \<Rightarrow> MYSQL_TIME \<Rightarrow> int" where
  "my_time_compare a b =
     (let a_t = TIME_to_ulonglong_datetime a; b_t = TIME_to_ulonglong_datetime b
      in if a_t < b_t then -1
         else if a_t > b_t then 1
         else if t_second_part a < t_second_part b then -1
         else if t_second_part a > t_second_part b then 1
         else 0)"

definition calc_time_from_sec :: "MYSQL_TIME \<Rightarrow> int \<Rightarrow> int \<Rightarrow> MYSQL_TIME" where
  "calc_time_from_sec to seconds microseconds =
     (let t_seconds = seconds smod 3600
      in to\<lparr>t_type := MYSQL_TIMESTAMP_TIME, t_year := 0, t_month := 0, t_day := 0,
            t_hour := u32 (seconds sdiv 3600), t_minute := u32 (t_seconds sdiv 60),
            t_second := u32 (t_seconds smod 60), t_second_part := u64 microseconds\<rparr>)"

definition WEEK_MONDAY_FIRST :: nat where "WEEK_MONDAY_FIRST = 1"

definition WEEK_YEAR :: nat where "WEEK_YEAR = 2"

definition WEEK_FIRST_WEEKDAY :: nat where "WEEK_FIRST_WEEKDAY = 4"

text \<open>\<open>calc_week\<close> returns the week and the year it belongs to.\<close>

definition calc_week :: "MYSQL_TIME \<Rightarrow> nat \<Rightarrow> nat \<times> nat" where
  "calc_week l_time week_behaviour =
     (let daynr = u64 (calc_daynr (t_year l_time) (t_month l_time) (t_day l_time));
          first_daynr = u64 (calc_daynr (t_year l_time) 1 1);
          monday_first = has_flag week_behaviour WEEK_MONDAY_FIRST;
          week_year = has_flag week_behaviour WEEK_YEAR;
          first_weekday = has_flag week_behaviour WEEK_FIRST_WEEKDAY;
          weekday = u32 (calc_weekday (int first_daynr) (\<not> monday_first));
          year = t_year l_time;
          late = (\<lambda>weekday. first_weekday \<and> weekday \<noteq> 0 \<or> \<not> first_weekday \<and> weekday \<ge> 4);
          in_first = (t_month l_time = 1 \<and> t_day l_time \<le> 7 - weekday)
      in if in_first \<and> \<not> week_year \<and> late weekday then (0, year)
         else
           let (week_year, year, first_daynr, weekday) =
                 (if in_first then
                    let year = u32 (int year - 1); days = calc_days_in_year year
                    in (True, year, u64 (int first_daynr - int days), (weekday + 53 * 7 - days) mod 7)
                  else (week_year, year, first_daynr, weekday));
               days = (if late weekday then u32 (int daynr - (int first_daynr + (7 - int weekday)))
                       else u32 (int daynr - (int first_daynr - int weekday)));
               weekday' = (weekday + calc_days_in_year year) mod 7
           in if week_year \<and> days \<ge> 52 * 7 \<and> \<not> late weekday'
              then (1, u32 (int year + 1))
              else (days div 7 + 1, year))"

section \<open>Instants\<close>

text \<open>Specification: a date and time of day as microseconds since day 0.\<close>

definition instant :: "MYSQL_TIME \<Rightarrow> int" where
  "instant t =
     (((calc_daynr (t_year t) (t_month t) (t_day t) * 24 + int (t_hour t)) * 60 + int (t_minute t)) * 60 +
      int (t_second t)) * 1000000 + int (t_second_part t)"

definition datetime_ok :: "MYSQL_TIME \<Rightarrow> bool" where
  "datetime_ok t \<longleftrightarrow> valid_date (t_year t) (t_month t) (t_day t) \<and> t_year t \<le> 9999 \<and>
     t_hour t < 24 \<and> t_minute t < 60 \<and> t_second t < 60 \<and> t_second_part t < 1000000"



lemma interval_sign_cases: "interval_sign i = 1 \<or> interval_sign i = -1"
  by (simp add: interval_sign_def)


lemma valid_date_day_le: "valid_date y m d \<Longrightarrow> 1 \<le> d \<and> d \<le> 31"
  by (cases "m = 2")
    (auto simp: valid_date_def month_days_def days_in_month_def nth_Cons' split: if_splits)




section \<open>Adding time units\<close>






lemma u32_bounded:
  assumes "0 \<le> x" and "x < int k" and "k \<le> 2 ^ 32"
  shows "u32 x < k" and "int (u32 x) = x"
  using assms by (simp_all add: u32_id nat_less_iff)







section \<open>Adding days, months and years\<close>

lemma date_update_sel:
  "t_year (t\<lparr>t_neg := b\<rparr>) = t_year t" "t_month (t\<lparr>t_neg := b\<rparr>) = t_month t" "t_day (t\<lparr>t_neg := b\<rparr>) = t_day t"
  "datetime_ok (t\<lparr>t_neg := b\<rparr>) = datetime_ok t" "instant (t\<lparr>t_neg := b\<rparr>) = instant t"
  by (simp_all add: datetime_ok_def instant_def)


text \<open>Months are counted from month 0 of year 0.\<close>

definition month_index :: "MYSQL_TIME \<Rightarrow> int" where
  "month_index t = int (t_year t) * 12 + int (t_month t) - 1"

definition interval_months :: "INTERVAL \<Rightarrow> int" where
  "interval_months i = interval_sign i * (int (i_year i) * 12 + int (i_month i))"

lemma month_index_parts:
  assumes "0 \<le> k" and "k < 120000"
  obtains y m where "u32 (k sdiv 12) = y" "u32 (k smod 12) + 1 = m" "1 \<le> m" "m \<le> 12" "y \<le> 9999"
    "int y * 12 + int m - 1 = k"
proof -
  define q r where "q = k div 12" and "r = k mod 12"
  have k: "k = 12 * q + r" "0 \<le> r" "r < 12" by (simp_all add: q_def r_def)
  with assms have "0 \<le> q" "q < 10000" by linarith+
  moreover have "k sdiv 12 = q" "k smod 12 = r" using assms by (simp_all add: q_def r_def)
  ultimately show ?thesis
    using k u32_bounded [of q 10000] u32_bounded [of r 12] by (intro that [of "u32 q" "u32 r + 1"]) auto
qed

lemma add_months_spec:
  assumes t: "datetime_ok t" and i: "i_year i < 2 ^ 58" "i_month i < 2 ^ 58"
    and k: "k = month_index t + interval_months i"
  shows "k < 0 \<or> k \<ge> 120000 \<Longrightarrow> add_months t i = (True, t)"
    and "0 \<le> k \<Longrightarrow> k < 120000 \<Longrightarrow>
      \<exists>y m. int y * 12 + int m - 1 = k \<and> 1 \<le> m \<and> m \<le> 12 \<and> y \<le> 9999 \<and>
        add_months t i = (False, t\<lparr>t_year := y, t_month := m, t_day := min (t_day t) (month_days y m)\<rparr>)"
proof -
  have y: "t_year t \<le> 9999" "1 \<le> t_month t" "t_month t \<le> 12" using t by (auto simp: datetime_ok_def valid_date_def)
  have s: "s64 (int (i_year i)) = int (i_year i)" "s64 (int (i_month i)) = int (i_month i)"
    "int (u32 (int (t_year t) * 12)) = int (t_year t) * 12"
    using i y by (simp_all add: s64_id u32_id)
  have p: "int (t_year t) * 12 + interval_sign i * int (i_year i) * 12 + int (t_month t) - 1 +
      interval_sign i * int (i_month i) = k"
    unfolding k month_index_def interval_months_def by (simp add: algebra_simps)
  have "\<bar>k\<bar> < 2 ^ 63"
    unfolding p [symmetric] using i y interval_sign_cases [of i] by auto
  then have guard: "u64 k \<ge> 120000 \<longleftrightarrow> k < 0 \<or> k \<ge> 120000"
    using u64_neg [of k] by (cases "k < 0") (auto simp: u64_id)
  show "add_months t i = (True, t)" if "k < 0 \<or> k \<ge> 120000"
    using that guard by (simp add: add_months_def Let_def s p)
  assume r: "0 \<le> k" "k < 120000"
  then obtain y m where ym: "u32 (k sdiv 12) = y" "u32 (k smod 12) + 1 = m" "1 \<le> m" "m \<le> 12" "y \<le> 9999"
    "int y * 12 + int m - 1 = k" by (rule month_index_parts)
  have len: "days_in_month ! (m - 1) \<le> month_days y m"
    "m \<noteq> 2 \<or> calc_days_in_year y \<noteq> 366 \<Longrightarrow> month_days y m = days_in_month ! (m - 1)"
    "m = 2 \<Longrightarrow> calc_days_in_year y = 366 \<Longrightarrow> month_days y m = days_in_month ! (m - 1) + 1"
    by (auto simp: month_days_def)
  have "add_months t i = (False, t\<lparr>t_year := y, t_month := m, t_day := min (t_day t) (month_days y m)\<rparr>)"
    using r guard len ym by (simp add: add_months_def Let_def s p)
  with ym show "\<exists>y m. int y * 12 + int m - 1 = k \<and> 1 \<le> m \<and> m \<le> 12 \<and> y \<le> 9999 \<and>
        add_months t i = (False, t\<lparr>t_year := y, t_month := m, t_day := min (t_day t) (month_days y m)\<rparr>)"
    by blast
qed

definition time_interval_types :: "interval_type set" where
  "time_interval_types = {INTERVAL_SECOND, INTERVAL_SECOND_MICROSECOND, INTERVAL_MICROSECOND,
     INTERVAL_MINUTE, INTERVAL_HOUR, INTERVAL_MINUTE_MICROSECOND, INTERVAL_MINUTE_SECOND,
     INTERVAL_HOUR_MICROSECOND, INTERVAL_HOUR_SECOND, INTERVAL_HOUR_MINUTE,
     INTERVAL_DAY_MICROSECOND, INTERVAL_DAY_SECOND, INTERVAL_DAY_MINUTE, INTERVAL_DAY_HOUR}"

lemma date_add_interval_dispatch:
  "ty \<in> time_interval_types \<Longrightarrow> date_add_interval t ty i = add_time_units (t\<lparr>t_neg := False\<rparr>) i"
  "ty \<in> {INTERVAL_DAY, INTERVAL_WEEK} \<Longrightarrow> date_add_interval t ty i = add_days (t\<lparr>t_neg := False\<rparr>) i"
  "date_add_interval t INTERVAL_YEAR i = Some (add_years (t\<lparr>t_neg := False\<rparr>) i)"
  "ty \<in> {INTERVAL_YEAR_MONTH, INTERVAL_QUARTER, INTERVAL_MONTH} \<Longrightarrow>
     date_add_interval t ty i = Some (add_months (t\<lparr>t_neg := False\<rparr>) i)"
  by (auto simp: date_add_interval_def time_interval_types_def)

section \<open>Comparison\<close>

lemma lex_step:
  fixes a b u v k :: int
  assumes "0 \<le> u" "u < k" "0 \<le> v" "v < k"
  shows "a * k + u < b * k + v \<longleftrightarrow> a < b \<or> a = b \<and> u < v"
proof (cases a b rule: linorder_cases)
  case less
  then have "(a + 1) * k \<le> b * k" using assms by (intro mult_right_mono) auto
  with assms less show ?thesis by (simp add: algebra_simps)
next
  case greater
  then have "(b + 1) * k \<le> a * k" using assms by (intro mult_right_mono) auto
  with assms greater show ?thesis by (simp add: algebra_simps)
qed auto

lemma lex_eq:
  fixes a b u v k :: int
  assumes "0 \<le> u" "u < k" "0 \<le> v" "v < k"
  shows "a * k + u = b * k + v \<longleftrightarrow> a = b \<and> u = v"
  using lex_step [of u k v a b] lex_step [of v k u b a] assms by (auto simp: linorder_neq_iff)

lemma lex_digit:
  assumes "int u < k" "int v < k"
  shows "a * k + int u < b * k + int v \<longleftrightarrow> a < b \<or> a = b \<and> u < v"
    and "a * k + int u = b * k + int v \<longleftrightarrow> a = b \<and> u = v"
  using assms by (simp_all add: lex_step lex_eq)

text \<open>Both orders are the lexicographic order of the fields.\<close>

definition field_less :: "MYSQL_TIME \<Rightarrow> MYSQL_TIME \<Rightarrow> bool" where
  "field_less a b \<longleftrightarrow> date_less (t_year a, t_month a, t_day a) (t_year b, t_month b, t_day b) \<or>
     (t_year a, t_month a, t_day a) = (t_year b, t_month b, t_day b) \<and>
     (t_hour a < t_hour b \<or> t_hour a = t_hour b \<and> (t_minute a < t_minute b \<or>
      t_minute a = t_minute b \<and> t_second a < t_second b))"

definition field_eq :: "MYSQL_TIME \<Rightarrow> MYSQL_TIME \<Rightarrow> bool" where
  "field_eq a b \<longleftrightarrow> (t_year a, t_month a, t_day a) = (t_year b, t_month b, t_day b) \<and>
     t_hour a = t_hour b \<and> t_minute a = t_minute b \<and> t_second a = t_second b"

lemma daynr_eq_iff:
  assumes "datetime_ok a" and "datetime_ok b"
  shows "calc_daynr (t_year a) (t_month a) (t_day a) = calc_daynr (t_year b) (t_month b) (t_day b) \<longleftrightarrow>
    (t_year a, t_month a, t_day a) = (t_year b, t_month b, t_day b)"
  using cal.daynr_inj [of "(t_year a, t_month a, t_day a)" "(t_year b, t_month b, t_day b)"] assms
  by (auto simp: datetime_ok_def)

lemma instant_less_fields:
  assumes "datetime_ok a" and "datetime_ok b"
  shows "instant a < instant b \<longleftrightarrow> field_less a b \<or>
    field_eq a b \<and> t_second_part a < t_second_part b"
proof -
  have r: "int (t_hour a) < 24" "int (t_minute a) < 60" "int (t_second a) < 60" "int (t_second_part a) < 1000000"
    "int (t_hour b) < 24" "int (t_minute b) < 60" "int (t_second b) < 60" "int (t_second_part b) < 1000000"
    using assms by (auto simp: datetime_ok_def)
  have l: "instant a < instant b \<longleftrightarrow>
      calc_daynr (t_year a) (t_month a) (t_day a) < calc_daynr (t_year b) (t_month b) (t_day b) \<or>
      calc_daynr (t_year a) (t_month a) (t_day a) = calc_daynr (t_year b) (t_month b) (t_day b) \<and>
      (t_hour a < t_hour b \<or> t_hour a = t_hour b \<and> (t_minute a < t_minute b \<or> t_minute a = t_minute b \<and>
       (t_second a < t_second b \<or> t_second a = t_second b \<and> t_second_part a < t_second_part b)))"
    unfolding instant_def by (simp only: lex_digit r) blast
  moreover have "calc_daynr (t_year a) (t_month a) (t_day a) < calc_daynr (t_year b) (t_month b) (t_day b) \<longleftrightarrow>
      date_less (t_year a, t_month a, t_day a) (t_year b, t_month b, t_day b)"
    using assms by (intro calc_daynr_less_iff) (auto simp: datetime_ok_def)
  ultimately show ?thesis
    unfolding l daynr_eq_iff [OF assms] field_less_def field_eq_def by blast
qed

lemma number_less_fields:
  assumes "datetime_ok a" and "datetime_ok b"
  shows "TIME_to_ulonglong_datetime a < TIME_to_ulonglong_datetime b \<longleftrightarrow> field_less a b"
    and "TIME_to_ulonglong_datetime a = TIME_to_ulonglong_datetime b \<longleftrightarrow> field_eq a b"
proof -
  have r: "int (t_month a) < 100" "int (t_day a) < 100" "int (t_hour a) < 100" "int (t_minute a) < 100"
    "int (t_second a) < 100" "int (t_month b) < 100" "int (t_day b) < 100" "int (t_hour b) < 100"
    "int (t_minute b) < 100" "int (t_second b) < 100"
    and f: "fields_in_range a" "fields_in_range b"
    using assms valid_date_day_le by (fastforce simp: datetime_ok_def valid_date_def fields_in_range_def)+
  have n: "int (t_year t * 10000 + t_month t * 100 + t_day t) * 1000000 +
      int (t_hour t * 10000 + t_minute t * 100 + t_second t) =
      ((((int (t_year t) * 100 + int (t_month t)) * 100 + int (t_day t)) * 100 + int (t_hour t)) * 100 +
       int (t_minute t)) * 100 + int (t_second t)" for t by simp
  note eqs = TIME_to_ulonglong_datetime_eq [OF f(1)] TIME_to_ulonglong_datetime_eq [OF f(2)] n lex_digit r
  have "int (TIME_to_ulonglong_datetime a) < int (TIME_to_ulonglong_datetime b) \<longleftrightarrow> field_less a b"
    by (simp only: eqs of_nat_less_iff of_nat_eq_iff field_less_def date_less_def prod.case prod.inject) blast
  moreover have "int (TIME_to_ulonglong_datetime a) = int (TIME_to_ulonglong_datetime b) \<longleftrightarrow> field_eq a b"
    by (simp only: eqs of_nat_eq_iff field_eq_def prod.inject) blast
  ultimately show "TIME_to_ulonglong_datetime a < TIME_to_ulonglong_datetime b \<longleftrightarrow> field_less a b"
    and "TIME_to_ulonglong_datetime a = TIME_to_ulonglong_datetime b \<longleftrightarrow> field_eq a b" by simp_all
qed

lemma my_time_compare_instant:
  assumes "datetime_ok a" and "datetime_ok b"
  shows "my_time_compare a b = sgn (instant a - instant b)"
    using instant_less_fields [OF assms, folded number_less_fields [OF assms]]
      instant_less_fields [OF assms(2,1), folded number_less_fields [OF assms(2,1)]]
    by (auto simp: my_time_compare_def Let_def sgn_if)

lemma calc_time_diff_instant:
  assumes "datetime_ok a" "datetime_ok b" "t_type a = MYSQL_TIMESTAMP_DATETIME" "t_type b = MYSQL_TIMESTAMP_DATETIME"
  shows "calc_time_diff a b sg =
    (let d = instant a - sg * instant b in (d < 0, \<bar>d\<bar> div 1000000, \<bar>d\<bar> mod 1000000))"
proof -
  define d where "d = instant a - sg * instant b"
  have "(((calc_daynr (t_year a) (t_month a) (t_day a) - sg * calc_daynr (t_year b) (t_month b) (t_day b)) * 86400 +
     (int (t_hour a) * 3600 + int (t_minute a) * 60 + int (t_second a)) -
     sg * (int (t_hour b) * 3600 + int (t_minute b) * 60 + int (t_second b))) * 1000000 +
     int (t_second_part a) - sg * int (t_second_part b)) = d"
    unfolding d_def instant_def by (simp add: algebra_simps)
  moreover have "(if d < 0 then (- d, True) else (d, False)) = (\<bar>d\<bar>, d < 0)" by simp
  moreover have "\<bar>d\<bar> sdiv 1000000 = \<bar>d\<bar> div 1000000" "\<bar>d\<bar> smod 1000000 = \<bar>d\<bar> mod 1000000"
    by (simp_all only: sdiv_nonneg smod_nonneg abs_ge_zero zero_le_numeral)
  ultimately show ?thesis
    unfolding calc_time_diff_def Let_def d_def [symmetric]
    by (simp only: assms(3,4) timestamp_type.distinct if_False prod.case)
qed

section \<open>Weeks\<close>

text \<open>Specification: ISO 8601 numbers weeks from the Monday of the week that contains 4 January.\<close>

definition iso_week1 :: "nat \<Rightarrow> int" where
  "iso_week1 y = calc_daynr y 1 4 - calc_weekday (calc_daynr y 1 4) False"

definition jan1 :: "nat \<Rightarrow> int" where "jan1 y = calc_daynr y 1 1"

definition jan1_weekday :: "nat \<Rightarrow> int" where "jan1_weekday y = (jan1 y + 5) mod 7"

lemma jan1_Suc: "jan1 (Suc y) = jan1 y + int (calc_days_in_year y)"
proof (cases "y = 0")
  case True
  then show ?thesis by (simp add: jan1_def calc_daynr_def calc_days_in_year_def)
next
  case False
  then have "days_before_year (int (Suc y)) = days_before_year (int y) + int (calc_days_in_year y)"
    using days_before_year_Suc [of "int y"] by (simp add: add.commute)
  with False show ?thesis by (simp add: jan1_def calc_daynr_month_start)
qed

lemma jan1_pos: "0 < jan1 y"
  by (induction y) (simp add: jan1_def calc_daynr_def, simp add: jan1_Suc)

lemma calc_weekday_monday: "0 \<le> n \<Longrightarrow> calc_weekday n False = (n + 5) mod 7"
  by (simp add: calc_weekday_def)

text \<open>The weekday of 1 January with the week it falls in, and week 1 from it.\<close>

lemma jan1_week:
  obtains q where "jan1 y + 5 = 7 * q + jan1_weekday y" "0 \<le> jan1_weekday y" "jan1_weekday y < 7"
  by (rule that [of "(jan1 y + 5) div 7"]) (simp_all add: jan1_weekday_def)

lemma iso_week1_eq:
  "iso_week1 y = jan1 y + (if jan1_weekday y \<ge> 4 then 7 - jan1_weekday y else - jan1_weekday y)"
proof -
  obtain q where q: "jan1 y + 5 = 7 * q + jan1_weekday y" "0 \<le> jan1_weekday y" "jan1_weekday y < 7"
    by (rule jan1_week)
  have four: "calc_daynr y 1 4 = jan1 y + 3" by (simp add: jan1_def calc_daynr_def Let_def)
  have "iso_week1 y = jan1 y + 3 - (jan1 y + 3 + 5) mod 7"
    unfolding iso_week1_def four using jan1_pos [of y] by (simp add: calc_weekday_monday)
  also have "(jan1 y + 3 + 5) mod 7 = (jan1_weekday y + 3) mod 7"
    unfolding jan1_weekday_def by presburger
  also have "(jan1_weekday y + 3) mod 7 = (if jan1_weekday y \<ge> 4 then jan1_weekday y - 4 else jan1_weekday y + 3)"
    using q(2,3) by presburger
  finally show ?thesis by auto
qed

text \<open>The week of day \<open>n\<close> counted from the start of ISO year \<open>y\<close>, as the last part of
  \<open>calc_week\<close> computes it.\<close>

definition week_from :: "nat \<Rightarrow> int \<Rightarrow> nat \<times> nat" where
  "week_from y n =
     (if n - iso_week1 y \<ge> 364 \<and> jan1_weekday (Suc y) < 4 then (1, Suc y)
      else (nat ((n - iso_week1 y) div 7) + 1, y))"

lemma week_arith:
  fixes a a' w w' q q' L n b b' :: int
  assumes "a + 5 = 7 * q + w" "0 \<le> w" "w < 7" "a' + 5 = 7 * q' + w'" "0 \<le> w'" "w' < 7"
    and "a' = a + L" "365 \<le> L" "L \<le> 366"
    and b: "b = 7 * q - 5 + (if w \<ge> 4 then 7 else 0)" "b' = 7 * q' - 5 + (if w' \<ge> 4 then 7 else 0)"
    and n: "b \<le> n" "n < a' + 7 - w'"
  shows "n - b \<ge> 364 \<and> w' < 4 \<Longrightarrow> b' \<le> n \<and> n < b' + 7"
    and "\<not> (n - b \<ge> 364 \<and> w' < 4) \<Longrightarrow> n < b'"
proof -
  have "7 * (q' - q) = L + w - w'" and a': "a' = 7 * q' + w' - 5" using assms(1,4,7) by auto
  with assms(2,3,5,6,8,9) have "q' = q + (if 4 \<le> w \<and> w' < 4 then 53 else 52)" by auto
  then have "b' = b + (if w < 4 \<and> 4 \<le> w' then 371 else 364)" unfolding b by auto
  moreover have "a' - w' = b' - (if w' \<ge> 4 then 7 else 0)" unfolding b a' by simp
  ultimately show "n - b \<ge> 364 \<and> w' < 4 \<Longrightarrow> b' \<le> n \<and> n < b' + 7"
    and "\<not> (n - b \<ge> 364 \<and> w' < 4) \<Longrightarrow> n < b'"
    using n by (auto split: if_splits)
qed

lemma iso_week1_step: "iso_week1 y + 7 \<le> iso_week1 (Suc y)"
proof -
  obtain q where q: "jan1 y + 5 = 7 * q + jan1_weekday y" "0 \<le> jan1_weekday y" "jan1_weekday y < 7"
    by (rule jan1_week)
  moreover obtain q' where q': "jan1 (Suc y) + 5 = 7 * q' + jan1_weekday (Suc y)" "0 \<le> jan1_weekday (Suc y)"
    "jan1_weekday (Suc y) < 7" by (rule jan1_week)
  ultimately show ?thesis
    using calc_days_in_year_bounds [of y] by (auto simp: iso_week1_eq jan1_Suc)
qed

lemma week_from_iso:
  assumes "iso_week1 y \<le> n" and "n < jan1 (Suc y) + 7 - jan1_weekday (Suc y)"
    and "week_from y n = (week, year)"
  shows "iso_week1 year \<le> n" and "n < iso_week1 (Suc year)" and "int week = (n - iso_week1 year) div 7 + 1"
proof -
  obtain q where q: "jan1 y + 5 = 7 * q + jan1_weekday y" "0 \<le> jan1_weekday y" "jan1_weekday y < 7"
    by (rule jan1_week)
  obtain q' where q': "jan1 (Suc y) + 5 = 7 * q' + jan1_weekday (Suc y)" "0 \<le> jan1_weekday (Suc y)"
    "jan1_weekday (Suc y) < 7" by (rule jan1_week)
  have L: "jan1 (Suc y) = jan1 y + int (calc_days_in_year y)" "365 \<le> calc_days_in_year y" "calc_days_in_year y \<le> 366"
    using calc_days_in_year_bounds by (simp_all add: jan1_Suc)
  have base: "iso_week1 y = 7 * q - 5 + (if jan1_weekday y \<ge> 4 then 7 else 0)"
    "iso_week1 (Suc y) = 7 * q' - 5 + (if jan1_weekday (Suc y) \<ge> 4 then 7 else 0)"
    using q q' by (auto simp: iso_week1_eq)
  have L': "365 \<le> int (calc_days_in_year y)" "int (calc_days_in_year y) \<le> 366" using L by simp_all
  note cases = week_arith(1,2) [OF q q' L(1) L' base assms(1,2)]
  have far: "iso_week1 (Suc y) + 7 \<le> iso_week1 (Suc (Suc y))" by (rule iso_week1_step)
  show "iso_week1 year \<le> n" "n < iso_week1 (Suc year)" "int week = (n - iso_week1 year) div 7 + 1"
    using assms(1,3) cases far by (auto simp: week_from_def pos_imp_zdiv_nonneg_iff split: if_splits)
qed

lemma jan1_weekday_step:
  "nat (jan1_weekday (Suc y)) = (nat (jan1_weekday y) + calc_days_in_year y) mod 7"
  "nat (jan1_weekday y) = (nat (jan1_weekday (Suc y)) + 53 * 7 - calc_days_in_year y) mod 7"
proof -
  define L where "L = int (calc_days_in_year y)"
  have L: "L \<le> 366" unfolding L_def using calc_days_in_year_bounds(2) [of y] by linarith
  have step: "jan1_weekday (Suc y) = (jan1_weekday y + L) mod 7"
    unfolding jan1_weekday_def jan1_Suc L_def [symmetric] mod_add_left_eq by (simp add: algebra_simps)
  have "(jan1_weekday (Suc y) + (371 - L)) mod 7 = (jan1 y + 5 + 371) mod 7"
    unfolding jan1_weekday_def jan1_Suc L_def [symmetric] mod_add_left_eq by (simp add: algebra_simps)
  also have "\<dots> = jan1_weekday y"
    unfolding jan1_weekday_def using mod_mult_self2 [of "jan1 y + 5" 7 53] by simp
  finally have prev: "jan1_weekday y = (jan1_weekday (Suc y) + 371 - L) mod 7" by (simp add: algebra_simps)
  have w: "0 \<le> jan1_weekday z" for z by (simp add: jan1_weekday_def)
  have "int (nat (jan1_weekday (Suc y))) = int ((nat (jan1_weekday y) + calc_days_in_year y) mod 7)"
    unfolding zmod_int of_nat_add L_def [symmetric] using w step by simp
  then show "nat (jan1_weekday (Suc y)) = (nat (jan1_weekday y) + calc_days_in_year y) mod 7" by linarith
  have "int (nat (jan1_weekday y)) = int ((nat (jan1_weekday (Suc y)) + 53 * 7 - calc_days_in_year y) mod 7)"
    unfolding zmod_int using w [of y] w [of "Suc y"] prev L by (simp add: L_def of_nat_diff)
  then show "nat (jan1_weekday y) = (nat (jan1_weekday (Suc y)) + 53 * 7 - calc_days_in_year y) mod 7" by linarith
qed

text \<open>The last part of \<open>calc_week\<close>, in modes that number weeks as ISO does, is \<open>week_from\<close>.\<close>

lemma week_tail:
  assumes n: "iso_week1 y \<le> n" "n < iso_week1 y + 2 ^ 31" and y: "y \<le> 9999"
    and W: "W = nat (jan1_weekday y)" and f: "int f = jan1 y" and N: "int N = n"
    and days: "days = (if W \<ge> 4 then u32 (int N - (int f + (7 - int W))) else u32 (int N - (int f - int W)))"
  shows "(if days \<ge> 52 * 7 \<and> \<not> (W + calc_days_in_year y) mod 7 \<ge> 4 then (1, u32 (int y + 1))
     else (days div 7 + 1, y)) = week_from y n"
proof -
  have w: "0 \<le> jan1_weekday y" "0 \<le> jan1_weekday (Suc y)" by (simp_all add: jan1_weekday_def)
  have "days = u32 (n - iso_week1 y)"
    unfolding days N f iso_week1_eq W using w(1) by (simp add: algebra_simps le_nat_iff)
  then have d: "days = nat (n - iso_week1 y)" using n by (simp add: u32_id)
  have "(W + calc_days_in_year y) mod 7 \<ge> 4 \<longleftrightarrow> \<not> jan1_weekday (Suc y) < 4"
    unfolding W jan1_weekday_step(1) [symmetric] using w(2) by (simp add: le_nat_iff not_less)
  moreover have "u32 (int y + 1) = Suc y" using y u32_of_nat [of "Suc y"] by (simp add: add.commute)
  ultimately show ?thesis
    using n by (simp add: week_from_def d le_nat_iff nat_div_distrib)
qed

lemma calc_week_3:
  fixes t
  defines "n \<equiv> calc_daynr (t_year t) (t_month t) (t_day t)" and "Y \<equiv> t_year t"
  defines "W \<equiv> nat (jan1_weekday Y)"
  assumes u: "int (u64 n) = n" "int (u64 (jan1 Y)) = jan1 Y"
  shows "calc_week t 3 =
    (let in_first = (t_month t = 1 \<and> t_day t \<le> 7 - W);
         (year, f, w) = (if in_first then let L = calc_days_in_year (u32 (int Y - 1))
                           in (u32 (int Y - 1), u64 (jan1 Y - int L), (W + 53 * 7 - L) mod 7)
                         else (Y, u64 (jan1 Y), W));
         days = (if w \<ge> 4 then u32 (int (u64 n) - (int f + (7 - int w))) else u32 (int (u64 n) - (int f - int w)))
     in if days \<ge> 52 * 7 \<and> \<not> (w + calc_days_in_year year) mod 7 \<ge> 4 then (1, u32 (int year + 1))
        else (days div 7 + 1, year))"
proof -
  have flags: "has_flag 3 WEEK_MONDAY_FIRST" "has_flag 3 WEEK_YEAR" "\<not> has_flag 3 WEEK_FIRST_WEEKDAY"
    by (simp_all add: WEEK_MONDAY_FIRST_def WEEK_YEAR_def WEEK_FIRST_WEEKDAY_def)
  have "u32 (calc_weekday (jan1 Y) False) = W"
    using jan1_pos [of Y] by (simp add: calc_weekday_monday W_def jan1_weekday_def u32_id)
  then show ?thesis
    unfolding calc_week_def n_def [symmetric] unfolding Y_def [symmetric] jan1_def [symmetric]
    by (cases "t_month t = 1 \<and> t_day t \<le> 7 - W")
      (simp_all only: flags u(2) Let_def simp_thms if_True if_False prod.case)
qed

lemma after_first_week:
  assumes v: "valid_date y m d" and later: "\<not> (m = 1 \<and> d \<le> 7 - nat (jan1_weekday y))"
  shows "jan1 y + 7 - jan1_weekday y \<le> calc_daynr y m d"
proof (cases "m = 1")
  case True
  with v later show ?thesis
    by (auto simp: jan1_def jan1_weekday_def calc_daynr_month_start valid_date_def)
next
  case False
  then have "month_start y 2 \<le> month_start y m"
    using v by (intro month_start_mono) (auto simp: valid_date_def)
  moreover have "month_start y 2 = 31"
    by (simp add: month_start_def days_before_month_def days_in_month_def numeral_2_eq_2)
  moreover have "0 \<le> jan1_weekday y" by (simp add: jan1_weekday_def)
  ultimately show ?thesis
    using v by (auto simp: jan1_def calc_daynr_month_start valid_date_def)
qed

lemma calc_week_from:
  fixes t
  defines "n \<equiv> calc_daynr (t_year t) (t_month t) (t_day t)"
  assumes t: "valid_date (t_year t) (t_month t) (t_day t)" "t_year t \<le> 9999"
  obtains y where "calc_week t 3 = week_from y n" and "iso_week1 y \<le> n"
    and "n < jan1 (Suc y) + 7 - jan1_weekday (Suc y)"
proof -
  define Y where "Y = t_year t"
  obtain y0 where y0: "Y = Suc y0" using t(1) by (cases "t_year t") (auto simp: Y_def valid_date_def)
  have pos: "0 < jan1 Y" "0 < jan1 y0" by (rule jan1_pos)+
  have w: "0 \<le> jan1_weekday z" "jan1_weekday z < 7" for z by (simp_all add: jan1_weekday_def)
  have L: "365 \<le> calc_days_in_year z" "calc_days_in_year z \<le> 366" for z by (rule calc_days_in_year_bounds)+
  have doy: "jan1 Y \<le> n" "n < jan1 Y + int (calc_days_in_year Y)"
    using t(1) valid_date_day_of_year [OF t(1)]
    by (auto simp: n_def jan1_def Y_def calc_daynr_month_start valid_date_def)
  have "jan1 Y \<le> 3652424"
    using valid_date_daynr_range(2) [OF t(1)] doy(1) t(2) by (simp add: n_def Y_def)
  then have u: "int (u64 n) = n" "int (u64 (jan1 Y)) = jan1 Y"
    using doy pos L(2) [of Y] by (simp_all add: u64_id)
  note cw = calc_week_3 [of t, folded n_def, folded Y_def, OF u]
  show ?thesis
  proof (cases "t_month t = 1 \<and> t_day t \<le> 7 - nat (jan1_weekday Y)")
    case True
    then have n1: "n < jan1 Y + 7 - jan1_weekday Y"
      using t w [of Y] by (auto simp: n_def jan1_def Y_def calc_daynr_month_start valid_date_def)
    have p: "u32 (int Y - 1) = y0" "jan1 Y - int (calc_days_in_year y0) = jan1 y0"
      using t(2) by (simp_all add: y0 Y_def [symmetric] u32_of_nat jan1_Suc)
    have b: "iso_week1 y0 \<le> n" "n < iso_week1 y0 + 2 ^ 31"
      using doy n1 w [of y0] w [of Y] L [of y0] p(2) by (auto simp: iso_week1_eq)
    have f0: "int (u64 (jan1 y0)) = jan1 y0"
      using pos(2) p(2) \<open>jan1 Y \<le> 3652424\<close> L [of y0] by (simp add: u64_id)
    have "calc_week t 3 = week_from y0 n"
      unfolding cw Let_def using True
      by (simp only: if_True simp_thms p prod.case jan1_weekday_step(2) [of y0, folded y0, symmetric])
        (rule week_tail [OF b _ refl f0 u(1) refl], use t(2) y0 Y_def in simp)
    with b(1) n1 show ?thesis by (intro that [of y0]) (simp_all add: y0)
  next
    case False
    then have far: "jan1 Y + 7 - jan1_weekday Y \<le> n"
      unfolding n_def Y_def by (intro after_first_week [OF t(1)])
    have b: "iso_week1 Y \<le> n" "n < iso_week1 Y + 2 ^ 31"
      using doy far w [of Y] L [of Y] by (auto simp: iso_week1_eq)
    have "calc_week t 3 = week_from Y n"
      unfolding cw Let_def using False
      by (simp only: if_False simp_thms prod.case)
        (rule week_tail [OF b _ refl u(2) u(1) refl], use t(2) Y_def in simp)
    moreover have "n < jan1 (Suc Y) + 7 - jan1_weekday (Suc Y)" using doy w [of "Suc Y"] by (simp add: jan1_Suc)
    ultimately show ?thesis using b(1) by (intro that [of Y])
  qed
qed

section \<open>Properties\<close>


definition sample_time :: MYSQL_TIME where
  "sample_time = \<lparr>t_year = 2012, t_month = 2, t_day = 29, t_hour = 23, t_minute = 59, t_second = 59,
     t_second_part = 999999, t_neg = False, t_type = MYSQL_TIMESTAMP_DATETIME\<rparr>"

definition sample_interval :: INTERVAL where
  "sample_interval = \<lparr>i_year = 1, i_month = 1, i_day = 1, i_hour = 0, i_minute = 0, i_second = 0,
     i_second_part = 1, i_neg = False\<rparr>"

lemma sample_time_ok: "datetime_ok sample_time"
  by (simp add: sample_time_def datetime_ok_def valid_date_def month_days_def days_in_month_def
      calc_days_in_year_def)





text \<open>C27: adding months, quarters or years and months moves the month count by exactly the
  interval, shortens the day to the length of the target month, and reports an error when the
  month count leaves the years 0 to 9999.\<close>

theorem date_add_interval_months:
  assumes "datetime_ok t" and "i_year i < 2 ^ 58" and "i_month i < 2 ^ 58"
    and "ty \<in> {INTERVAL_YEAR_MONTH, INTERVAL_QUARTER, INTERVAL_MONTH}"
    and "k = month_index t + interval_months i"
  shows "(k < 0 \<or> 120000 \<le> k \<longrightarrow> date_add_interval t ty i = Some (True, t\<lparr>t_neg := False\<rparr>)) \<and>
         (0 \<le> k \<and> k < 120000 \<longrightarrow>
            (\<exists>y m. int y * 12 + int m - 1 = k \<and> 1 \<le> m \<and> m \<le> 12 \<and> y \<le> 9999 \<and>
               date_add_interval t ty i =
                 Some (False, t\<lparr>t_neg := False, t_year := y, t_month := m,
                                t_day := min (t_day t) (month_days y m)\<rparr>)))"
proof -
  have "datetime_ok (t\<lparr>t_neg := False\<rparr>)" "k = month_index (t\<lparr>t_neg := False\<rparr>) + interval_months i"
    using assms(1,5) by (simp_all add: date_update_sel month_index_def)
  from add_months_spec [OF this(1) assms(2,3) this(2)] show ?thesis
    unfolding date_add_interval_dispatch(4) [OF assms(4)] by auto
qed

theorem date_add_interval_months_witness:
  "\<exists>y m. int y * 12 + int m - 1 = 24158 \<and> 1 \<le> m \<and> m \<le> 12 \<and> y \<le> 9999 \<and>
     date_add_interval sample_time INTERVAL_YEAR_MONTH sample_interval =
       Some (False, sample_time\<lparr>t_neg := False, t_year := y, t_month := m, t_day := min 29 (month_days y m)\<rparr>)"
  using date_add_interval_months [OF sample_time_ok, of sample_interval INTERVAL_YEAR_MONTH 24158]
  by (simp add: sample_interval_def month_index_def interval_months_def interval_sign_def)
    (simp add: sample_time_def)


text \<open>C30: \<open>my_time_compare\<close> orders valid dates and times as their instants, so it is the sign of
  the difference that \<open>calc_time_diff\<close> computes.\<close>

theorem my_time_compare_order:
  assumes "datetime_ok a" and "datetime_ok b"
  shows "my_time_compare a b = sgn (instant a - instant b)"
  by (rule my_time_compare_instant [OF assms])

theorem my_time_compare_order_witness:
  "my_time_compare sample_time (sample_time\<lparr>t_day := 28\<rparr>) =
     sgn (instant sample_time - instant (sample_time\<lparr>t_day := 28\<rparr>))"
  by (rule my_time_compare_order [OF sample_time_ok])
    (simp add: sample_time_def datetime_ok_def valid_date_def month_days_def days_in_month_def)

text \<open>C29: \<open>calc_week\<close> in mode 3 numbers weeks as ISO 8601 does: the year it returns is the one
  whose weeks contain the date, and the week counts from the Monday of the week of 4 January.\<close>

theorem calc_week_iso:
  assumes "valid_date (t_year t) (t_month t) (t_day t)" and "t_year t \<le> 9999"
    and "n = calc_daynr (t_year t) (t_month t) (t_day t)" and "calc_week t 3 = (week, year)"
  shows "iso_week1 year \<le> n \<and> n < iso_week1 (Suc year) \<and> int week = (n - iso_week1 year) div 7 + 1"
proof -
  obtain y where "calc_week t 3 = week_from y n" "iso_week1 y \<le> n"
    "n < jan1 (Suc y) + 7 - jan1_weekday (Suc y)"
    by (rule calc_week_from [OF assms(1,2), folded assms(3)])
  with week_from_iso [of y n week year] assms(4) show ?thesis by simp
qed

theorem calc_week_iso_witness:
  "calc_week (sample_time\<lparr>t_year := 2010, t_month := 1, t_day := 3\<rparr>) 3 = (53, 2009) \<and>
   iso_week1 2009 \<le> calc_daynr 2010 1 3 \<and> calc_daynr 2010 1 3 < iso_week1 (Suc 2009) \<and>
   int 53 = (calc_daynr 2010 1 3 - iso_week1 2009) div 7 + 1"
proof -
  have c: "calc_week (sample_time\<lparr>t_year := 2010, t_month := 1, t_day := 3\<rparr>) 3 = (53, 2009)"
    by (simp add: calc_week_def sample_time_def calc_daynr_def calc_weekday_def calc_days_in_year_def
        WEEK_MONDAY_FIRST_def WEEK_YEAR_def WEEK_FIRST_WEEKDAY_def u32_def u64_def)
  show ?thesis
    using calc_week_iso [OF _ _ refl c] c by (simp add: valid_date_def month_days_def days_in_month_def)
qed

end
