(* ===== verification/TableLock.thy ===== *)
theory TableLock
  imports Prelude "HOL-Library.Multiset"
begin

text \<open>
  Table-level locks, \<open>src/mysys/thr_lock.c\<close>.  A \<open>THR_LOCK\<close> has four queues of lock instances
  (\<open>THR_LOCK_DATA\<close>); here a queue is the list of the instances' identifiers in queue order and the
  instances are a store.  The pointer representation of the queues is in \<open>LockQueue\<close>.  Every
  operation runs under the lock's mutex; a thread that has to wait leaves the mutex inside
  \<open>wait_for_lock\<close>, which is therefore two operations: entering the wait and leaving it.  The
  callbacks of the storage engine and the signals are events of a log.
\<close>

section \<open>Lock types\<close>

datatype thr_lock_type =
    TL_IGNORE | TL_UNLOCK | TL_READ_DEFAULT | TL_READ | TL_READ_WITH_SHARED_LOCKS
  | TL_READ_HIGH_PRIORITY | TL_READ_NO_INSERT | TL_WRITE_ALLOW_WRITE
  | TL_WRITE_CONCURRENT_INSERT | TL_WRITE_DELAYED | TL_WRITE_DEFAULT | TL_WRITE_LOW_PRIORITY
  | TL_WRITE | TL_WRITE_ONLY

text \<open>The value of the enumerator; the C code compares lock types by it.\<close>

fun type_value :: "thr_lock_type \<Rightarrow> int" where
  "type_value TL_IGNORE = -1"
| "type_value TL_UNLOCK = 0"
| "type_value TL_READ_DEFAULT = 1"
| "type_value TL_READ = 2"
| "type_value TL_READ_WITH_SHARED_LOCKS = 3"
| "type_value TL_READ_HIGH_PRIORITY = 4"
| "type_value TL_READ_NO_INSERT = 5"
| "type_value TL_WRITE_ALLOW_WRITE = 6"
| "type_value TL_WRITE_CONCURRENT_INSERT = 7"
| "type_value TL_WRITE_DELAYED = 8"
| "type_value TL_WRITE_DEFAULT = 9"
| "type_value TL_WRITE_LOW_PRIORITY = 10"
| "type_value TL_WRITE = 11"
| "type_value TL_WRITE_ONLY = 12"

lemma type_value_inj: "type_value a = type_value b \<longleftrightarrow> a = b"
  by (cases a; cases b) simp_all

instantiation thr_lock_type :: linorder
begin

definition less_eq_thr_lock_type :: "thr_lock_type \<Rightarrow> thr_lock_type \<Rightarrow> bool" where
  "a \<le> b \<longleftrightarrow> type_value a \<le> type_value b"

definition less_thr_lock_type :: "thr_lock_type \<Rightarrow> thr_lock_type \<Rightarrow> bool" where
  "a < b \<longleftrightarrow> type_value a < type_value b"

instance
  by standard (auto simp: less_eq_thr_lock_type_def less_thr_lock_type_def type_value_inj)

end

lemmas type_order = less_eq_thr_lock_type_def less_thr_lock_type_def

datatype enum_thr_lock_result =
  THR_LOCK_SUCCESS | THR_LOCK_ABORTED | THR_LOCK_WAIT_TIMEOUT | THR_LOCK_DEADLOCK

section \<open>State\<close>

record THR_LOCK_DATA =
  d_owner :: "nat option"
  d_lock :: int
  d_cond :: bool
  d_type :: thr_lock_type
  d_status_param :: nat

text \<open>The function pointers of a \<open>THR_LOCK\<close> are \<open>True\<close> when set; \<open>check_status\<close> is the function,
  or \<open>None\<close> when the pointer is null.\<close>

record THR_LOCK =
  l_read_wait :: "nat list"
  l_read :: "nat list"
  l_write_wait :: "nat list"
  l_write :: "nat list"
  l_write_lock_count :: nat
  l_read_no_write_count :: nat
  l_get_status :: bool
  l_copy_status :: bool
  l_update_status :: bool
  l_restore_status :: bool
  l_check_status :: "(nat \<Rightarrow> bool) option"

datatype lock_event =
    Get_status nat bool | Update_status nat | Restore_status nat | Copy_status nat nat
  | Signal nat | Lock_immediate | Lock_waited

record lock_state = THR_LOCK +
  l_data :: "nat \<Rightarrow> THR_LOCK_DATA"
  l_events :: "lock_event list"

record lock_globals =
  max_write_lock_count :: nat
  thr_upgraded_concurrent_insert_lock :: thr_lock_type

text \<open>A request either finishes with a result or blocks in one of the two wait queues.\<close>

datatype outcome = Done enum_thr_lock_result | Wait_read | Wait_write

abbreviation type_of :: "lock_state \<Rightarrow> nat \<Rightarrow> thr_lock_type" where
  "type_of s d \<equiv> d_type (l_data s d)"

abbreviation owner_of :: "lock_state \<Rightarrow> nat \<Rightarrow> nat option" where
  "owner_of s d \<equiv> d_owner (l_data s d)"

abbreviation cond_of :: "lock_state \<Rightarrow> nat \<Rightarrow> bool" where
  "cond_of s d \<equiv> d_cond (l_data s d)"

definition set_type :: "nat \<Rightarrow> thr_lock_type \<Rightarrow> lock_state \<Rightarrow> lock_state" where
  "set_type d t s = s\<lparr>l_data := (l_data s)(d := (l_data s d)\<lparr>d_type := t\<rparr>)\<rparr>"

definition set_cond :: "nat \<Rightarrow> bool \<Rightarrow> lock_state \<Rightarrow> lock_state" where
  "set_cond d c s = s\<lparr>l_data := (l_data s)(d := (l_data s d)\<lparr>d_cond := c\<rparr>)\<rparr>"

definition emit :: "lock_event \<Rightarrow> lock_state \<Rightarrow> lock_state" where
  "emit e s = s\<lparr>l_events := l_events s @ [e]\<rparr>"

text \<open>Callbacks, called only when the pointer is set.\<close>

definition call_get_status :: "nat \<Rightarrow> bool \<Rightarrow> lock_state \<Rightarrow> lock_state" where
  "call_get_status d concurrent_insert s =
     (if l_get_status s then emit (Get_status (d_status_param (l_data s d)) concurrent_insert) s else s)"

definition call_check_status :: "nat \<Rightarrow> lock_state \<Rightarrow> bool" where
  "call_check_status d s =
     (case l_check_status s of None \<Rightarrow> False | Some f \<Rightarrow> f (d_status_param (l_data s d)))"

section \<open>Operations\<close>

definition thr_lock_init :: THR_LOCK where
  "thr_lock_init = \<lparr>l_read_wait = [], l_read = [], l_write_wait = [], l_write = [],
     l_write_lock_count = 0, l_read_no_write_count = 0, l_get_status = False, l_copy_status = False,
     l_update_status = False, l_restore_status = False, l_check_status = None\<rparr>"

definition thr_lock_data_init :: "int \<Rightarrow> nat \<Rightarrow> nat \<Rightarrow> lock_state \<Rightarrow> lock_state" where
  "thr_lock_data_init lock d param s =
     s\<lparr>l_data := (l_data s)(d := \<lparr>d_owner = None, d_lock = lock, d_cond = False, d_type = TL_UNLOCK,
                                  d_status_param = param\<rparr>)\<rparr>"

definition thr_lock_owner_equal :: "nat option \<Rightarrow> nat option \<Rightarrow> bool" where
  "thr_lock_owner_equal rhs lhs \<longleftrightarrow> rhs = lhs"

fun has_old_lock :: "lock_state \<Rightarrow> nat list \<Rightarrow> nat option \<Rightarrow> bool" where
  "has_old_lock s [] owner = False"
| "has_old_lock s (d # data) owner =
     (if thr_lock_owner_equal (owner_of s d) owner then True else has_old_lock s data owner)"

fun have_specific_lock :: "lock_state \<Rightarrow> nat list \<Rightarrow> thr_lock_type \<Rightarrow> bool" where
  "have_specific_lock s [] type = False"
| "have_specific_lock s (d # data) type =
     (if type_of s d = type then True else have_specific_lock s data type)"

text \<open>The loop of \<open>free_all_read_locks\<close> over the instances moved to the read queue.\<close>

fun free_read_loop :: "nat list \<Rightarrow> bool \<Rightarrow> lock_state \<Rightarrow> lock_state" where
  "free_read_loop [] using_concurrent_insert s = s"
| "free_read_loop (d # data) using_concurrent_insert s =
     (if type_of s d = TL_READ_NO_INSERT then
        if using_concurrent_insert then
          free_read_loop data using_concurrent_insert
            (s\<lparr>l_read := remove1 d (l_read s), l_read_wait := l_read_wait s @ [d]\<rparr>)
        else
          free_read_loop data using_concurrent_insert
            (emit (Signal d) (set_cond d False
               (s\<lparr>l_read_no_write_count := l_read_no_write_count s + 1\<rparr>)))
      else
        free_read_loop data using_concurrent_insert (emit (Signal d) (set_cond d False s)))"

definition free_all_read_locks :: "bool \<Rightarrow> lock_state \<Rightarrow> lock_state" where
  "free_all_read_locks using_concurrent_insert s =
     (let data = l_read_wait s;
          s = s\<lparr>l_read := l_read s @ data, l_read_wait := []\<rparr>;
          s = free_read_loop data using_concurrent_insert s
      in if l_read_wait s = [] then s\<lparr>l_write_lock_count := 0\<rparr> else s)"

text \<open>Moving the first waiting writer to the active queue and waking its thread.\<close>

definition start_write :: "nat \<Rightarrow> lock_state \<Rightarrow> lock_state" where
  "start_write d s = s\<lparr>l_write_wait := remove1 d (l_write_wait s), l_write := l_write s @ [d]\<rparr>"

definition wake :: "nat \<Rightarrow> lock_state \<Rightarrow> lock_state" where
  "wake d s = emit (Signal d) (set_cond d False s)"

definition upgrade_checked :: "nat \<Rightarrow> lock_state \<Rightarrow> lock_state" where
  "upgrade_checked d s =
     (if type_of s d = TL_WRITE_CONCURRENT_INSERT \<and> call_check_status d s
      then set_type d TL_WRITE s else s)"

text \<open>The two granting loops of \<open>wake_up_waiters\<close>, over the write wait queue: with no reader
  active, and together with active readers.  The first also returns the last instance it
  granted.\<close>

fun grant_loop :: "nat list \<Rightarrow> lock_state \<Rightarrow> nat option \<times> lock_state" where
  "grant_loop [] s = (None, s)"
| "grant_loop (d # wait) s =
     (let s = wake d (upgrade_checked d (start_write d s))
      in if type_of s d \<noteq> TL_WRITE_ALLOW_WRITE \<or> wait = [] \<or> type_of s (hd wait) \<noteq> TL_WRITE_ALLOW_WRITE
         then (Some d, s) else grant_loop wait s)"

fun grant_with_readers :: "thr_lock_type \<Rightarrow> nat list \<Rightarrow> lock_state \<Rightarrow> lock_state" where
  "grant_with_readers lock_type [] s = s"
| "grant_with_readers lock_type (d # wait) s =
     (let s = wake d (start_write d s)
      in if lock_type = TL_WRITE_ALLOW_WRITE \<and> wait \<noteq> [] \<and> type_of s (hd wait) = TL_WRITE_ALLOW_WRITE
         then grant_with_readers lock_type wait s else s)"

definition wake_up_waiters :: "lock_globals \<Rightarrow> lock_state \<Rightarrow> lock_state" where
  "wake_up_waiters g s =
     (if l_write s \<noteq> [] then s
      else
        let free_reads = (\<lambda>d s.
              if l_read_wait s \<noteq> [] then
                free_all_read_locks
                  (case d of None \<Rightarrow> False
                   | Some d \<Rightarrow> type_of s d = TL_WRITE_CONCURRENT_INSERT \<or> type_of s d = TL_WRITE_ALLOW_WRITE) s
              else s)
        in if l_read s = [] then
             case l_write_wait s of
               [] \<Rightarrow> free_reads None s
             | d # _ \<Rightarrow>
                 if type_of s d \<noteq> TL_WRITE_LOW_PRIORITY \<or> l_read_wait s = [] \<or>
                    type_of s (hd (l_read_wait s)) < TL_READ_HIGH_PRIORITY
                 then
                   let full = (l_write_lock_count s > max_write_lock_count g);
                       s = s\<lparr>l_write_lock_count := (if full then 0 else l_write_lock_count s + 1)\<rparr>
                   in if full \<and> l_read_wait s \<noteq> [] then free_all_read_locks False s
                      else
                        let (d, s) = grant_loop (l_write_wait s) s
                        in case d of
                             None \<Rightarrow> s
                           | Some d \<Rightarrow>
                               if type_of s d \<ge> TL_WRITE_LOW_PRIORITY then s else free_reads (Some d) s
                 else free_reads (Some d) s
           else
             case l_write_wait s of
               [] \<Rightarrow> if l_read_wait s \<noteq> [] then free_all_read_locks False s else s
             | d # _ \<Rightarrow>
                 let lock_type = type_of s d
                 in if lock_type \<le> TL_WRITE_DELAYED \<and>
                       (lock_type \<noteq> TL_WRITE_CONCURRENT_INSERT \<and> lock_type \<noteq> TL_WRITE_ALLOW_WRITE \<or>
                        l_read_no_write_count s = 0)
                    then
                      if lock_type = TL_WRITE_CONCURRENT_INSERT \<and> call_check_status d s
                      then
                        let s = set_type d TL_WRITE s
                        in if l_read_wait s \<noteq> [] then free_all_read_locks False s else s
                      else
                        let s = grant_with_readers lock_type (l_write_wait s) s
                        in if l_read_wait s \<noteq> []
                           then free_all_read_locks (lock_type = TL_WRITE_CONCURRENT_INSERT \<or>
                                                     lock_type = TL_WRITE_ALLOW_WRITE) s
                           else s
                    else s)"

text \<open>\<open>wait_for_lock\<close> up to the wait, and from the end of the wait.  The wait ends when the instance
  has been granted or aborted (its \<open>cond\<close> is reset), or by a timeout or the death of the
  waiting thread.\<close>

definition wait_for_lock_begin :: "outcome \<Rightarrow> bool \<Rightarrow> nat \<Rightarrow> lock_state \<Rightarrow> lock_state" where
  "wait_for_lock_begin wait in_wait_list d s =
     (let s = (if in_wait_list then s
               else if wait = Wait_read then s\<lparr>l_read_wait := l_read_wait s @ [d]\<rparr>
               else s\<lparr>l_write_wait := l_write_wait s @ [d]\<rparr>)
      in set_cond d True (emit Lock_waited s))"

definition wait_for_lock_end ::
    "lock_globals \<Rightarrow> outcome \<Rightarrow> bool \<Rightarrow> nat \<Rightarrow> lock_state \<Rightarrow> enum_thr_lock_result \<times> lock_state" where
  "wait_for_lock_end g wait timed_out d s =
     (if cond_of s d \<or> type_of s d = TL_UNLOCK then
        if cond_of s d then
          let s = (if wait = Wait_read then s\<lparr>l_read_wait := remove1 d (l_read_wait s)\<rparr>
                   else s\<lparr>l_write_wait := remove1 d (l_write_wait s)\<rparr>);
              s = set_type d TL_UNLOCK s
          in (if timed_out then THR_LOCK_WAIT_TIMEOUT else THR_LOCK_ABORTED, wake_up_waiters g s)
        else (THR_LOCK_ABORTED, s)
      else (THR_LOCK_SUCCESS, call_get_status d False s))"

definition grant_read :: "nat \<Rightarrow> lock_state \<Rightarrow> lock_state" where
  "grant_read d s =
     (let s = s\<lparr>l_read := l_read s @ [d]\<rparr>;
          s = (if type_of s d = TL_READ_NO_INSERT
               then s\<lparr>l_read_no_write_count := l_read_no_write_count s + 1\<rparr> else s)
      in emit Lock_immediate (call_get_status d False s))"

definition thr_lock_read :: "nat \<Rightarrow> lock_state \<Rightarrow> outcome \<times> lock_state" where
  "thr_lock_read d s =
     (let lock_type = type_of s d
      in case l_write s of
           w # _ \<Rightarrow>
             if thr_lock_owner_equal (owner_of s d) (owner_of s w) \<or>
                type_of s w \<le> TL_WRITE_DELAYED \<and>
                (lock_type \<le> TL_READ_HIGH_PRIORITY \<or> type_of s w \<noteq> TL_WRITE_CONCURRENT_INSERT)
             then (Done THR_LOCK_SUCCESS, grant_read d s)
             else if type_of s w = TL_WRITE_ONLY
             then (Done THR_LOCK_ABORTED, set_type d TL_UNLOCK s)
             else (Wait_read, wait_for_lock_begin Wait_read False d s)
         | [] \<Rightarrow>
             if l_write_wait s = [] \<or> type_of s (hd (l_write_wait s)) \<le> TL_WRITE_LOW_PRIORITY \<or>
                lock_type = TL_READ_HIGH_PRIORITY \<or> has_old_lock s (l_read s) (owner_of s d)
             then (Done THR_LOCK_SUCCESS, grant_read d s)
             else (Wait_read, wait_for_lock_begin Wait_read False d s))"

definition grant_write :: "nat \<Rightarrow> bool \<Rightarrow> lock_state \<Rightarrow> lock_state" where
  "grant_write d concurrent_insert s =
     emit Lock_immediate (call_get_status d concurrent_insert (s\<lparr>l_write := l_write s @ [d]\<rparr>))"

definition thr_lock_write :: "lock_globals \<Rightarrow> nat \<Rightarrow> lock_state \<Rightarrow> outcome \<times> lock_state" where
  "thr_lock_write g d s =
     (let lock_type = type_of s d
      in if lock_type = TL_WRITE_DELAYED \<and> l_write s \<noteq> [] \<and> type_of s (hd (l_write s)) = TL_WRITE_ONLY
         then (Done THR_LOCK_ABORTED, set_type d TL_UNLOCK s)
         else if lock_type = TL_WRITE_DELAYED \<and> (l_write s \<noteq> [] \<or> l_read s \<noteq> [])
         then (Done THR_LOCK_SUCCESS,
               emit Lock_immediate (set_cond d True (s\<lparr>l_write_wait := l_write_wait s @ [d]\<rparr>)))
         else
           let s = (if lock_type = TL_WRITE_CONCURRENT_INSERT \<and> l_check_status s = None
                    then set_type d (thr_upgraded_concurrent_insert_lock g) s else s)
           in case l_write s of
                w # _ \<Rightarrow>
                  if type_of s w = TL_WRITE_ONLY \<and> \<not> thr_lock_owner_equal (owner_of s d) (owner_of s w)
                  then (Done THR_LOCK_ABORTED, set_type d TL_UNLOCK s)
                  else if type_of s d = TL_WRITE_ALLOW_WRITE \<and> l_write_wait s = [] \<and>
                          type_of s w = TL_WRITE_ALLOW_WRITE \<or>
                          has_old_lock s (l_write s) (owner_of s d)
                  then (Done THR_LOCK_SUCCESS, grant_write d False s)
                  else (Wait_write, wait_for_lock_begin Wait_write False d s)
              | [] \<Rightarrow>
                  if l_write_wait s \<noteq> [] then (Wait_write, wait_for_lock_begin Wait_write False d s)
                  else
                    let concurrent_insert =
                          (type_of s d = TL_WRITE_CONCURRENT_INSERT \<and> \<not> call_check_status d s);
                        s = (if type_of s d = TL_WRITE_CONCURRENT_INSERT \<and> call_check_status d s
                             then set_type d (thr_upgraded_concurrent_insert_lock g) s else s);
                        lock_type = type_of s d
                    in if l_read s = [] \<or>
                          lock_type \<le> TL_WRITE_DELAYED \<and>
                          (lock_type \<noteq> TL_WRITE_CONCURRENT_INSERT \<and> lock_type \<noteq> TL_WRITE_ALLOW_WRITE \<or>
                           l_read_no_write_count s = 0)
                       then (Done THR_LOCK_SUCCESS, grant_write d concurrent_insert s)
                       else (Wait_write, wait_for_lock_begin Wait_write False d s))"

definition thr_lock :: "lock_globals \<Rightarrow> nat \<Rightarrow> nat \<Rightarrow> thr_lock_type \<Rightarrow> lock_state \<Rightarrow> outcome \<times> lock_state" where
  "thr_lock g d owner lock_type s =
     (let s = s\<lparr>l_data := (l_data s)(d := (l_data s d)\<lparr>d_cond := False, d_type := lock_type,
                                                       d_owner := Some owner\<rparr>)\<rparr>
      in if lock_type \<le> TL_READ_NO_INSERT then thr_lock_read d s else thr_lock_write g d s)"

definition thr_unlock :: "lock_globals \<Rightarrow> nat \<Rightarrow> lock_state \<Rightarrow> lock_state" where
  "thr_unlock g d s =
     (let lock_type = type_of s d;
          s = (if lock_type \<le> TL_READ_NO_INSERT then s\<lparr>l_read := remove1 d (l_read s)\<rparr>
               else if lock_type = TL_WRITE_DELAYED \<and> cond_of s d
               then s\<lparr>l_write_wait := remove1 d (l_write_wait s)\<rparr>
               else s\<lparr>l_write := remove1 d (l_write s)\<rparr>);
          s = (if lock_type \<ge> TL_WRITE_CONCURRENT_INSERT
               then if l_update_status s then emit (Update_status (d_status_param (l_data s d))) s else s
               else if l_restore_status s then emit (Restore_status (d_status_param (l_data s d))) s else s);
          s = (if lock_type = TL_READ_NO_INSERT
               then s\<lparr>l_read_no_write_count := l_read_no_write_count s - 1\<rparr> else s);
          s = set_type d TL_UNLOCK s
      in wake_up_waiters g s)"

fun abort_waiters :: "nat list \<Rightarrow> lock_state \<Rightarrow> lock_state" where
  "abort_waiters [] s = s"
| "abort_waiters (d # data) s = abort_waiters data (set_cond d False (emit (Signal d) (set_type d TL_UNLOCK s)))"

definition thr_abort_locks :: "bool \<Rightarrow> lock_state \<Rightarrow> lock_state" where
  "thr_abort_locks upgrade_lock s =
     (let s = abort_waiters (l_read_wait s) s;
          s = abort_waiters (l_write_wait s) s;
          s = s\<lparr>l_read_wait := [], l_write_wait := []\<rparr>
      in if upgrade_lock \<and> l_write s \<noteq> [] then set_type (hd (l_write s)) TL_WRITE_ONLY s else s)"

text \<open>\<open>owner->thread_id\<close> is read through \<open>thread_id\<close>; the two loops differ in the queue.\<close>

fun abort_thread_reads :: "(nat option \<Rightarrow> nat) \<Rightarrow> nat \<Rightarrow> nat list \<Rightarrow> bool \<times> lock_state \<Rightarrow> bool \<times> lock_state" where
  "abort_thread_reads thread_id tid [] (found, s) = (found, s)"
| "abort_thread_reads thread_id tid (d # data) (found, s) =
     abort_thread_reads thread_id tid data
       (if thread_id (owner_of s d) = tid
        then (True, (set_cond d False (emit (Signal d) (set_type d TL_UNLOCK s)))
                      \<lparr>l_read_wait := remove1 d (l_read_wait s)\<rparr>)
        else (found, s))"

fun abort_thread_writes :: "(nat option \<Rightarrow> nat) \<Rightarrow> nat \<Rightarrow> nat list \<Rightarrow> bool \<times> lock_state \<Rightarrow> bool \<times> lock_state" where
  "abort_thread_writes thread_id tid [] (found, s) = (found, s)"
| "abort_thread_writes thread_id tid (d # data) (found, s) =
     abort_thread_writes thread_id tid data
       (if thread_id (owner_of s d) = tid
        then (True, (set_cond d False (emit (Signal d) (set_type d TL_UNLOCK s)))
                      \<lparr>l_write_wait := remove1 d (l_write_wait s)\<rparr>)
        else (found, s))"

definition thr_abort_locks_for_thread ::
    "lock_globals \<Rightarrow> (nat option \<Rightarrow> nat) \<Rightarrow> nat \<Rightarrow> lock_state \<Rightarrow> bool \<times> lock_state" where
  "thr_abort_locks_for_thread g thread_id tid s =
     (let (found, s) = abort_thread_reads thread_id tid (l_read_wait s) (False, s);
          (found, s) = abort_thread_writes thread_id tid (l_write_wait s) (found, s)
      in (found, wake_up_waiters g s))"

definition thr_downgrade_write_lock :: "nat \<Rightarrow> thr_lock_type \<Rightarrow> lock_state \<Rightarrow> lock_state" where
  "thr_downgrade_write_lock d new_lock_type s = set_type d new_lock_type s"

text \<open>\<open>thr_upgrade_write_delay_lock\<close> returns the value of the C function, or blocks.\<close>

definition thr_upgrade_write_delay_lock :: "nat \<Rightarrow> thr_lock_type \<Rightarrow> lock_state \<Rightarrow> bool option \<times> lock_state" where
  "thr_upgrade_write_delay_lock d new_lock_type s =
     (if type_of s d = TL_UNLOCK \<or> type_of s d \<ge> TL_WRITE_LOW_PRIORITY
      then (Some (type_of s d = TL_UNLOCK), s)
      else
        let s = set_type d new_lock_type s
        in if \<not> cond_of s d then
             if l_read s = [] then (Some False, call_get_status d False s)
             else (None, wait_for_lock_begin Wait_write True d
                           (s\<lparr>l_write := remove1 d (l_write s), l_write_wait := d # l_write_wait s\<rparr>))
           else (None, wait_for_lock_begin Wait_write True d s))"

text \<open>\<open>thr_reschedule_write_lock\<close> releases the mutex before it calls
  \<open>thr_upgrade_write_delay_lock\<close>: the result is \<open>None\<close> when it returns 0 at once, and
  otherwise the lock type that call is made with.\<close>

definition thr_reschedule_write_lock :: "nat \<Rightarrow> lock_state \<Rightarrow> thr_lock_type option \<times> lock_state" where
  "thr_reschedule_write_lock d s =
     (if l_read_wait s = [] then (None, s)
      else
        let write_lock_type = type_of s d;
            s = set_type d TL_WRITE_DELAYED s;
            s = (if l_update_status s then emit (Update_status (d_status_param (l_data s d))) s else s);
            s = s\<lparr>l_write := remove1 d (l_write s), l_write_wait := d # l_write_wait s\<rparr>;
            s = set_cond d True s
        in (Some write_lock_type, free_all_read_locks False s))"

section \<open>The consistency checks of debug builds\<close>

text \<open>\<open>check_lock\<close> on the instances of a queue (the checks of the \<open>prev\<close> and \<open>last\<close> pointers are
  about the pointer representation); the result is whether an error is reported.\<close>

definition MAX_LOCKS :: nat where "MAX_LOCKS = 100"

definition MAX_FOUND_ERRORS :: nat where "MAX_FOUND_ERRORS = 10"

fun check_lock_loop :: "lock_state \<Rightarrow> bool \<Rightarrow> bool \<Rightarrow> nat option \<Rightarrow> thr_lock_type \<Rightarrow> nat \<Rightarrow> nat list \<Rightarrow> bool" where
  "check_lock_loop s same_owner no_cond first_owner last_lock_type n [] = False"
| "check_lock_loop s same_owner no_cond first_owner last_lock_type n (d # data) =
     (if n \<ge> MAX_LOCKS then True
      else
        let last_lock_type = (if type_of s d \<noteq> last_lock_type then TL_IGNORE else last_lock_type)
        in if same_owner \<and> \<not> thr_lock_owner_equal (owner_of s d) first_owner \<and>
              last_lock_type \<noteq> TL_WRITE_ALLOW_WRITE then True
           else if no_cond \<and> cond_of s d then True
           else check_lock_loop s same_owner no_cond first_owner last_lock_type (n + 1) data)"

definition check_lock :: "lock_state \<Rightarrow> nat list \<Rightarrow> bool \<Rightarrow> bool \<Rightarrow> bool" where
  "check_lock s list same_owner no_cond =
     (case list of [] \<Rightarrow> False
      | d # _ \<Rightarrow> check_lock_loop s same_owner no_cond (owner_of s d) (type_of s d) 0 list)"

text \<open>\<open>check_locks\<close> maps the number of errors found so far to the new number.\<close>

definition check_locks :: "lock_state \<Rightarrow> bool \<Rightarrow> nat \<Rightarrow> nat" where
  "check_locks s allow_no_locks found_errors =
     (if found_errors < MAX_FOUND_ERRORS then
        let count_if = (\<lambda>b found. if b then found + 1 else found);
            found_errors = count_if (check_lock s (l_write s) True True \<or> check_lock s (l_write_wait s) False False \<or>
                                     check_lock s (l_read s) False True \<or> check_lock s (l_read_wait s) False False)
                             found_errors
        in if found_errors < MAX_FOUND_ERRORS then
             let found_errors = count_if (length (filter (\<lambda>d. type_of s d = TL_READ_NO_INSERT) (l_read s)) \<noteq>
                                          l_read_no_write_count s) found_errors
             in case l_write s of
                  [] \<Rightarrow>
                    let found_errors = count_if (\<not> allow_no_locks \<and> l_read s = [] \<and>
                                                 (l_write_wait s \<noteq> [] \<or> l_read_wait s \<noteq> [])) found_errors
                    in (case l_write_wait s of
                          [] \<Rightarrow> count_if (\<not> allow_no_locks \<and> l_read_wait s \<noteq> []) found_errors
                        | ww # _ \<Rightarrow>
                            count_if (\<not> allow_no_locks \<and>
                              ((type_of s ww = TL_WRITE_CONCURRENT_INSERT \<or> type_of s ww = TL_WRITE_ALLOW_WRITE) \<and>
                               l_read_no_write_count s = 0 \<or>
                               type_of s ww = TL_WRITE_DELAYED \<and> l_read s = [])) found_errors)
                | w # _ \<Rightarrow>
                    let found_errors = count_if (l_write_wait s \<noteq> [] \<and> \<not> allow_no_locks \<and>
                                         type_of s w = TL_WRITE_ALLOW_WRITE \<and>
                                         type_of s (hd (l_write_wait s)) = TL_WRITE_ALLOW_WRITE) found_errors;
                        found_errors = count_if (l_read s \<noteq> [] \<and>
                                         \<not> thr_lock_owner_equal (owner_of s w) (owner_of s (hd (l_read s))) \<and>
                                         (type_of s w > TL_WRITE_DELAYED \<and> type_of s w \<noteq> TL_WRITE_ONLY \<or>
                                          (type_of s w = TL_WRITE_CONCURRENT_INSERT \<or> type_of s w = TL_WRITE_ALLOW_WRITE) \<and>
                                          l_read_no_write_count s \<noteq> 0)) found_errors
                    in count_if (l_read_wait s \<noteq> [] \<and> \<not> allow_no_locks \<and> type_of s w \<le> TL_WRITE_DELAYED \<and>
                                 type_of s (hd (l_read_wait s)) \<le> TL_READ_HIGH_PRIORITY) found_errors
           else found_errors
      else found_errors)"

end
