(* ===== verification/TableLockInv.thy ===== *)
theory TableLockInv
  imports TableLock
begin

text \<open>
  Invariants of the table locks of \<open>TableLock\<close>: the queues are disjoint and hold instances of
  the right kind, active locks of different threads are compatible, and no lock request is
  left waiting on a lock that nobody holds.  Every operation keeps them.
\<close>

section \<open>The invariant\<close>

definition is_read :: "thr_lock_type \<Rightarrow> bool" where
  "is_read t \<longleftrightarrow> TL_UNLOCK < t \<and> t \<le> TL_READ_NO_INSERT"

definition is_write :: "thr_lock_type \<Rightarrow> bool" where
  "is_write t \<longleftrightarrow> TL_READ_NO_INSERT < t \<and> t \<noteq> TL_WRITE_DEFAULT"

definition no_insert_count :: "lock_state \<Rightarrow> nat list \<Rightarrow> nat" where
  "no_insert_count s ds = length (filter (\<lambda>d. type_of s d = TL_READ_NO_INSERT) ds)"

definition queues_ok :: "lock_state \<Rightarrow> bool" where
  "queues_ok s \<longleftrightarrow>
     distinct (l_read s @ l_read_wait s @ l_write s @ l_write_wait s) \<and>
     (\<forall>d\<in>set (l_read s). is_read (type_of s d) \<and> \<not> cond_of s d) \<and>
     (\<forall>d\<in>set (l_read_wait s). is_read (type_of s d) \<and> cond_of s d) \<and>
     (\<forall>d\<in>set (l_write s). is_write (type_of s d) \<and> \<not> cond_of s d) \<and>
     (\<forall>d\<in>set (l_write_wait s). is_write (type_of s d) \<and> cond_of s d) \<and>
     l_read_no_write_count s = no_insert_count s (l_read s)"

text \<open>A write lock that a thread takes beside its earlier write locks on the same table is not
  stronger than those (\<open>TL_WRITE\<close> and \<open>TL_WRITE_LOW_PRIORITY\<close> count as equal): the order in which
  \<open>thr_multi_lock\<close> requests them.\<close>

definition covers :: "thr_lock_type \<Rightarrow> thr_lock_type \<Rightarrow> bool" where
  "covers held t \<longleftrightarrow> t \<le> held \<or> held = TL_WRITE_LOW_PRIORITY \<and> t = TL_WRITE"

definition writers_ok :: "lock_state \<Rightarrow> bool" where
  "writers_ok s \<longleftrightarrow>
     ((\<forall>w\<in>set (l_write s). type_of s w = TL_WRITE_ALLOW_WRITE) \<or>
      (\<forall>w\<in>set (l_write s). \<forall>w'\<in>set (l_write s). owner_of s w = owner_of s w')) \<and>
     sorted_wrt (\<lambda>w w'. covers (type_of s w) (type_of s w')) (l_write s) \<and>
     (\<forall>w\<in>set (l_write s). type_of s w = TL_WRITE_DELAYED \<longrightarrow> l_write s = [w])"

text \<open>What a read lock and a write lock of different threads may be when both are active.\<close>

definition compatible :: "thr_lock_type \<Rightarrow> thr_lock_type \<Rightarrow> bool" where
  "compatible r w \<longleftrightarrow> w \<le> TL_WRITE_DELAYED \<and> (r = TL_READ_NO_INSERT \<longrightarrow> w \<noteq> TL_WRITE_CONCURRENT_INSERT)"

definition exclusion :: "lock_state \<Rightarrow> bool" where
  "exclusion s \<longleftrightarrow>
     (\<forall>r\<in>set (l_read s). \<forall>w\<in>set (l_write s). owner_of s r \<noteq> owner_of s w \<longrightarrow>
        compatible (type_of s r) (type_of s w))"

definition lock_inv :: "lock_state \<Rightarrow> bool" where
  "lock_inv s \<longleftrightarrow> queues_ok s \<and> writers_ok s \<and> exclusion s"

text \<open>No request waits on a lock that is free, and no reader waits without a writer.\<close>

definition no_lost_wakeup :: "lock_state \<Rightarrow> bool" where
  "no_lost_wakeup s \<longleftrightarrow>
     (l_write s = [] \<and> l_read s = [] \<longrightarrow> l_write_wait s = [] \<and> l_read_wait s = []) \<and>
     (l_write s = [] \<and> l_write_wait s = [] \<longrightarrow> l_read_wait s = [])"

lemmas lock_inv_defs = lock_inv_def queues_ok_def writers_ok_def exclusion_def no_insert_count_def

section \<open>Frame lemmas\<close>

lemma emit_sel [simp]:
  "l_read (emit e s) = l_read s" "l_read_wait (emit e s) = l_read_wait s" "l_write (emit e s) = l_write s"
  "l_write_wait (emit e s) = l_write_wait s" "l_data (emit e s) = l_data s"
  "l_read_no_write_count (emit e s) = l_read_no_write_count s" "l_check_status (emit e s) = l_check_status s"
  "l_write_lock_count (emit e s) = l_write_lock_count s"
  by (simp_all add: emit_def)

lemma set_type_sel [simp]:
  "l_read (set_type d t s) = l_read s" "l_read_wait (set_type d t s) = l_read_wait s"
  "l_write (set_type d t s) = l_write s" "l_write_wait (set_type d t s) = l_write_wait s"
  "l_read_no_write_count (set_type d t s) = l_read_no_write_count s"
  "l_check_status (set_type d t s) = l_check_status s"
  "l_data (set_type d t s) = (l_data s)(d := (l_data s d)\<lparr>d_type := t\<rparr>)"
  by (simp_all add: set_type_def)

lemma set_cond_sel [simp]:
  "l_read (set_cond d c s) = l_read s" "l_read_wait (set_cond d c s) = l_read_wait s"
  "l_write (set_cond d c s) = l_write s" "l_write_wait (set_cond d c s) = l_write_wait s"
  "l_read_no_write_count (set_cond d c s) = l_read_no_write_count s"
  "l_check_status (set_cond d c s) = l_check_status s"
  "l_data (set_cond d c s) = (l_data s)(d := (l_data s d)\<lparr>d_cond := c\<rparr>)"
  by (simp_all add: set_cond_def)

lemma call_get_status_sel [simp]:
  "l_read (call_get_status d c s) = l_read s" "l_read_wait (call_get_status d c s) = l_read_wait s"
  "l_write (call_get_status d c s) = l_write s" "l_write_wait (call_get_status d c s) = l_write_wait s"
  "l_data (call_get_status d c s) = l_data s"
  "l_read_no_write_count (call_get_status d c s) = l_read_no_write_count s"
  "l_check_status (call_get_status d c s) = l_check_status s"
  by (simp_all add: call_get_status_def)

lemma start_write_sel [simp]:
  "l_write_wait (start_write d s) = remove1 d (l_write_wait s)"
  "l_write (start_write d s) = l_write s @ [d]"
  "l_read (start_write d s) = l_read s" "l_read_wait (start_write d s) = l_read_wait s"
  "l_data (start_write d s) = l_data s" "l_read_no_write_count (start_write d s) = l_read_no_write_count s"
  "l_check_status (start_write d s) = l_check_status s"
  by (simp_all add: start_write_def)

lemma wake_sel [simp]:
  "l_write_wait (wake d s) = l_write_wait s" "l_write (wake d s) = l_write s"
  "l_read (wake d s) = l_read s" "l_read_wait (wake d s) = l_read_wait s"
  "l_read_no_write_count (wake d s) = l_read_no_write_count s"
  "l_check_status (wake d s) = l_check_status s"
  "l_data (wake d s) = (l_data s)(d := (l_data s d)\<lparr>d_cond := False\<rparr>)"
  by (simp_all add: wake_def)

text \<open>The invariants depend only on the queues, the instances and the read count.\<close>

definition same_lock :: "lock_state \<Rightarrow> lock_state \<Rightarrow> bool" where
  "same_lock s s' \<longleftrightarrow> l_read s = l_read s' \<and> l_read_wait s = l_read_wait s' \<and> l_write s = l_write s' \<and>
     l_write_wait s = l_write_wait s' \<and> l_data s = l_data s' \<and>
     l_read_no_write_count s = l_read_no_write_count s'"

lemma same_lock_inv: "same_lock s s' \<Longrightarrow> lock_inv s = lock_inv s' \<and> no_lost_wakeup s = no_lost_wakeup s'"
  by (simp add: same_lock_def lock_inv_defs no_lost_wakeup_def)

section \<open>Freeing the readers\<close>

lemma no_insert_count_append [simp]: "no_insert_count s (xs @ ys) = no_insert_count s xs + no_insert_count s ys"
  by (simp add: no_insert_count_def)

definition granted :: "bool \<Rightarrow> lock_state \<Rightarrow> nat list \<Rightarrow> nat list" where
  "granted c s ds = filter (\<lambda>d. \<not> (c \<and> type_of s d = TL_READ_NO_INSERT)) ds"

definition kept :: "bool \<Rightarrow> lock_state \<Rightarrow> nat list \<Rightarrow> nat list" where
  "kept c s ds = filter (\<lambda>d. c \<and> type_of s d = TL_READ_NO_INSERT) ds"

definition clear_cond :: "nat set \<Rightarrow> (nat \<Rightarrow> THR_LOCK_DATA) \<Rightarrow> nat \<Rightarrow> THR_LOCK_DATA" where
  "clear_cond D f d = (if d \<in> D then (f d)\<lparr>d_cond := False\<rparr> else f d)"

lemma clear_cond_sel [simp]:
  "d_type (clear_cond D f d) = d_type (f d)" "d_owner (clear_cond D f d) = d_owner (f d)"
  "d_cond (clear_cond D f d) = (d \<notin> D \<and> d_cond (f d))" "d_status_param (clear_cond D f d) = d_status_param (f d)"
  by (simp_all add: clear_cond_def)

lemma clear_cond_step: "clear_cond D (f(d := (f d)\<lparr>d_cond := False\<rparr>)) = clear_cond (insert d D) f"
  by (auto simp: clear_cond_def fun_eq_iff)

definition freed :: "bool \<Rightarrow> nat list \<Rightarrow> nat list \<Rightarrow> lock_state \<Rightarrow> lock_state \<Rightarrow> bool" where
  "freed c pre data s s' \<longleftrightarrow>
     l_read s' = pre @ granted c s data \<and> l_read_wait s' = l_read_wait s @ kept c s data \<and>
     l_write s' = l_write s \<and> l_write_wait s' = l_write_wait s \<and>
     l_read_no_write_count s' = l_read_no_write_count s + no_insert_count s (granted c s data) \<and>
     l_data s' = clear_cond (set (granted c s data)) (l_data s) \<and> l_check_status s' = l_check_status s"

lemma no_insert_count_simps [simp]:
  "no_insert_count s [] = 0"
  "no_insert_count s (d # ds) = (if type_of s d = TL_READ_NO_INSERT then 1 else 0) + no_insert_count s ds"
  by (simp_all add: no_insert_count_def)

lemma granted_simps [simp]:
  "granted c s [] = []"
  "granted c s (d # ds) = (if c \<and> type_of s d = TL_READ_NO_INSERT then [] else [d]) @ granted c s ds"
  by (simp_all add: granted_def)

lemma kept_simps [simp]:
  "kept c s [] = []"
  "kept c s (d # ds) = (if c \<and> type_of s d = TL_READ_NO_INSERT then [d] else []) @ kept c s ds"
  by (simp_all add: kept_def)

lemma type_view_cong:
  assumes "\<And>d. type_of s' d = type_of s d"
  shows "granted c s' ds = granted c s ds" "kept c s' ds = kept c s ds" "no_insert_count s' ds = no_insert_count s ds"
  using assms by (simp_all add: granted_def kept_def no_insert_count_def)

lemma free_read_loop_result:
  "l_read s = pre @ data \<Longrightarrow> distinct (pre @ data) \<Longrightarrow> freed c pre data s (free_read_loop data c s)"
proof (induction data arbitrary: s pre)
  case (Cons d data)
  let ?keep = "s\<lparr>l_read := remove1 d (l_read s), l_read_wait := l_read_wait s @ [d]\<rparr>"
  let ?count = "emit (Signal d) (set_cond d False (s\<lparr>l_read_no_write_count := Suc (l_read_no_write_count s)\<rparr>))"
  let ?grant = "emit (Signal d) (set_cond d False s)"
  consider "c" "type_of s d = TL_READ_NO_INSERT" | "\<not> c" "type_of s d = TL_READ_NO_INSERT"
    | "type_of s d \<noteq> TL_READ_NO_INSERT" by blast
  then show ?case
  proof cases
    case 1
    have "freed c pre data ?keep (free_read_loop data c ?keep)"
      using Cons.prems by (intro Cons.IH) (simp_all add: remove1_append)
    with 1 show ?thesis by (simp add: freed_def type_view_cong [of ?keep s])
  next
    case 2
    have "freed c (pre @ [d]) data ?count (free_read_loop data c ?count)"
      using Cons.prems by (intro Cons.IH) simp_all
    with 2 show ?thesis
      by (simp add: freed_def type_view_cong [of ?count s] clear_cond_step)
  next
    case 3
    have "freed c (pre @ [d]) data ?grant (free_read_loop data c ?grant)"
      using Cons.prems by (intro Cons.IH) simp_all
    with 3 show ?thesis
      by (simp add: freed_def type_view_cong [of ?grant s] clear_cond_step)
  qed
qed (auto simp: freed_def clear_cond_def)

lemma free_all_read_locks_result:
  assumes "queues_ok s"
  shows "freed c (l_read s) (l_read_wait s) (s\<lparr>l_read_wait := []\<rparr>) (free_all_read_locks c s)"
proof -
  let ?s = "s\<lparr>l_read := l_read s @ l_read_wait s, l_read_wait := []\<rparr>"
  have "freed c (l_read s) (l_read_wait s) ?s (free_read_loop (l_read_wait s) c ?s)"
    using assms by (intro free_read_loop_result) (auto simp: queues_ok_def)
  then show ?thesis
    by (simp add: freed_def free_all_read_locks_def Let_def
        type_view_cong [of ?s s] type_view_cong [of "s\<lparr>l_read_wait := []\<rparr>" s])
qed

lemma free_all_read_locks_frame:
  assumes "queues_ok s"
  shows "l_write (free_all_read_locks c s) = l_write s" "l_write_wait (free_all_read_locks c s) = l_write_wait s"
    "l_read (free_all_read_locks c s) = l_read s @ granted c s (l_read_wait s)"
    "l_read_wait (free_all_read_locks c s) = kept c s (l_read_wait s)"
    "type_of (free_all_read_locks c s) d = type_of s d" "owner_of (free_all_read_locks c s) d = owner_of s d"
    "cond_of (free_all_read_locks c s) d = (d \<notin> set (granted c s (l_read_wait s)) \<and> cond_of s d)"
    "l_read_no_write_count (free_all_read_locks c s) =
       l_read_no_write_count s + no_insert_count s (granted c s (l_read_wait s))"
    "l_check_status (free_all_read_locks c s) = l_check_status s"
  using free_all_read_locks_result [OF assms, of c]
  by (simp_all add: freed_def type_view_cong [of "s\<lparr>l_read_wait := []\<rparr>" s])

lemma granted_False [simp]: "granted False s ds = ds" and kept_False [simp]: "kept False s ds = []"
  by (simp_all add: granted_def kept_def)

lemma set_granted: "set (granted c s ds) = {d \<in> set ds. \<not> (c \<and> type_of s d = TL_READ_NO_INSERT)}"
  and set_kept: "set (kept c s ds) = {d \<in> set ds. c \<and> type_of s d = TL_READ_NO_INSERT}"
  by (auto simp: granted_def kept_def)

lemma free_all_read_locks_queues:
  assumes "queues_ok s"
  shows "queues_ok (free_all_read_locks c s)"
proof -
  have "distinct (granted c s ds)" "distinct (kept c s ds)" if "distinct ds" for ds
    using that by (simp_all add: granted_def kept_def)
  then show ?thesis
    using assms unfolding queues_ok_def
    by (auto simp: free_all_read_locks_frame [OF assms] set_granted set_kept
        type_view_cong [of "free_all_read_locks c s" s])
qed

lemma free_all_read_locks_inv:
  assumes "lock_inv s"
    and "\<And>w. w \<in> set (l_write s) \<Longrightarrow> type_of s w \<le> TL_WRITE_DELAYED \<and> (c \<or> type_of s w \<noteq> TL_WRITE_CONCURRENT_INSERT)"
  shows "lock_inv (free_all_read_locks c s)"
proof -
  from assms(1) have q: "queues_ok s" by (simp add: lock_inv_def)
  note frame = free_all_read_locks_frame [OF q]
  have "writers_ok (free_all_read_locks c s)"
    using assms(1) by (simp add: lock_inv_def writers_ok_def frame)
  moreover have "exclusion (free_all_read_locks c s)"
    using assms by (auto simp: lock_inv_def exclusion_def frame set_granted compatible_def)
  ultimately show ?thesis using free_all_read_locks_queues [OF q] by (simp add: lock_inv_def)
qed

section \<open>Granting waiting writers\<close>

lemma sorted_wrt_all: "(\<And>x y. x \<in> set xs \<Longrightarrow> y \<in> set xs \<Longrightarrow> P x y) \<Longrightarrow> sorted_wrt P xs"
  by (induction xs) auto

lemma grant_write_inv:
  assumes s: "lock_inv s" and d: "l_write_wait s = d # ws"
    and s': "l_write s' = l_write s @ [d]" "l_write_wait s' = ws" "l_read s' = l_read s" "l_read_wait s' = l_read_wait s"
      "l_read_no_write_count s' = l_read_no_write_count s"
      "\<And>x. x \<noteq> d \<Longrightarrow> l_data s' x = l_data s x" "\<not> cond_of s' d" "owner_of s' d = owner_of s d"
      "is_write (type_of s' d)"
    and w: "l_write s = [] \<or>
      type_of s' d = TL_WRITE_ALLOW_WRITE \<and> (\<forall>w\<in>set (l_write s). type_of s w = TL_WRITE_ALLOW_WRITE)"
    and r: "l_read s = [] \<or> (\<forall>r\<in>set (l_read s). compatible (type_of s r) (type_of s' d))"
  shows "lock_inv s'"
proof -
  have new: "d \<notin> set (l_read s)" "d \<notin> set (l_read_wait s)" "d \<notin> set (l_write s)" "d \<notin> set ws"
    using s d by (auto simp: lock_inv_def queues_ok_def)
  have same: "l_data s' x = l_data s x" if "x \<in> set (l_read s) \<or> x \<in> set (l_read_wait s) \<or> x \<in> set (l_write s) \<or> x \<in> set ws" for x
    using that new s'(6) by metis
  have "no_insert_count s' (l_read s) = no_insert_count s (l_read s)"
    using same by (auto simp: no_insert_count_def intro!: arg_cong [where f = length] filter_cong)
  then have "queues_ok s'"
    using s d new same s'(7,9) unfolding lock_inv_def queues_ok_def s'(1-5) by auto
  moreover have "sorted_wrt (\<lambda>w w'. covers (type_of s' w) (type_of s' w')) (l_write s @ [d])"
    using w same by (intro sorted_wrt_all) (auto simp: covers_def)
  then have "writers_ok s'"
    using w s same s'(8) unfolding lock_inv_def writers_ok_def s'(1-5) by auto
  moreover have "exclusion s'"
    using r s same unfolding lock_inv_def exclusion_def s'(1-5) by auto
  ultimately show ?thesis by (simp add: lock_inv_def)
qed

text \<open>Writers granted together are one writer, or all of them \<open>TL_WRITE_ALLOW_WRITE\<close>.\<close>

definition write_group :: "lock_state \<Rightarrow> nat \<Rightarrow> bool" where
  "write_group s d \<longleftrightarrow> l_write s = [d] \<or>
     d \<in> set (l_write s) \<and> (\<forall>w\<in>set (l_write s). type_of s w = TL_WRITE_ALLOW_WRITE)"

lemma upgrade_checked_data:
  "l_data (upgrade_checked d s) = (l_data s)(d := (l_data s d)\<lparr>d_type :=
     (if type_of s d = TL_WRITE_CONCURRENT_INSERT \<and> call_check_status d s then TL_WRITE else type_of s d)\<rparr>)"
  by (simp add: upgrade_checked_def)

lemma upgrade_checked_sel [simp]:
  "l_write_wait (upgrade_checked d s) = l_write_wait s" "l_write (upgrade_checked d s) = l_write s"
  "l_read (upgrade_checked d s) = l_read s" "l_read_wait (upgrade_checked d s) = l_read_wait s"
  "l_read_no_write_count (upgrade_checked d s) = l_read_no_write_count s"
  "l_check_status (upgrade_checked d s) = l_check_status s"
  by (simp_all add: upgrade_checked_def)

lemma call_check_status_start [simp]: "call_check_status d (start_write w s) = call_check_status d s"
  by (simp add: call_check_status_def split: option.split)

lemma grant_loop_inv:
  assumes "lock_inv s" and "l_read s = []" and "l_write_wait s = ds" and "ds \<noteq> []"
    and "l_write s = [] \<or>
      type_of s (hd ds) = TL_WRITE_ALLOW_WRITE \<and> (\<forall>w\<in>set (l_write s). type_of s w = TL_WRITE_ALLOW_WRITE)"
    and "grant_loop ds s = (x, s')"
  shows "lock_inv s' \<and> l_read s' = [] \<and> l_read_wait s' = l_read_wait s \<and> (\<exists>d. x = Some d \<and> write_group s' d)"
  using assms
proof (induction ds arbitrary: s)
  case (Cons d ds)
  define t where "t = wake d (upgrade_checked d (start_write d s))"
  have new: "d \<notin> set (l_write s)" "d \<notin> set ds"
    using Cons.prems(1,3) by (auto simp: lock_inv_def queues_ok_def)
  have t: "l_write t = l_write s @ [d]" "l_write_wait t = ds" "l_read t = l_read s" "l_read_wait t = l_read_wait s"
    "\<And>w. w \<noteq> d \<Longrightarrow> l_data t w = l_data s w"
    using Cons.prems(3) by (simp_all add: t_def upgrade_checked_data)
  have ty: "type_of t d = (if type_of s d = TL_WRITE_CONCURRENT_INSERT \<and> call_check_status d s then TL_WRITE else type_of s d)"
    by (simp add: t_def upgrade_checked_data)
  have "is_write (type_of s d)" using Cons.prems(1,3) by (simp add: lock_inv_def queues_ok_def)
  have same: "\<forall>w\<in>set (l_write s). l_data t w = l_data s w" using new(1) t(5) by metis
  from \<open>is_write (type_of s d)\<close> have wr: "is_write (type_of t d)" unfolding ty by (simp add: is_write_def type_order)
  have tag: "\<not> cond_of t d" "owner_of t d = owner_of s d" "l_read_no_write_count t = l_read_no_write_count s"
    by (simp_all add: t_def upgrade_checked_data)
  have "type_of t d = TL_WRITE_ALLOW_WRITE" if "type_of s d = TL_WRITE_ALLOW_WRITE" using that ty by simp
  with Cons.prems(5) have grp: "l_write s = [] \<or>
      type_of t d = TL_WRITE_ALLOW_WRITE \<and> (\<forall>w\<in>set (l_write s). type_of s w = TL_WRITE_ALLOW_WRITE)" by auto
  have "lock_inv t"
    by (rule grant_write_inv [OF Cons.prems(1,3) t(1-4) tag(3) t(5) tag(1,2) wr grp disjI1 [OF Cons.prems(2)]])
  show ?case
  proof (cases "type_of t d \<noteq> TL_WRITE_ALLOW_WRITE \<or> ds = [] \<or> type_of t (hd ds) \<noteq> TL_WRITE_ALLOW_WRITE")
    case True
    with Cons.prems(6) have "x = Some d" "s' = t" by (simp_all add: t_def [symmetric] Let_def)
    moreover have "write_group t d"
      using grp same t(1) by (auto simp: write_group_def)
    ultimately show ?thesis using \<open>lock_inv t\<close> t Cons.prems(2) by simp
  next
    case False
    with Cons.prems(6) have "grant_loop ds t = (x, s')" by (simp add: t_def [symmetric] Let_def)
    moreover have "\<forall>w\<in>set (l_write t). type_of t w = TL_WRITE_ALLOW_WRITE"
      using False grp same t(1) by auto
    ultimately show ?thesis
      using Cons.IH [OF \<open>lock_inv t\<close> _ t(2)] t(3,4) Cons.prems(2) False by simp
  qed
qed simp

lemma grant_with_readers_inv:
  assumes "lock_inv s" and "l_write_wait s = ds" and "ds \<noteq> []" and "type_of s (hd ds) = lt"
    and "lt \<le> TL_WRITE_DELAYED"
    and "lt = TL_WRITE_CONCURRENT_INSERT \<or> lt = TL_WRITE_ALLOW_WRITE \<Longrightarrow> l_read_no_write_count s = 0"
    and "l_write s = [] \<or> lt = TL_WRITE_ALLOW_WRITE \<and> (\<forall>w\<in>set (l_write s). type_of s w = TL_WRITE_ALLOW_WRITE)"
  shows "lock_inv (grant_with_readers lt ds s) \<and> l_read (grant_with_readers lt ds s) = l_read s \<and>
    l_read_wait (grant_with_readers lt ds s) = l_read_wait s \<and> l_write (grant_with_readers lt ds s) \<noteq> [] \<and>
    (\<forall>w\<in>set (l_write (grant_with_readers lt ds s)). type_of (grant_with_readers lt ds s) w = lt)"
  using assms
proof (induction ds arbitrary: s)
  case (Cons d ds)
  define t where "t = wake d (start_write d s)"
  have new: "d \<notin> set (l_write s)" "d \<notin> set ds" "d \<notin> set (l_read s)"
    using Cons.prems(1,2) by (auto simp: lock_inv_def queues_ok_def)
  have t: "l_write t = l_write s @ [d]" "l_write_wait t = ds" "l_read t = l_read s" "l_read_wait t = l_read_wait s"
    "l_read_no_write_count t = l_read_no_write_count s" "\<And>w. type_of t w = type_of s w"
    using Cons.prems(2) by (simp_all add: t_def)
  have lt: "type_of t d = lt" using Cons.prems(4) t(6) by simp
  have "is_write (type_of s d)" using Cons.prems(1,2) by (simp add: lock_inv_def queues_ok_def)
  then have wr: "is_write (type_of t d)" using t(6) by simp
  have tag: "\<And>w. w \<noteq> d \<Longrightarrow> l_data t w = l_data s w" "\<not> cond_of t d" "owner_of t d = owner_of s d"
    by (simp_all add: t_def)
  have "type_of s r \<noteq> TL_READ_NO_INSERT" if "lt = TL_WRITE_CONCURRENT_INSERT" "r \<in> set (l_read s)" for r
    using that Cons.prems(1,6) by (auto simp: lock_inv_def queues_ok_def no_insert_count_def filter_empty_conv)
  then have "\<forall>r\<in>set (l_read s). compatible (type_of s r) (type_of t d)"
    unfolding lt using Cons.prems(5) by (auto simp: compatible_def)
  then have inv: "lock_inv t"
    using Cons.prems(7) lt
    by (intro grant_write_inv [OF Cons.prems(1,2) t(1-5) tag wr]) simp_all
  have all: "\<forall>w\<in>set (l_write t). type_of t w = lt" using Cons.prems(4,7) t by auto
  show ?case
  proof (cases "lt = TL_WRITE_ALLOW_WRITE \<and> ds \<noteq> [] \<and> type_of t (hd ds) = TL_WRITE_ALLOW_WRITE")
    case True
    have "l_read_no_write_count t = 0" using True t(5) Cons.prems(6) by simp
    moreover have "grant_with_readers lt (d # ds) s = grant_with_readers lt ds t"
      using True by (simp add: t_def [symmetric] Let_def)
    ultimately show ?thesis using Cons.IH [OF inv t(2)] True all t(3,4) Cons.prems(5) by simp
  next
    case False
    then have "grant_with_readers lt (d # ds) s = t" by (auto simp: t_def [symmetric] Let_def)
    with inv t(1,3,4) all show ?thesis by simp
  qed
qed simp

section \<open>Waking up waiters\<close>

lemma no_lost_wakeup_write: "l_write s \<noteq> [] \<Longrightarrow> no_lost_wakeup s"
  by (simp add: no_lost_wakeup_def)

lemma free_all_wakeup:
  assumes "lock_inv s" and "l_read_wait s \<noteq> []"
    and "l_write s = [] \<and> \<not> c \<or> l_write s \<noteq> [] \<and>
      (\<forall>w\<in>set (l_write s). type_of s w \<le> TL_WRITE_DELAYED \<and> (c \<or> type_of s w \<noteq> TL_WRITE_CONCURRENT_INSERT))"
  shows "lock_inv (free_all_read_locks c s) \<and> no_lost_wakeup (free_all_read_locks c s)"
proof
  show "lock_inv (free_all_read_locks c s)"
    using assms by (intro free_all_read_locks_inv) auto
  from assms(1) have q: "queues_ok s" by (simp add: lock_inv_def)
  from assms(2,3) show "no_lost_wakeup (free_all_read_locks c s)"
    by (auto simp: no_lost_wakeup_def free_all_read_locks_frame [OF q])
qed

lemma count_irrelevant:
  "lock_inv (s\<lparr>l_write_lock_count := n\<rparr>) = lock_inv s"
  "no_lost_wakeup (s\<lparr>l_write_lock_count := n\<rparr>) = no_lost_wakeup s"
  using same_lock_inv [of "s\<lparr>l_write_lock_count := n\<rparr>" s] by (simp_all add: same_lock_def)

text \<open>Granting the first writers and then the readers that may run beside them.\<close>

lemma grant_then_free:
  assumes "lock_inv s" and "l_write s = []" and "l_read s = []" and "l_write_wait s = d # ds"
    and "grant_loop (l_write_wait s) s = (x, s')"
  defines "c \<equiv> (\<lambda>d. type_of s' d = TL_WRITE_CONCURRENT_INSERT \<or> type_of s' d = TL_WRITE_ALLOW_WRITE)"
  defines "s'' \<equiv> (case x of None \<Rightarrow> s'
    | Some d \<Rightarrow> if type_of s' d \<ge> TL_WRITE_LOW_PRIORITY then s'
               else if l_read_wait s' \<noteq> [] then free_all_read_locks (c d) s' else s')"
  shows "lock_inv s'' \<and> no_lost_wakeup s''"
proof -
  from grant_loop_inv [OF assms(1,3) refl _ _ assms(5)] assms(2,4) obtain e where
    e: "lock_inv s'" "x = Some e" "write_group s' e" by auto
  then have "l_write s' \<noteq> []" by (auto simp: write_group_def)
  have "is_write (type_of s' e)" using e(1,3) by (auto simp: lock_inv_def queues_ok_def write_group_def)
  then have "type_of s' w \<le> TL_WRITE_DELAYED \<and> (c e \<or> type_of s' w \<noteq> TL_WRITE_CONCURRENT_INSERT)"
    if "w \<in> set (l_write s')" "\<not> type_of s' e \<ge> TL_WRITE_LOW_PRIORITY" for w
    using that e(3) by (cases "type_of s' e") (auto simp: write_group_def c_def is_write_def type_order)
  then show ?thesis
    using e(1,2) \<open>l_write s' \<noteq> []\<close> free_all_wakeup [of s' "c e"]
    by (auto simp: s''_def no_lost_wakeup_write)
qed

lemma sorted_wrt_cong:
  "(\<And>x y. x \<in> set xs \<Longrightarrow> y \<in> set xs \<Longrightarrow> P x y = Q x y) \<Longrightarrow> sorted_wrt P xs = sorted_wrt Q xs"
  by (induction xs) auto

lemma no_insert_count_cong:
  "(\<And>d. d \<in> set ds \<Longrightarrow> type_of s' d = type_of s d) \<Longrightarrow> no_insert_count s' ds = no_insert_count s ds"
  unfolding no_insert_count_def by (intro arg_cong [where f = length] filter_cong) auto

text \<open>Changing the type of a waiting writer, and taking instances out of the queues, keep the
  invariant.\<close>

lemma set_waiting_type_inv:
  assumes "lock_inv s" and "d \<in> set (l_write_wait s)" and "is_write t"
  shows "lock_inv (set_type d t s)"
proof -
  define s' where "s' = set_type d t s"
  have out: "d \<notin> set (l_read s)" "d \<notin> set (l_read_wait s)" "d \<notin> set (l_write s)"
    using assms(1,2) by (auto simp: lock_inv_def queues_ok_def)
  have same: "l_data s' x = l_data s x" if "x \<in> set (l_read s) \<union> set (l_read_wait s) \<union> set (l_write s)" for x
    using that out by (auto simp: s'_def)
  have ww: "is_write (type_of s' x) \<and> cond_of s' x" if "x \<in> set (l_write_wait s)" for x
    using that assms by (auto simp: s'_def lock_inv_def queues_ok_def)
  have q: "l_read s' = l_read s" "l_read_wait s' = l_read_wait s" "l_write s' = l_write s"
    "l_write_wait s' = l_write_wait s" "l_read_no_write_count s' = l_read_no_write_count s"
    by (simp_all add: s'_def)
  have "no_insert_count s' (l_read s) = no_insert_count s (l_read s)"
    using same by (intro no_insert_count_cong) simp
  moreover have "sorted_wrt (\<lambda>w w'. covers (type_of s' w) (type_of s' w')) (l_write s) =
      sorted_wrt (\<lambda>w w'. covers (type_of s w) (type_of s w')) (l_write s)"
    using same by (intro sorted_wrt_cong) simp
  ultimately have "lock_inv s'"
    using assms(1) ww same unfolding lock_inv_def queues_ok_def writers_ok_def exclusion_def q by simp
  then show ?thesis by (simp add: s'_def)
qed

lemma lock_inv_filter:
  assumes "lock_inv s"
    and q: "l_read s' = filter P (l_read s)" "l_read_wait s' = filter P (l_read_wait s)"
      "l_write s' = filter P (l_write s)" "l_write_wait s' = filter P (l_write_wait s)"
    and same: "\<And>d. P d \<Longrightarrow> d \<in> set (l_read s @ l_read_wait s @ l_write s @ l_write_wait s) \<Longrightarrow> l_data s' d = l_data s d"
    and count: "l_read_no_write_count s' = no_insert_count s (filter P (l_read s))"
  shows "lock_inv s'"
proof -
  have n: "no_insert_count s' (filter P (l_read s)) = no_insert_count s (filter P (l_read s))"
    using same by (intro no_insert_count_cong) simp
  have "queues_ok s'"
    using assms(1) same n unfolding lock_inv_def queues_ok_def q count by auto
  moreover have "sorted_wrt (\<lambda>w w'. covers (type_of s' w) (type_of s' w')) (filter P (l_write s)) =
      sorted_wrt (\<lambda>w w'. covers (type_of s w) (type_of s w')) (filter P (l_write s))"
    using same by (intro sorted_wrt_cong) simp
  then have "writers_ok s'"
    using assms(1) same unfolding lock_inv_def writers_ok_def q
    by (auto simp: sorted_wrt_filter)
  moreover have "exclusion s'"
    using assms(1) same unfolding lock_inv_def exclusion_def q by simp
  ultimately show ?thesis by (simp add: lock_inv_def)
qed

lemma wake_up_free_lock:
  assumes "lock_inv s" and "l_write s = []" and "l_read s = []" and "l_write_wait s = d # ds"
  shows "lock_inv (wake_up_waiters g s) \<and> no_lost_wakeup (wake_up_waiters g s)"
proof (cases "type_of s d \<noteq> TL_WRITE_LOW_PRIORITY \<or> l_read_wait s = [] \<or> type_of s (hd (l_read_wait s)) < TL_READ_HIGH_PRIORITY")
  case False
  then have "wake_up_waiters g s = free_all_read_locks False s"
    using assms(2-4) by (simp add: wake_up_waiters_def Let_def)
  with False free_all_wakeup [OF assms(1), of False] assms(2) show ?thesis by simp
next
  case True
  define full where "full \<longleftrightarrow> l_write_lock_count s > max_write_lock_count g"
  define s1 where "s1 = s\<lparr>l_write_lock_count := (if full then 0 else l_write_lock_count s + 1)\<rparr>"
  have s1: "lock_inv s1" "l_write s1 = []" "l_read s1 = []" "l_write_wait s1 = d # ds" "l_read_wait s1 = l_read_wait s"
    using assms by (simp_all add: s1_def count_irrelevant)
  show ?thesis
  proof (cases "full \<and> l_read_wait s \<noteq> []")
    case full: True
    then have "wake_up_waiters g s = free_all_read_locks False s1"
      using assms(2-4) True by (simp add: wake_up_waiters_def Let_def full_def s1_def)
    with full s1 free_all_wakeup [OF s1(1), of False] show ?thesis by simp
  next
    case False
    obtain x s' where g: "grant_loop (l_write_wait s1) s1 = (x, s')" by (cases "grant_loop (l_write_wait s1) s1")
    note res = grant_then_free [OF s1(1-4) g]
    have "wake_up_waiters g s = (case x of None \<Rightarrow> s'
       | Some d \<Rightarrow> if type_of s' d \<ge> TL_WRITE_LOW_PRIORITY then s'
         else if l_read_wait s' \<noteq> [] then free_all_read_locks
           (type_of s' d = TL_WRITE_CONCURRENT_INSERT \<or> type_of s' d = TL_WRITE_ALLOW_WRITE) s' else s')"
      using assms(2-4) True False g
      by (auto simp: wake_up_waiters_def Let_def full_def [symmetric] s1_def [symmetric] split: option.split)
    with res show ?thesis by simp
  qed
qed

lemma wake_up_with_readers:
  assumes "lock_inv s" and "l_write s = []" and "l_read s \<noteq> []" and "l_write_wait s = d # ds"
  shows "lock_inv (wake_up_waiters g s) \<and> no_lost_wakeup (wake_up_waiters g s)"
proof -
  define lt where "lt = type_of s d"
  define may where "may \<longleftrightarrow> lt \<le> TL_WRITE_DELAYED \<and>
    (lt \<noteq> TL_WRITE_CONCURRENT_INSERT \<and> lt \<noteq> TL_WRITE_ALLOW_WRITE \<or> l_read_no_write_count s = 0)"
  define c where "c \<longleftrightarrow> lt = TL_WRITE_CONCURRENT_INSERT \<or> lt = TL_WRITE_ALLOW_WRITE"
  define t where "t = grant_with_readers lt (d # ds) s"
  define u where "u = set_type d TL_WRITE s"
  have eq: "wake_up_waiters g s =
     (if may then
        if lt = TL_WRITE_CONCURRENT_INSERT \<and> call_check_status d s
        then if l_read_wait u \<noteq> [] then free_all_read_locks False u else u
        else if l_read_wait t \<noteq> [] then free_all_read_locks c t else t
      else s)"
    unfolding may_def c_def t_def u_def lt_def
    by (simp add: wake_up_waiters_def Let_def assms(2-4) del: grant_with_readers.simps cong: if_cong)
  have "no_lost_wakeup s" using assms by (simp add: no_lost_wakeup_def)
  moreover have u: "lock_inv u" "l_write u = []" "no_lost_wakeup u"
    using assms set_waiting_type_inv [OF assms(1), of d TL_WRITE]
    by (simp_all add: u_def is_write_def type_order no_lost_wakeup_def)
  then have "l_read_wait u \<noteq> [] \<Longrightarrow>
      lock_inv (free_all_read_locks False u) \<and> no_lost_wakeup (free_all_read_locks False u)"
    by (intro free_all_wakeup) simp_all
  moreover have t: "lock_inv t \<and> l_write t \<noteq> [] \<and> (\<forall>w\<in>set (l_write t). type_of t w = lt)" if "may"
    using that grant_with_readers_inv [OF assms(1,4), of lt] assms(2)
    by (auto simp: t_def may_def lt_def)
  moreover have "lock_inv (free_all_read_locks c t) \<and> no_lost_wakeup (free_all_read_locks c t)"
    if "may" "l_read_wait t \<noteq> []"
    using t [OF that(1)] that by (intro free_all_wakeup) (auto simp: may_def c_def)
  ultimately show ?thesis
    using assms(1) u no_lost_wakeup_write [of t] unfolding eq by auto
qed

lemma wake_up_waiters_inv:
  assumes "lock_inv s"
  shows "lock_inv (wake_up_waiters g s) \<and> no_lost_wakeup (wake_up_waiters g s)"
proof (cases "l_write s = [] \<and> l_write_wait s \<noteq> []")
  case True
  then obtain d ds where "l_write_wait s = d # ds" by (cases "l_write_wait s") auto
  with True wake_up_free_lock [OF assms] wake_up_with_readers [OF assms] show ?thesis by blast
next
  case False
  then show ?thesis
    using assms free_all_wakeup [of s False]
    by (auto simp: wake_up_waiters_def Let_def no_lost_wakeup_def)
qed

section \<open>Lock requests\<close>

definition queued :: "lock_state \<Rightarrow> nat \<Rightarrow> bool" where
  "queued s d \<longleftrightarrow> d \<in> set (l_read s @ l_read_wait s @ l_write s @ l_write_wait s)"

text \<open>The effect of an operation on one instance \<open>d\<close>: the rest of the store is unchanged.\<close>

definition only :: "nat \<Rightarrow> lock_state \<Rightarrow> lock_state \<Rightarrow> bool" where
  "only d s s' \<longleftrightarrow> (\<forall>x. x \<noteq> d \<longrightarrow> l_data s' x = l_data s x)"

lemma fresh:
  assumes "\<not> queued s d"
  shows "d \<notin> set (l_read s)" "d \<notin> set (l_read_wait s)" "d \<notin> set (l_write s)" "d \<notin> set (l_write_wait s)"
  using assms by (auto simp: queued_def)

lemma fresh_same:
  assumes "\<not> queued s d" and "only d s s'"
  shows "\<forall>x\<in>set (l_read s). l_data s' x = l_data s x" "\<forall>x\<in>set (l_read_wait s). l_data s' x = l_data s x"
    and "\<forall>x\<in>set (l_write s). l_data s' x = l_data s x" "\<forall>x\<in>set (l_write_wait s). l_data s' x = l_data s x"
    and "no_insert_count s' (l_read s) = no_insert_count s (l_read s)"
    and "sorted_wrt (\<lambda>w w'. covers (type_of s' w) (type_of s' w')) (l_write s) =
      sorted_wrt (\<lambda>w w'. covers (type_of s w) (type_of s w')) (l_write s)"
proof -
  show r: "\<forall>x\<in>set (l_read s). l_data s' x = l_data s x" "\<forall>x\<in>set (l_read_wait s). l_data s' x = l_data s x"
    and w: "\<forall>x\<in>set (l_write s). l_data s' x = l_data s x" "\<forall>x\<in>set (l_write_wait s). l_data s' x = l_data s x"
    using fresh [OF assms(1)] assms(2) unfolding only_def by metis+
  show "no_insert_count s' (l_read s) = no_insert_count s (l_read s)"
    using r(1) by (intro no_insert_count_cong) simp
  show "sorted_wrt (\<lambda>w w'. covers (type_of s' w) (type_of s' w')) (l_write s) =
      sorted_wrt (\<lambda>w w'. covers (type_of s w) (type_of s w')) (l_write s)"
    using w(1) by (intro sorted_wrt_cong) simp
qed

lemma add_read_inv:
  assumes "lock_inv s" "\<not> queued s d" "only d s s'"
    and q: "l_read s' = l_read s @ [d]" "l_read_wait s' = l_read_wait s" "l_write s' = l_write s"
      "l_write_wait s' = l_write_wait s"
      "l_read_no_write_count s' = l_read_no_write_count s + (if type_of s' d = TL_READ_NO_INSERT then 1 else 0)"
    and d: "is_read (type_of s' d)" "\<not> cond_of s' d"
    and c: "\<And>w. w \<in> set (l_write s) \<Longrightarrow> owner_of s' d \<noteq> owner_of s w \<Longrightarrow> compatible (type_of s' d) (type_of s w)"
  shows "lock_inv s'"
proof -
  note new = fresh(1-4) [OF assms(2)] and same = fresh_same [OF assms(2,3)]
  have "queues_ok s'"
    using assms(1) new same d unfolding lock_inv_def queues_ok_def q by auto
  moreover have "writers_ok s'" using assms(1) same unfolding lock_inv_def writers_ok_def q by simp
  moreover have "exclusion s'" using assms(1) same(1,3) c by (simp add: lock_inv_def exclusion_def q ball_Un)
  ultimately show ?thesis by (simp add: lock_inv_def)
qed

lemma add_write_inv:
  assumes "lock_inv s" "\<not> queued s d" "only d s s'"
    and q: "l_read s' = l_read s" "l_read_wait s' = l_read_wait s" "l_write s' = l_write s @ [d]"
      "l_write_wait s' = l_write_wait s" "l_read_no_write_count s' = l_read_no_write_count s"
    and d: "is_write (type_of s' d)" "\<not> cond_of s' d"
    and w: "(\<forall>w\<in>set (l_write s). type_of s w = TL_WRITE_ALLOW_WRITE) \<and> type_of s' d = TL_WRITE_ALLOW_WRITE \<or>
      (\<forall>w\<in>set (l_write s). owner_of s w = owner_of s' d)"
      "\<And>w. w \<in> set (l_write s) \<Longrightarrow> covers (type_of s w) (type_of s' d) \<and> type_of s w \<noteq> TL_WRITE_DELAYED"
      "type_of s' d = TL_WRITE_DELAYED \<Longrightarrow> l_write s = []"
    and c: "\<And>r. r \<in> set (l_read s) \<Longrightarrow> owner_of s r \<noteq> owner_of s' d \<Longrightarrow> compatible (type_of s r) (type_of s' d)"
  shows "lock_inv s'"
proof -
  note new = fresh(1-4) [OF assms(2)] and same = fresh_same [OF assms(2,3)]
  have "queues_ok s'"
    using assms(1) new same d unfolding lock_inv_def queues_ok_def q by auto
  moreover have "writers_ok s'"
  proof -
    have "sorted_wrt (\<lambda>w w'. covers (type_of s' w) (type_of s' w')) (l_write s @ [d])"
      using assms(1) same(3,6) w(2) by (simp add: lock_inv_def writers_ok_def sorted_wrt_append)
    moreover have "(\<forall>x\<in>set (l_write s @ [d]). type_of s' x = TL_WRITE_ALLOW_WRITE) \<or>
        (\<forall>x\<in>set (l_write s @ [d]). \<forall>y\<in>set (l_write s @ [d]). owner_of s' x = owner_of s' y)"
      using w(1) same(3) by auto
    moreover have "\<forall>x\<in>set (l_write s @ [d]). type_of s' x = TL_WRITE_DELAYED \<longrightarrow> l_write s @ [d] = [x]"
      using w(2,3) same(3) by auto
    ultimately show ?thesis unfolding writers_ok_def q by blast
  qed
  moreover have "exclusion s'" using assms(1) same(1,3) c by (simp add: lock_inv_def exclusion_def q ball_Un)
  ultimately show ?thesis by (simp add: lock_inv_def)
qed

text \<open>A new waiter, at either end of its queue.\<close>

lemma add_waiter_inv:
  assumes "lock_inv s" "\<not> queued s d" "only d s s'"
    and q: "l_read s' = l_read s" "l_write s' = l_write s" "l_read_no_write_count s' = l_read_no_write_count s"
    and d: "cond_of s' d"
    and w: "l_read_wait s' = l_read_wait s @ [d] \<and> l_write_wait s' = l_write_wait s \<and> is_read (type_of s' d) \<or>
      l_read_wait s' = l_read_wait s \<and> is_write (type_of s' d) \<and>
      (l_write_wait s' = l_write_wait s @ [d] \<or> l_write_wait s' = d # l_write_wait s)"
  shows "lock_inv s'"
proof -
  note new = fresh(1-4) [OF assms(2)] and same = fresh_same [OF assms(2,3)]
  have "queues_ok s'"
    using w
  proof (elim disjE conjE)
    assume w: "l_read_wait s' = l_read_wait s @ [d]" "l_write_wait s' = l_write_wait s" "is_read (type_of s' d)"
    show ?thesis
      using assms(1) new same(1-5) d w(3) by (simp add: lock_inv_def queues_ok_def q w(1,2))
  next
    assume w: "l_read_wait s' = l_read_wait s" "is_write (type_of s' d)" "l_write_wait s' = l_write_wait s @ [d]"
    show ?thesis
      using assms(1) new same(1-5) d w(2) by (simp add: lock_inv_def queues_ok_def q w(1,3))
  next
    assume w: "l_read_wait s' = l_read_wait s" "is_write (type_of s' d)" "l_write_wait s' = d # l_write_wait s"
    show ?thesis
      using assms(1) new same(1-5) d w(2) by (simp add: lock_inv_def queues_ok_def q w(1,3))
  qed
  moreover have "writers_ok s'" using assms(1) same unfolding lock_inv_def writers_ok_def q by simp
  moreover have "exclusion s'" using assms(1) same unfolding lock_inv_def exclusion_def q by simp
  ultimately show ?thesis by (simp add: lock_inv_def)
qed

lemma unqueued_data_inv:
  assumes "lock_inv s" "\<not> queued s d" "only d s s'"
    and "l_read s' = l_read s" "l_read_wait s' = l_read_wait s" "l_write s' = l_write s"
      "l_write_wait s' = l_write_wait s" "l_read_no_write_count s' = l_read_no_write_count s"
  shows "lock_inv s'"
proof (rule lock_inv_filter [OF assms(1), where P = "\<lambda>_. True"])
  show "l_data s' x = l_data s x" if "x \<in> set (l_read s @ l_read_wait s @ l_write s @ l_write_wait s)" for x
    using that assms(2,3) unfolding queued_def only_def by metis
  show "l_read_no_write_count s' = no_insert_count s (filter (\<lambda>_. True) (l_read s))"
    using assms(1,8) by (simp add: lock_inv_def queues_ok_def)
qed (use assms in simp_all)

lemma has_old_lock_iff: "has_old_lock s ds owner \<longleftrightarrow> (\<exists>d\<in>set ds. owner_of s d = owner)"
  by (induction ds) (auto simp: thr_lock_owner_equal_def)

lemma have_specific_lock_iff: "have_specific_lock s ds t \<longleftrightarrow> (\<exists>d\<in>set ds. type_of s d = t)"
  by (induction ds) auto

lemma grant_read_sel:
  "l_read (grant_read d s) = l_read s @ [d]" "l_read_wait (grant_read d s) = l_read_wait s"
  "l_write (grant_read d s) = l_write s" "l_write_wait (grant_read d s) = l_write_wait s"
  "l_data (grant_read d s) = l_data s"
  "l_read_no_write_count (grant_read d s) =
     l_read_no_write_count s + (if type_of s d = TL_READ_NO_INSERT then 1 else 0)"
  by (simp_all add: grant_read_def Let_def)

lemma grant_write_sel:
  "l_read (grant_write d c s) = l_read s" "l_read_wait (grant_write d c s) = l_read_wait s"
  "l_write (grant_write d c s) = l_write s @ [d]" "l_write_wait (grant_write d c s) = l_write_wait s"
  "l_data (grant_write d c s) = l_data s" "l_read_no_write_count (grant_write d c s) = l_read_no_write_count s"
  by (simp_all add: grant_write_def)

lemma wait_for_lock_begin_sel:
  "l_read (wait_for_lock_begin q b d s) = l_read s" "l_write (wait_for_lock_begin q b d s) = l_write s"
  "l_read_no_write_count (wait_for_lock_begin q b d s) = l_read_no_write_count s"
  "l_read_wait (wait_for_lock_begin Wait_read False d s) = l_read_wait s @ [d]"
  "l_write_wait (wait_for_lock_begin Wait_read False d s) = l_write_wait s"
  "l_read_wait (wait_for_lock_begin Wait_write b d s) = l_read_wait s"
  "l_write_wait (wait_for_lock_begin Wait_write b d s) = l_write_wait s @ (if b then [] else [d])"
  "l_data (wait_for_lock_begin q b d s) = (l_data s)(d := (l_data s d)\<lparr>d_cond := True\<rparr>)"
  by (simp_all add: wait_for_lock_begin_def Let_def)

lemma set_type_unqueued_inv:
  assumes "lock_inv s" and "\<not> queued s d"
  shows "lock_inv (set_type d t s)"
  by (rule unqueued_data_inv [OF assms]) (simp_all add: only_def)

text \<open>The active writers a read request is compatible with.\<close>

lemma read_compatible:
  assumes "lock_inv s" and "l_write s = w # ws" and "is_read t"
    and "owner = owner_of s w \<or>
      type_of s w \<le> TL_WRITE_DELAYED \<and> (t \<le> TL_READ_HIGH_PRIORITY \<or> type_of s w \<noteq> TL_WRITE_CONCURRENT_INSERT)"
    and "x \<in> set (l_write s)" and "owner \<noteq> owner_of s x"
  shows "compatible t (type_of s x)"
proof -
  have wr: "is_write (type_of s w)" "is_write (type_of s x)"
    using assms(1,2,5) by (auto simp: lock_inv_def queues_ok_def)
  have grp: "type_of s x = TL_WRITE_ALLOW_WRITE \<or> owner_of s x = owner_of s w"
    using assms(1,2,5) by (auto simp: lock_inv_def writers_ok_def)
  have cov: "x = w \<or> covers (type_of s w) (type_of s x)"
    using assms(1,2,5) by (auto simp: lock_inv_def writers_ok_def)
  have del: "type_of s w = TL_WRITE_DELAYED \<Longrightarrow> x = w"
    using assms(1,2,5) by (auto simp: lock_inv_def writers_ok_def)
  show ?thesis
  proof (cases "type_of s x = TL_WRITE_ALLOW_WRITE")
    case True
    then show ?thesis by (simp add: compatible_def type_order)
  next
    case False
    with grp assms(4,6) have c: "type_of s w \<le> TL_WRITE_DELAYED"
      "t \<le> TL_READ_HIGH_PRIORITY \<or> type_of s w \<noteq> TL_WRITE_CONCURRENT_INSERT" by auto
    with wr cov del show ?thesis
      unfolding compatible_def
      by (cases "type_of s w"; cases "type_of s x") (auto simp: covers_def is_write_def type_order)
  qed
qed

lemma thr_lock_read_inv:
  assumes "lock_inv s" and "no_lost_wakeup s" and "\<not> queued s d" and "is_read (type_of s d)" and "\<not> cond_of s d"
    and "thr_lock_read d s = (r, s')"
  shows "lock_inv s' \<and> no_lost_wakeup s'"
proof -
  have grant: "lock_inv (grant_read d s) \<and> no_lost_wakeup (grant_read d s)"
    if "\<And>w. w \<in> set (l_write s) \<Longrightarrow> owner_of s d \<noteq> owner_of s w \<Longrightarrow> compatible (type_of s d) (type_of s w)"
  proof
    show "lock_inv (grant_read d s)"
      using assms that by (intro add_read_inv [OF assms(1,3)]) (simp_all add: only_def grant_read_sel)
    show "no_lost_wakeup (grant_read d s)"
      using assms(2) by (auto simp: no_lost_wakeup_def grant_read_sel)
  qed
  have wait: "lock_inv (wait_for_lock_begin Wait_read False d s)"
    using assms by (intro add_waiter_inv [OF assms(1,3)]) (simp_all add: only_def wait_for_lock_begin_sel)
  show ?thesis
  proof (cases "l_write s")
    case Nil
    then show ?thesis
      using assms(2,6) grant wait
      by (auto simp: thr_lock_read_def Let_def no_lost_wakeup_def wait_for_lock_begin_sel split: if_splits)
  next
    case (Cons w ws)
    then show ?thesis
      using assms(6) wait grant read_compatible [OF assms(1) Cons assms(4)]
        set_type_unqueued_inv [OF assms(1,3), of TL_UNLOCK]
      by (auto simp: thr_lock_read_def Let_def thr_lock_owner_equal_def no_lost_wakeup_write
          wait_for_lock_begin_sel split: if_splits)
  qed
qed

definition globals_ok :: "lock_globals \<Rightarrow> bool" where
  "globals_ok g \<longleftrightarrow> thr_upgraded_concurrent_insert_lock g \<in> {TL_WRITE, TL_WRITE_LOW_PRIORITY}"

text \<open>The order of requests that \<open>thr_multi_lock\<close> follows and \<open>thr_lock\<close> asserts: a thread that
  already has write locks asks for one that they cover.\<close>

definition write_order_ok :: "lock_state \<Rightarrow> nat option \<Rightarrow> thr_lock_type \<Rightarrow> bool" where
  "write_order_ok s owner t \<longleftrightarrow> has_old_lock s (l_write s) owner \<longrightarrow>
     (\<forall>w\<in>set (l_write s). covers (type_of s w) t \<and> type_of s w \<noteq> TL_WRITE_DELAYED)"

lemma queued_set_type [simp]: "queued (set_type d t s) x = queued s x"
  by (simp add: queued_def)

lemma grant_write_ok:
  assumes "lock_inv s" and "\<not> queued s d" and "is_write (type_of s d)" and "\<not> cond_of s d"
    and "l_write s = [] \<or> type_of s d = TL_WRITE_ALLOW_WRITE \<and> type_of s (hd (l_write s)) = TL_WRITE_ALLOW_WRITE \<or>
      type_of s d \<noteq> TL_WRITE_DELAYED \<and> has_old_lock s (l_write s) (owner_of s d) \<and>
      write_order_ok s (owner_of s d) (type_of s d)"
    and "l_write s = [] \<Longrightarrow> l_read s = [] \<or> type_of s d \<le> TL_WRITE_DELAYED \<and>
      (type_of s d \<noteq> TL_WRITE_CONCURRENT_INSERT \<and> type_of s d \<noteq> TL_WRITE_ALLOW_WRITE \<or> l_read_no_write_count s = 0)"
  shows "lock_inv (grant_write d c s) \<and> no_lost_wakeup (grant_write d c s)"
proof
  have q: "queues_ok s" "writers_ok s" "exclusion s" using assms(1) by (simp_all add: lock_inv_def)
  have wr: "is_write (type_of s w)" if "w \<in> set (l_write s)" for w
    using q(1) that by (simp add: queues_ok_def)
  have allow: "\<forall>w\<in>set (l_write s). type_of s w = TL_WRITE_ALLOW_WRITE"
    if "l_write s \<noteq> []" "type_of s (hd (l_write s)) = TL_WRITE_ALLOW_WRITE"
  proof
    fix w assume w: "w \<in> set (l_write s)"
    from that obtain h ws where h: "l_write s = h # ws" "type_of s h = TL_WRITE_ALLOW_WRITE"
      by (cases "l_write s") auto
    with w q(2) have "w = h \<or> covers (type_of s h) (type_of s w)" by (auto simp: writers_ok_def)
    with h(2) wr [OF w] show "type_of s w = TL_WRITE_ALLOW_WRITE"
      by (cases "type_of s w") (auto simp: covers_def is_write_def type_order)
  qed
  have own: "\<forall>w\<in>set (l_write s). covers (type_of s w) (type_of s d) \<and> type_of s w \<noteq> TL_WRITE_DELAYED"
  proof (cases "l_write s = []")
    case False
    with assms(5) allow show ?thesis unfolding write_order_ok_def by (elim disjE conjE) (simp_all add: covers_def)
  qed simp
  have grp: "(\<forall>w\<in>set (l_write s). type_of s w = TL_WRITE_ALLOW_WRITE) \<and> type_of s d = TL_WRITE_ALLOW_WRITE \<or>
      (\<forall>w\<in>set (l_write s). owner_of s w = owner_of s d)"
  proof (cases "\<forall>w\<in>set (l_write s). type_of s w = TL_WRITE_ALLOW_WRITE")
    case True
    show ?thesis
    proof (cases "l_write s")
      case (Cons w ws)
      with True own have "covers TL_WRITE_ALLOW_WRITE (type_of s d)" by (metis list.set_intros(1))
      with assms(3) have "type_of s d = TL_WRITE_ALLOW_WRITE"
        by (cases "type_of s d") (auto simp: covers_def is_write_def type_order)
      with True show ?thesis by blast
    qed simp
  next
    case False
    with allow assms(5) have "has_old_lock s (l_write s) (owner_of s d)" by (cases "l_write s") auto
    with False q(2) show ?thesis unfolding has_old_lock_iff writers_ok_def by metis
  qed
  have comp: "compatible (type_of s r) (type_of s d)"
    if r: "r \<in> set (l_read s)" "owner_of s r \<noteq> owner_of s d" for r
  proof (cases "l_write s")
    case Nil
    then show ?thesis
      using assms(6) r(1) q(1) by (auto simp: compatible_def queues_ok_def no_insert_count_def filter_empty_conv)
  next
    case (Cons w ws)
    show ?thesis
    proof (cases "type_of s d = TL_WRITE_ALLOW_WRITE")
      case True
      then show ?thesis by (simp add: compatible_def type_order)
    next
      case False
      with grp have "owner_of s w = owner_of s d" using Cons by simp
      with r q(3) Cons have "compatible (type_of s r) (type_of s w)" by (simp add: exclusion_def)
      moreover have "covers (type_of s w) (type_of s d)" "type_of s w \<noteq> TL_WRITE_DELAYED" "is_write (type_of s w)"
        using own wr Cons by simp_all
      ultimately show ?thesis using assms(3)
        by (cases "type_of s w"; cases "type_of s d") (auto simp: compatible_def covers_def is_write_def type_order)
    qed
  qed
  show "lock_inv (grant_write d c s)"
    using assms(3,4,5) grp own comp
    by (intro add_write_inv [OF assms(1,2)]) (auto simp: only_def grant_write_sel)
  show "no_lost_wakeup (grant_write d c s)" by (simp add: no_lost_wakeup_write grant_write_sel)
qed

text \<open>The type a request is made with, after the upgrade of a concurrent insert on a table that
  does not support it.\<close>

definition effective :: "lock_globals \<Rightarrow> lock_state \<Rightarrow> thr_lock_type \<Rightarrow> thr_lock_type" where
  "effective g s t =
     (if t = TL_WRITE_CONCURRENT_INSERT \<and> l_check_status s = None
      then thr_upgraded_concurrent_insert_lock g else t)"

lemma is_write_effective: "globals_ok g \<Longrightarrow> is_write t \<Longrightarrow> is_write (effective g s t)"
  by (auto simp: globals_ok_def effective_def is_write_def type_order)

lemma wait_write_inv:
  assumes "lock_inv s" and "\<not> queued s d" and "is_write (type_of s d)"
    and "l_write s = [] \<Longrightarrow> l_read s \<noteq> []"
  shows "lock_inv (wait_for_lock_begin Wait_write False d s) \<and>
    no_lost_wakeup (wait_for_lock_begin Wait_write False d s)"
proof
  show "lock_inv (wait_for_lock_begin Wait_write False d s)"
    using assms by (intro add_waiter_inv [OF assms(1,2)]) (simp_all add: only_def wait_for_lock_begin_sel)
  show "no_lost_wakeup (wait_for_lock_begin Wait_write False d s)"
    using assms(4) by (auto simp: no_lost_wakeup_def wait_for_lock_begin_sel)
qed

text \<open>The write request after the upgrade, with and without an active writer.\<close>

lemma write_request_held:
  assumes "lock_inv s" and "\<not> queued s d" and "is_write (type_of s d)" and "\<not> cond_of s d"
    and "write_order_ok s (owner_of s d) (type_of s d)" and "type_of s d \<noteq> TL_WRITE_DELAYED" and "l_write s = w # ws"
    and "(if type_of s w = TL_WRITE_ONLY \<and> \<not> thr_lock_owner_equal (owner_of s d) (owner_of s w)
       then (Done THR_LOCK_ABORTED, set_type d TL_UNLOCK s)
       else if type_of s d = TL_WRITE_ALLOW_WRITE \<and> l_write_wait s = [] \<and> type_of s w = TL_WRITE_ALLOW_WRITE \<or>
               has_old_lock s (l_write s) (owner_of s d)
       then (Done THR_LOCK_SUCCESS, grant_write d False s)
       else (Wait_write, wait_for_lock_begin Wait_write False d s)) = (r, s')"
  shows "lock_inv s' \<and> no_lost_wakeup s'"
  using assms(8) set_type_unqueued_inv [OF assms(1,2), of TL_UNLOCK] grant_write_ok [OF assms(1-4), of False]
    wait_write_inv [OF assms(1-3)] assms(5-7)
  by (auto simp: no_lost_wakeup_write split: if_splits)

lemma write_request_free:
  assumes "lock_inv s" and "no_lost_wakeup s" and "\<not> queued s d" and "is_write (type_of s d)" and "\<not> cond_of s d"
    and "l_write s = []" and "l_write_wait s = []"
    and "(if l_read s = [] \<or> type_of s d \<le> TL_WRITE_DELAYED \<and>
             (type_of s d \<noteq> TL_WRITE_CONCURRENT_INSERT \<and> type_of s d \<noteq> TL_WRITE_ALLOW_WRITE \<or>
              l_read_no_write_count s = 0)
       then (Done THR_LOCK_SUCCESS, grant_write d c s)
       else (Wait_write, wait_for_lock_begin Wait_write False d s)) = (r, s')"
  shows "lock_inv s' \<and> no_lost_wakeup s'"
  using assms(8) grant_write_ok [OF assms(1,3-5), of c] wait_write_inv [OF assms(1,3,4)] assms(6)
  by (auto split: if_splits)

lemma thr_lock_write_inv:
  assumes "globals_ok g" and "lock_inv s" and "no_lost_wakeup s" and "\<not> queued s d" and "is_write (type_of s d)"
    and "\<not> cond_of s d" and "write_order_ok s (owner_of s d) (effective g s (type_of s d))"
    and "thr_lock_write g d s = (r, s')"
  shows "lock_inv s' \<and> no_lost_wakeup s'"
proof (cases "type_of s d = TL_WRITE_DELAYED \<and> (l_write s \<noteq> [] \<or> l_read s \<noteq> [])")
  case True
  let ?q = "emit Lock_immediate (set_cond d True (s\<lparr>l_write_wait := l_write_wait s @ [d]\<rparr>))"
  have "lock_inv ?q"
    using assms(5) by (intro add_waiter_inv [OF assms(2,4)]) (simp_all add: only_def)
  moreover have "no_lost_wakeup ?q" using True assms(3) by (auto simp: no_lost_wakeup_def)
  moreover have "lock_inv (set_type d TL_UNLOCK s)" by (rule set_type_unqueued_inv [OF assms(2,4)])
  moreover have "no_lost_wakeup (set_type d TL_UNLOCK s)" using assms(3) by (simp add: no_lost_wakeup_def)
  ultimately show ?thesis
    using True assms(8) by (auto simp: thr_lock_write_def Let_def split: if_splits)
next
  case False
  define s1 where "s1 = (if type_of s d = TL_WRITE_CONCURRENT_INSERT \<and> l_check_status s = None
    then set_type d (thr_upgraded_concurrent_insert_lock g) s else s)"
  have s1: "lock_inv s1" "no_lost_wakeup s1" "\<not> queued s1 d" "\<not> cond_of s1 d" "l_write s1 = l_write s"
    "l_read s1 = l_read s" "l_write_wait s1 = l_write_wait s"
    using assms set_type_unqueued_inv [OF assms(2,4)] by (simp_all add: s1_def no_lost_wakeup_def)
  have ty: "type_of s1 d = effective g s (type_of s d)" "owner_of s1 d = owner_of s d"
    by (simp_all add: s1_def effective_def)
  have wr: "is_write (type_of s1 d)" unfolding ty(1) using assms(1,5) by (rule is_write_effective)
  have "\<forall>x\<in>set (l_write s). l_data s1 x = l_data s x"
    using fresh [OF assms(4)] by (auto simp: s1_def)
  then have ord: "write_order_ok s1 (owner_of s1 d) (type_of s1 d)"
    using assms(7) unfolding ty by (simp add: write_order_ok_def has_old_lock_iff s1(5))
  show ?thesis
  proof (cases "l_write s1")
    case (Cons w ws)
    then have nd: "type_of s1 d \<noteq> TL_WRITE_DELAYED"
      using False s1(5) assms(1) ty(1) by (auto simp: effective_def globals_ok_def)
    from Cons assms(8) False show ?thesis
      by (intro write_request_held [OF s1(1,3) wr s1(4) ord nd Cons])
        (auto simp: thr_lock_write_def Let_def s1_def [symmetric] s1(5) split: if_splits)
  next
    case Nil
    define s2 where "s2 = (if type_of s1 d = TL_WRITE_CONCURRENT_INSERT \<and> call_check_status d s1
      then set_type d (thr_upgraded_concurrent_insert_lock g) s1 else s1)"
    define c where "c \<longleftrightarrow> type_of s1 d = TL_WRITE_CONCURRENT_INSERT \<and> \<not> call_check_status d s1"
    have eq: "thr_lock_write g d s = (if l_write_wait s1 \<noteq> [] then (Wait_write, wait_for_lock_begin Wait_write False d s1)
        else if l_read s2 = [] \<or> type_of s2 d \<le> TL_WRITE_DELAYED \<and>
             (type_of s2 d \<noteq> TL_WRITE_CONCURRENT_INSERT \<and> type_of s2 d \<noteq> TL_WRITE_ALLOW_WRITE \<or>
              l_read_no_write_count s2 = 0)
       then (Done THR_LOCK_SUCCESS, grant_write d c s2)
       else (Wait_write, wait_for_lock_begin Wait_write False d s2))"
    proof -
      have "(type_of s d = TL_WRITE_DELAYED \<and> l_write s \<noteq> [] \<and> type_of s (hd (l_write s)) = TL_WRITE_ONLY) = False"
        "(type_of s d = TL_WRITE_DELAYED \<and> (l_write s \<noteq> [] \<or> l_read s \<noteq> [])) = False" using False by blast+
      then show ?thesis
        unfolding thr_lock_write_def s2_def c_def s1_def [symmetric] Let_def
        by (simp only: if_False Nil list.case)
    qed
    have s2: "lock_inv s2" "no_lost_wakeup s2" "\<not> queued s2 d" "is_write (type_of s2 d)" "\<not> cond_of s2 d"
      "l_write s2 = []" "l_write_wait s2 = l_write_wait s1"
      using s1 wr Nil set_type_unqueued_inv [OF s1(1,3)] assms(1)
      by (auto simp: s2_def no_lost_wakeup_def globals_ok_def is_write_def type_order)
    show ?thesis
    proof (cases "l_write_wait s1 = []")
      case True
      show ?thesis
        using eq True assms(8) s2(7)
        by (intro write_request_free [OF s2(1-6), of c r]) (auto split: if_splits)
    next
      case False
      with eq assms(8) have "s' = wait_for_lock_begin Wait_write False d s1" by simp
      with wait_write_inv [OF s1(1,3) wr] False s1(2) Nil show ?thesis by (auto simp: no_lost_wakeup_def)
    qed
  qed
qed

end
