(* ===== verification/TableLockSteps.thy ===== *)
theory TableLockSteps
  imports TableLockInv
begin

text \<open>
  Every operation of \<open>TableLock\<close> as a step of one table lock, the states reachable by them, and
  the invariants of those states.
\<close>

section \<open>Operations keep the invariant\<close>

lemma lock_inv_cong: "same_lock s s' \<Longrightarrow> lock_inv s \<Longrightarrow> lock_inv s'"
  using same_lock_inv by blast

lemma thr_lock_inv:
  assumes "globals_ok g" and "lock_inv s" and "no_lost_wakeup s" and "\<not> queued s d" and "is_read t \<or> is_write t"
    and "is_write t \<Longrightarrow> write_order_ok s (Some owner) (effective g s t)"
    and "thr_lock g d owner t s = (r, s')"
  shows "lock_inv s' \<and> no_lost_wakeup s'"
proof -
  define s0 where "s0 = s\<lparr>l_data := (l_data s)(d := (l_data s d)\<lparr>d_cond := False, d_type := t, d_owner := Some owner\<rparr>)\<rparr>"
  have o: "only d s s0" by (simp add: only_def s0_def)
  have q: "l_read s0 = l_read s" "l_read_wait s0 = l_read_wait s" "l_write s0 = l_write s"
    "l_write_wait s0 = l_write_wait s" "l_read_no_write_count s0 = l_read_no_write_count s"
    "l_check_status s0 = l_check_status s" by (simp_all add: s0_def)
  have inv: "lock_inv s0" by (rule unqueued_data_inv [OF assms(2,4) o q(1-5)])
  have s0: "no_lost_wakeup s0" "\<not> queued s0 d" "type_of s0 d = t" "\<not> cond_of s0 d" "owner_of s0 d = Some owner"
    using assms(3,4) by (simp_all add: s0_def no_lost_wakeup_def queued_def)
  have "write_order_ok s0 (owner_of s0 d) (effective g s0 t)" if "is_write t"
    using assms(6) [OF that] fresh_same(3) [OF assms(4) o]
    by (simp add: write_order_ok_def has_old_lock_iff effective_def q s0(5))
  moreover have "t \<le> TL_READ_NO_INSERT \<longleftrightarrow> is_read t"
    using assms(5) by (auto simp: is_read_def is_write_def type_order)
  ultimately show ?thesis
    using assms(1,5,7) thr_lock_read_inv [OF inv s0(1,2) _ s0(4)] thr_lock_write_inv [OF _ inv s0(1,2) _ s0(4)] s0(3)
    by (auto simp: thr_lock_def Let_def s0_def [symmetric] split: if_splits)
qed

lemma remove1_filter: "distinct xs \<Longrightarrow> remove1 d xs = filter (\<lambda>x. x \<noteq> d) xs"
  by (simp add: distinct_remove1_removeAll removeAll_filter_not_eq eq_commute [of d])

lemma filter_other: "d \<notin> set xs \<Longrightarrow> filter (\<lambda>x. x \<noteq> d) xs = xs"
  by (induction xs) auto

lemma no_insert_count_remove:
  "distinct ds \<Longrightarrow> no_insert_count s ds = no_insert_count s (filter (\<lambda>x. x \<noteq> d) ds) +
    (if d \<in> set ds \<and> type_of s d = TL_READ_NO_INSERT then 1 else 0)"
proof (induction ds)
  case (Cons a ds)
  then show ?case by (cases "a = d") (simp_all add: filter_other)
qed simp

text \<open>Taking one instance out of the queue that holds it.\<close>

lemma take_out_inv:
  assumes "lock_inv s" and "only d s s'"
    and "l_read s' = remove1 d (l_read s)" "l_read_wait s' = remove1 d (l_read_wait s)"
      "l_write s' = remove1 d (l_write s)" "l_write_wait s' = remove1 d (l_write_wait s)"
    and "l_read_no_write_count s' =
      l_read_no_write_count s - (if d \<in> set (l_read s) \<and> type_of s d = TL_READ_NO_INSERT then 1 else 0)"
  shows "lock_inv s'"
proof (rule lock_inv_filter [OF assms(1), where P = "\<lambda>x. x \<noteq> d"])
  have dist: "distinct (l_read s)" "distinct (l_read_wait s)" "distinct (l_write s)" "distinct (l_write_wait s)"
    using assms(1) by (auto simp: lock_inv_def queues_ok_def)
  show "l_read s' = filter (\<lambda>x. x \<noteq> d) (l_read s)" "l_read_wait s' = filter (\<lambda>x. x \<noteq> d) (l_read_wait s)"
    "l_write s' = filter (\<lambda>x. x \<noteq> d) (l_write s)" "l_write_wait s' = filter (\<lambda>x. x \<noteq> d) (l_write_wait s)"
    using assms(3-6) dist by (simp_all add: remove1_filter)
  have "no_insert_count s (l_read s) = no_insert_count s (filter (\<lambda>x. x \<noteq> d) (l_read s)) +
      (if d \<in> set (l_read s) \<and> type_of s d = TL_READ_NO_INSERT then 1 else 0)"
    by (rule no_insert_count_remove [OF dist(1)])
  with assms(1,7) show "l_read_no_write_count s' = no_insert_count s (filter (\<lambda>x. x \<noteq> d) (l_read s))"
    by (simp add: lock_inv_def queues_ok_def)
qed (use assms(2) in \<open>simp add: only_def\<close>)

lemma thr_unlock_inv:
  assumes "lock_inv s" and "d \<in> set (l_read s) \<or> d \<in> set (l_write s) \<or>
      d \<in> set (l_write_wait s) \<and> type_of s d = TL_WRITE_DELAYED"
  shows "lock_inv (thr_unlock g d s) \<and> no_lost_wakeup (thr_unlock g d s)"
proof -
  define s1 where "s1 = (if type_of s d \<le> TL_READ_NO_INSERT then s\<lparr>l_read := remove1 d (l_read s)\<rparr>
    else if type_of s d = TL_WRITE_DELAYED \<and> cond_of s d then s\<lparr>l_write_wait := remove1 d (l_write_wait s)\<rparr>
    else s\<lparr>l_write := remove1 d (l_write s)\<rparr>)"
  define s2 where "s2 = (if type_of s d \<ge> TL_WRITE_CONCURRENT_INSERT
    then if l_update_status s1 then emit (Update_status (d_status_param (l_data s1 d))) s1 else s1
    else if l_restore_status s1 then emit (Restore_status (d_status_param (l_data s1 d))) s1 else s1)"
  define s3 where "s3 = set_type d TL_UNLOCK (if type_of s d = TL_READ_NO_INSERT
    then s2\<lparr>l_read_no_write_count := l_read_no_write_count s2 - 1\<rparr> else s2)"
  have eq: "thr_unlock g d s = wake_up_waiters g s3"
    unfolding thr_unlock_def s3_def s2_def s1_def Let_def by simp
  have kind: "d \<in> set (l_read s) \<longleftrightarrow> type_of s d \<le> TL_READ_NO_INSERT"
    "d \<in> set (l_write_wait s) \<longleftrightarrow> type_of s d = TL_WRITE_DELAYED \<and> cond_of s d"
    "d \<notin> set (l_read_wait s)"
    using assms by (auto simp: lock_inv_def queues_ok_def is_read_def is_write_def type_order)
  have s12: "l_read s2 = l_read s1" "l_read_wait s2 = l_read_wait s1" "l_write s2 = l_write s1"
    "l_write_wait s2 = l_write_wait s1" "l_data s2 = l_data s1" "l_read_no_write_count s2 = l_read_no_write_count s1"
    by (simp_all add: s2_def)
  have "lock_inv s3"
  proof (rule take_out_inv [OF assms(1)])
    show "only d s s3" by (simp add: only_def s3_def s12 s1_def)
    have "type_of s d \<le> TL_READ_NO_INSERT \<or> type_of s d = TL_WRITE_DELAYED \<and> cond_of s d \<longrightarrow> d \<notin> set (l_write s)"
      using assms(1) by (auto simp: lock_inv_def queues_ok_def is_write_def type_order)
    with kind show "l_read s3 = remove1 d (l_read s)" "l_read_wait s3 = remove1 d (l_read_wait s)"
      "l_write s3 = remove1 d (l_write s)" "l_write_wait s3 = remove1 d (l_write_wait s)"
      by (auto simp: s3_def s12 s1_def remove1_idem type_order)
    show "l_read_no_write_count s3 =
      l_read_no_write_count s - (if d \<in> set (l_read s) \<and> type_of s d = TL_READ_NO_INSERT then 1 else 0)"
      using kind by (simp add: s3_def s12 s1_def type_order)
  qed
  then show ?thesis unfolding eq by (rule wake_up_waiters_inv)
qed

lemma wait_for_lock_end_inv:
  assumes "lock_inv s" and "no_lost_wakeup s" and "wait = Wait_read \<or> wait = Wait_write"
    and "cond_of s d \<Longrightarrow> d \<in> set (if wait = Wait_read then l_read_wait s else l_write_wait s)"
    and "wait_for_lock_end g wait timed_out d s = (r, s')"
  shows "lock_inv s' \<and> no_lost_wakeup s'"
proof (cases "cond_of s d")
  case True
  define s1 where "s1 = set_type d TL_UNLOCK (if wait = Wait_read then s\<lparr>l_read_wait := remove1 d (l_read_wait s)\<rparr>
    else s\<lparr>l_write_wait := remove1 d (l_write_wait s)\<rparr>)"
  have out: "d \<notin> set (l_read s)" "d \<notin> set (l_write s)" "wait = Wait_read \<longrightarrow> d \<notin> set (l_write_wait s)"
    "wait = Wait_write \<longrightarrow> d \<notin> set (l_read_wait s)"
    using True assms(1,3) assms(4) [OF True] by (auto simp: lock_inv_def queues_ok_def split: if_splits)
  have "lock_inv s1"
    using out assms(3) by (intro take_out_inv [OF assms(1)]) (auto simp: s1_def only_def remove1_idem)
  moreover have "s' = wake_up_waiters g s1"
    using True assms(5) by (simp add: wait_for_lock_end_def Let_def s1_def)
  ultimately show ?thesis by (simp add: wake_up_waiters_inv)
next
  case False
  have "same_lock s (call_get_status d False s)" by (simp add: same_lock_def)
  with False assms(1,2,5) show ?thesis
    using same_lock_inv [of s "call_get_status d False s"]
    by (auto simp: wait_for_lock_end_def split: if_splits)
qed

text \<open>Aborting waiters.\<close>

lemma abort_waiters_result:
  "l_read (abort_waiters ds s) = l_read s" "l_read_wait (abort_waiters ds s) = l_read_wait s"
  "l_write (abort_waiters ds s) = l_write s" "l_write_wait (abort_waiters ds s) = l_write_wait s"
  "l_read_no_write_count (abort_waiters ds s) = l_read_no_write_count s"
  "l_data (abort_waiters ds s) x =
     (if x \<in> set ds then (l_data s x)\<lparr>d_type := TL_UNLOCK, d_cond := False\<rparr> else l_data s x)"
  by (induction ds arbitrary: s) simp_all

definition abort_all :: "lock_state \<Rightarrow> lock_state" where
  "abort_all s = (abort_waiters (l_write_wait s) (abort_waiters (l_read_wait s) s))\<lparr>l_read_wait := [], l_write_wait := []\<rparr>"

lemma filter_disjoint: "set xs \<inter> A = {} \<Longrightarrow> filter (\<lambda>x. x \<notin> A) xs = xs"
  by (induction xs) auto

lemma abort_all_inv:
  assumes "lock_inv s"
  shows "lock_inv (abort_all s) \<and> no_lost_wakeup (abort_all s)"
proof
  let ?W = "set (l_read_wait s) \<union> set (l_write_wait s)"
  have dis: "set (l_read s) \<inter> ?W = {}" "set (l_write s) \<inter> ?W = {}"
    using assms by (auto simp: lock_inv_def queues_ok_def)
  show "lock_inv (abort_all s)"
  proof (rule lock_inv_filter [OF assms, where P = "\<lambda>d. d \<notin> ?W"])
    show "l_read (abort_all s) = filter (\<lambda>d. d \<notin> ?W) (l_read s)"
      "l_write (abort_all s) = filter (\<lambda>d. d \<notin> ?W) (l_write s)"
      using filter_disjoint [OF dis(1)] filter_disjoint [OF dis(2)] by (simp_all add: abort_all_def abort_waiters_result)
    show "l_read_no_write_count (abort_all s) = no_insert_count s (filter (\<lambda>d. d \<notin> ?W) (l_read s))"
      using assms filter_disjoint [OF dis(1)]
      by (simp add: abort_all_def abort_waiters_result lock_inv_def queues_ok_def)
  qed (simp_all add: abort_all_def abort_waiters_result)
  show "no_lost_wakeup (abort_all s)" by (simp add: abort_all_def no_lost_wakeup_def)
qed

text \<open>Raising the first writer to \<open>TL_WRITE_ONLY\<close>, when no other thread has a lock.\<close>

definition sole_owner :: "lock_state \<Rightarrow> bool" where
  "sole_owner s \<longleftrightarrow> (\<forall>d\<in>set (l_read s) \<union> set (l_write s). owner_of s d = owner_of s (hd (l_write s)))"

lemma set_active_type_inv:
  assumes "lock_inv s" and "l_write s = w # ws" and "sole_owner s" and "is_write t" and "t = TL_WRITE_DELAYED \<Longrightarrow> ws = []"
    and "\<And>x. x \<in> set ws \<Longrightarrow> covers t (type_of s x)"
  shows "lock_inv (set_type w t s)"
proof -
  define s' where "s' = set_type w t s"
  have out: "w \<notin> set (l_read s)" "w \<notin> set (l_read_wait s)" "w \<notin> set ws" "w \<notin> set (l_write_wait s)"
    using assms(1,2) by (auto simp: lock_inv_def queues_ok_def)
  have q: "l_read s' = l_read s" "l_read_wait s' = l_read_wait s" "l_write s' = w # ws"
    "l_write_wait s' = l_write_wait s" "l_read_no_write_count s' = l_read_no_write_count s"
    using assms(2) by (simp_all add: s'_def)
  have same: "\<forall>x\<in>set (l_read s). l_data s' x = l_data s x" "\<forall>x\<in>set (l_read_wait s). l_data s' x = l_data s x"
    "\<forall>x\<in>set ws. l_data s' x = l_data s x" "\<forall>x\<in>set (l_write_wait s). l_data s' x = l_data s x"
    using out by (auto simp: s'_def)
  have w: "type_of s' w = t" "owner_of s' w = owner_of s w" "cond_of s' w = cond_of s w" by (simp_all add: s'_def)
  have "no_insert_count s' (l_read s) = no_insert_count s (l_read s)"
    using same(1) by (intro no_insert_count_cong) simp
  then have "queues_ok s'"
    using assms(1,2,4) same w by (simp add: lock_inv_def queues_ok_def q)
  moreover have "sorted_wrt (\<lambda>x y. covers (type_of s' x) (type_of s' y)) ws = sorted_wrt (\<lambda>x y. covers (type_of s x) (type_of s y)) ws"
    using same(3) by (intro sorted_wrt_cong) simp
  then have "writers_ok s'"
    using assms(1-3,5,6) same(3) w by (auto simp: lock_inv_def writers_ok_def q sole_owner_def)
  moreover have "exclusion s'"
    using assms(2,3) same w by (auto simp: exclusion_def q sole_owner_def)
  ultimately show ?thesis by (simp add: lock_inv_def s'_def)
qed

lemma thr_abort_locks_inv:
  assumes "lock_inv s" and "upgrade_lock \<Longrightarrow> sole_owner s"
  shows "lock_inv (thr_abort_locks upgrade_lock s) \<and> no_lost_wakeup (thr_abort_locks upgrade_lock s)"
proof -
  have ww: "l_write_wait (abort_waiters (l_read_wait s) s) = l_write_wait s" by (simp add: abort_waiters_result)
  have eq: "thr_abort_locks upgrade_lock s =
     (if upgrade_lock \<and> l_write (abort_all s) \<noteq> [] then set_type (hd (l_write (abort_all s))) TL_WRITE_ONLY (abort_all s)
      else abort_all s)"
    unfolding thr_abort_locks_def Let_def ww abort_all_def [symmetric] by simp
  have "lock_inv (set_type (hd (l_write (abort_all s))) TL_WRITE_ONLY (abort_all s))"
    if u: "upgrade_lock" "l_write (abort_all s) \<noteq> []"
  proof -
    obtain w ws where "l_write (abort_all s) = w # ws" using u(2) by (cases "l_write (abort_all s)") auto
    moreover have "sole_owner (abort_all s)"
      using assms(2) [OF u(1)] by (auto simp: sole_owner_def abort_all_def abort_waiters_result)
    moreover have "covers TL_WRITE_ONLY t" for t by (cases t) (simp_all add: covers_def type_order)
    ultimately show ?thesis
      using abort_all_inv [OF assms(1)] by (auto intro!: set_active_type_inv simp: is_write_def type_order)
  qed
  then show ?thesis
    using abort_all_inv [OF assms(1)] unfolding eq by (simp add: no_lost_wakeup_def)
qed

lemma abort_thread_reads_inv:
  "lock_inv s \<Longrightarrow> distinct ds \<Longrightarrow> set ds \<subseteq> set (l_read_wait s) \<Longrightarrow>
   abort_thread_reads thread_id tid ds (found, s) = (found', s') \<Longrightarrow> lock_inv s'"
proof (induction ds arbitrary: found s)
  case (Cons d ds)
  define t where "t = (set_cond d False (emit (Signal d) (set_type d TL_UNLOCK s)))\<lparr>l_read_wait := remove1 d (l_read_wait s)\<rparr>"
  show ?case
  proof (cases "thread_id (owner_of s d) = tid")
    case True
    have out: "d \<notin> set (l_read s)" "d \<notin> set (l_write s)" "d \<notin> set (l_write_wait s)" "distinct (l_read_wait s)"
      using Cons.prems(1,3) by (auto simp: lock_inv_def queues_ok_def)
    have "lock_inv t"
      using out by (intro take_out_inv [OF Cons.prems(1)]) (auto simp: t_def only_def remove1_idem)
    moreover have "set ds \<subseteq> set (l_read_wait t)" using Cons.prems(2,3) out(4) by (auto simp: t_def)
    ultimately show ?thesis
      using Cons.IH [of t True] Cons.prems(2,4) True by (simp add: t_def [symmetric])
  qed (use Cons in auto)
qed auto

lemma abort_thread_writes_inv:
  "lock_inv s \<Longrightarrow> distinct ds \<Longrightarrow> set ds \<subseteq> set (l_write_wait s) \<Longrightarrow>
   abort_thread_writes thread_id tid ds (found, s) = (found', s') \<Longrightarrow> lock_inv s'"
proof (induction ds arbitrary: found s)
  case (Cons d ds)
  define t where "t = (set_cond d False (emit (Signal d) (set_type d TL_UNLOCK s)))\<lparr>l_write_wait := remove1 d (l_write_wait s)\<rparr>"
  show ?case
  proof (cases "thread_id (owner_of s d) = tid")
    case True
    have out: "d \<notin> set (l_read s)" "d \<notin> set (l_write s)" "d \<notin> set (l_read_wait s)" "distinct (l_write_wait s)"
      using Cons.prems(1,3) by (auto simp: lock_inv_def queues_ok_def)
    have "lock_inv t"
      using out by (intro take_out_inv [OF Cons.prems(1)]) (auto simp: t_def only_def remove1_idem)
    moreover have "set ds \<subseteq> set (l_write_wait t)" using Cons.prems(2,3) out(4) by (auto simp: t_def)
    ultimately show ?thesis
      using Cons.IH [of t True] Cons.prems(2,4) True by (simp add: t_def [symmetric])
  qed (use Cons in auto)
qed auto

lemma thr_abort_locks_for_thread_inv:
  assumes "lock_inv s" and "thr_abort_locks_for_thread g thread_id tid s = (found, s')"
  shows "lock_inv s' \<and> no_lost_wakeup s'"
proof -
  obtain f1 s1 where 1: "abort_thread_reads thread_id tid (l_read_wait s) (False, s) = (f1, s1)"
    by (cases "abort_thread_reads thread_id tid (l_read_wait s) (False, s)")
  obtain f2 s2 where 2: "abort_thread_writes thread_id tid (l_write_wait s1) (f1, s1) = (f2, s2)"
    by (cases "abort_thread_writes thread_id tid (l_write_wait s1) (f1, s1)")
  have "lock_inv s1"
    using assms(1) by (intro abort_thread_reads_inv [OF _ _ _ 1]) (auto simp: lock_inv_def queues_ok_def)
  then have "lock_inv s2"
    by (intro abort_thread_writes_inv [OF _ _ _ 2]) (auto simp: lock_inv_def queues_ok_def)
  with assms(2) 1 2 show ?thesis
    using wake_up_waiters_inv [of s2 g] by (simp add: thr_abort_locks_for_thread_def)
qed

text \<open>Downgrades and delayed locks.\<close>

lemma thr_downgrade_write_lock_inv:
  assumes "lock_inv s" and "no_lost_wakeup s" and "l_write s = d # ws" and "sole_owner s" and "is_write t"
    and "t = TL_WRITE_DELAYED \<Longrightarrow> ws = []" and "\<And>x. x \<in> set ws \<Longrightarrow> covers t (type_of s x)"
  shows "lock_inv (thr_downgrade_write_lock d t s) \<and> no_lost_wakeup (thr_downgrade_write_lock d t s)"
  using set_active_type_inv [OF assms(1,3-7)] assms(3)
  by (simp add: thr_downgrade_write_lock_def no_lost_wakeup_write)

lemma move_to_wait_inv:
  assumes "lock_inv s" and "l_write s = [d]" and "is_write t"
    and s': "only d s s'" "l_read s' = l_read s" "l_read_wait s' = l_read_wait s" "l_write s' = []"
      "l_write_wait s' = d # l_write_wait s" "l_read_no_write_count s' = l_read_no_write_count s"
      "type_of s' d = t" "cond_of s' d"
  shows "lock_inv s'"
proof -
  define s1 where "s1 = s\<lparr>l_write := []\<rparr>"
  have out: "d \<notin> set (l_read s)" "d \<notin> set (l_read_wait s)" "d \<notin> set (l_write_wait s)"
    using assms(1,2) by (auto simp: lock_inv_def queues_ok_def)
  have "lock_inv s1"
    using out by (intro take_out_inv [OF assms(1), of d]) (auto simp: s1_def only_def remove1_idem assms(2))
  then show ?thesis
  proof (rule add_waiter_inv)
    show "\<not> queued s1 d" using out by (simp add: s1_def queued_def)
    show "only d s1 s'" using s'(1) by (simp add: s1_def only_def)
  qed (simp_all add: s1_def s'(2-8) assms(3))
qed

lemma thr_upgrade_write_delay_lock_inv:
  assumes "lock_inv s" and "no_lost_wakeup s" and "t \<in> {TL_WRITE_LOW_PRIORITY, TL_WRITE, TL_WRITE_ONLY}"
    and "type_of s d = TL_WRITE_DELAYED \<Longrightarrow> d \<in> set (l_write s) \<or> d \<in> set (l_write_wait s)"
    and "type_of s d \<in> {TL_UNLOCK, TL_WRITE_DELAYED, TL_WRITE_LOW_PRIORITY, TL_WRITE, TL_WRITE_ONLY}"
    and "thr_upgrade_write_delay_lock d t s = (r, s')"
  shows "lock_inv s' \<and> no_lost_wakeup s'"
proof (cases "type_of s d = TL_WRITE_DELAYED")
  case False
  with assms(5) have "type_of s d = TL_UNLOCK \<or> type_of s d \<ge> TL_WRITE_LOW_PRIORITY" by (auto simp: type_order)
  with assms(6) have "s' = s" by (auto simp: thr_upgrade_write_delay_lock_def)
  with assms(1,2) show ?thesis by simp
next
  case True
  have wr: "is_write t" "t \<noteq> TL_WRITE_DELAYED" using assms(3) by (auto simp: is_write_def type_order)
  show ?thesis
  proof (cases "cond_of s d")
    case c: True
    with assms(1,4) True have d: "d \<in> set (l_write_wait s)" by (auto simp: lock_inv_def queues_ok_def)
    have "s' = wait_for_lock_begin Wait_write True d (set_type d t s)"
      using assms(6) True c by (simp add: thr_upgrade_write_delay_lock_def type_order Let_def)
    then have "same_lock (set_type d t s) s'"
      using c by (cases "l_data s d") (simp add: same_lock_def wait_for_lock_begin_def Let_def)
    moreover have "no_lost_wakeup (set_type d t s)" using assms(2) by (simp add: no_lost_wakeup_def)
    ultimately show ?thesis using set_waiting_type_inv [OF assms(1) d wr(1)] same_lock_inv by blast
  next
    case c: False
    with assms(1,4) True have "d \<in> set (l_write s)" by (auto simp: lock_inv_def queues_ok_def)
    with assms(1) True have w: "l_write s = [d]" by (auto simp: lock_inv_def writers_ok_def)
    show ?thesis
    proof (cases "l_read s = []")
      case r: True
      have "lock_inv (set_type d t s)"
        using r by (intro set_active_type_inv [OF assms(1) w _ wr(1)]) (simp_all add: sole_owner_def w)
      moreover have "s' = call_get_status d False (set_type d t s)"
        using assms(6) True c r by (simp add: thr_upgrade_write_delay_lock_def type_order Let_def)
      ultimately show ?thesis
        using same_lock_inv [of "set_type d t s" s'] w by (simp add: same_lock_def no_lost_wakeup_write)
    next
      case r: False
      have "s' = wait_for_lock_begin Wait_write True d
          ((set_type d t s)\<lparr>l_write := remove1 d (l_write s), l_write_wait := d # l_write_wait s\<rparr>)"
        using assms(6) True c r by (simp add: thr_upgrade_write_delay_lock_def type_order Let_def)
      then show ?thesis
        using r w by (auto intro!: move_to_wait_inv [OF assms(1) w wr(1)]
            simp: only_def wait_for_lock_begin_sel no_lost_wakeup_def)
    qed
  qed
qed

lemma thr_reschedule_write_lock_inv:
  assumes "lock_inv s" and "no_lost_wakeup s" and "l_write s = [d]" and "thr_reschedule_write_lock d s = (r, s')"
  shows "lock_inv s' \<and> no_lost_wakeup s'"
proof (cases "l_read_wait s = []")
  case False
  define s0 where "s0 = set_type d TL_WRITE_DELAYED s"
  define s1 where "s1 = set_cond d True
    ((if l_update_status s0 then emit (Update_status (d_status_param (l_data s0 d))) s0 else s0)
      \<lparr>l_write := remove1 d (l_write s), l_write_wait := d # l_write_wait s\<rparr>)"
  have q: "l_read s1 = l_read s" "l_read_wait s1 = l_read_wait s" "l_write s1 = []" "l_write_wait s1 = d # l_write_wait s"
    "l_read_no_write_count s1 = l_read_no_write_count s" "type_of s1 d = TL_WRITE_DELAYED" "cond_of s1 d" "only d s s1"
    using assms(3) by (simp_all add: s1_def s0_def only_def)
  have "lock_inv s1"
    by (rule move_to_wait_inv [OF assms(1,3) _ q(8,1-7)]) (simp add: is_write_def type_order)
  moreover have "s' = free_all_read_locks False s1"
    using assms(4) False by (auto simp: thr_reschedule_write_lock_def Let_def s1_def s0_def)
  ultimately show ?thesis using free_all_wakeup [of s1 False] False q(2,3) by simp
qed (use assms in \<open>simp add: thr_reschedule_write_lock_def\<close>)

section \<open>Steps and reachable states\<close>

inductive lock_step :: "lock_globals \<Rightarrow> lock_state \<Rightarrow> lock_state \<Rightarrow> bool" for g where
  request: "\<not> queued s d \<Longrightarrow> is_read t \<or> is_write t \<Longrightarrow>
    (is_write t \<longrightarrow> write_order_ok s (Some owner) (effective g s t)) \<Longrightarrow>
    thr_lock g d owner t s = (r, s') \<Longrightarrow> lock_step g s s'"
| unlock: "d \<in> set (l_read s) \<or> d \<in> set (l_write s) \<or> d \<in> set (l_write_wait s) \<and> type_of s d = TL_WRITE_DELAYED \<Longrightarrow>
    lock_step g s (thr_unlock g d s)"
| wait_end: "wait = Wait_read \<or> wait = Wait_write \<Longrightarrow>
    (cond_of s d \<longrightarrow> d \<in> set (if wait = Wait_read then l_read_wait s else l_write_wait s)) \<Longrightarrow>
    wait_for_lock_end g wait timed_out d s = (r, s') \<Longrightarrow> lock_step g s s'"
| abort: "(upgrade_lock \<longrightarrow> sole_owner s) \<Longrightarrow> lock_step g s (thr_abort_locks upgrade_lock s)"
| abort_thread: "thr_abort_locks_for_thread g thread_id tid s = (found, s') \<Longrightarrow> lock_step g s s'"
| downgrade: "l_write s = d # ws \<Longrightarrow> sole_owner s \<Longrightarrow> is_write t \<Longrightarrow> (t = TL_WRITE_DELAYED \<longrightarrow> ws = []) \<Longrightarrow>
    (\<forall>x\<in>set ws. covers t (type_of s x)) \<Longrightarrow> lock_step g s (thr_downgrade_write_lock d t s)"
| upgrade: "t \<in> {TL_WRITE_LOW_PRIORITY, TL_WRITE, TL_WRITE_ONLY} \<Longrightarrow>
    (type_of s d = TL_WRITE_DELAYED \<longrightarrow> d \<in> set (l_write s) \<or> d \<in> set (l_write_wait s)) \<Longrightarrow>
    type_of s d \<in> {TL_UNLOCK, TL_WRITE_DELAYED, TL_WRITE_LOW_PRIORITY, TL_WRITE, TL_WRITE_ONLY} \<Longrightarrow>
    thr_upgrade_write_delay_lock d t s = (b, s') \<Longrightarrow> lock_step g s s'"
| reschedule: "l_write s = [d] \<Longrightarrow> thr_reschedule_write_lock d s = (b, s') \<Longrightarrow> lock_step g s s'"
| data_init: "\<not> queued s d \<Longrightarrow> lock_step g s (thr_lock_data_init lock d param s)"
| callbacks: "lock_step g s (s\<lparr>l_get_status := b1, l_copy_status := b2, l_update_status := b3,
    l_restore_status := b4, l_check_status := f\<rparr>)"

inductive_cases lock_stepE: "lock_step g s s'"

definition initial_lock :: "(nat \<Rightarrow> THR_LOCK_DATA) \<Rightarrow> lock_state" where
  "initial_lock data = THR_LOCK.extend thr_lock_init (lock_state.fields data [])"

inductive reachable_lock :: "lock_globals \<Rightarrow> lock_state \<Rightarrow> bool" for g where
  start: "reachable_lock g (initial_lock data)"
| step: "reachable_lock g s \<Longrightarrow> lock_step g s s' \<Longrightarrow> reachable_lock g s'"

lemma initial_lock_sel [simp]:
  "l_read (initial_lock data) = []" "l_read_wait (initial_lock data) = []" "l_write (initial_lock data) = []"
  "l_write_wait (initial_lock data) = []" "l_data (initial_lock data) = data"
  "l_read_no_write_count (initial_lock data) = 0" "l_check_status (initial_lock data) = None"
  "l_get_status (initial_lock data) = False"
  by (simp_all add: initial_lock_def thr_lock_init_def THR_LOCK.extend_def lock_state.fields_def)

lemma lock_step_inv:
  assumes "globals_ok g" and "lock_step g s s'" and "lock_inv s" and "no_lost_wakeup s"
  shows "lock_inv s' \<and> no_lost_wakeup s'"
  using assms(2)
proof cases
  case (request d t owner r)
  then show ?thesis using thr_lock_inv [OF assms(1,3,4)] by blast
next
  case (unlock d)
  then show ?thesis using thr_unlock_inv [OF assms(3)] by blast
next
  case (wait_end wait d timed_out r)
  then show ?thesis using wait_for_lock_end_inv [OF assms(3,4)] by blast
next
  case (abort upgrade_lock)
  then show ?thesis using thr_abort_locks_inv [OF assms(3)] by blast
next
  case (abort_thread thread_id tid found)
  then show ?thesis using thr_abort_locks_for_thread_inv [OF assms(3)] by blast
next
  case (downgrade d ws t)
  then show ?thesis using thr_downgrade_write_lock_inv [OF assms(3,4)] by blast
next
  case (upgrade t d b)
  then show ?thesis using thr_upgrade_write_delay_lock_inv [OF assms(3,4)] by blast
next
  case (reschedule d b)
  then show ?thesis using thr_reschedule_write_lock_inv [OF assms(3,4)] by blast
next
  case (data_init d lock param)
  have "lock_inv s'"
    by (rule unqueued_data_inv [OF assms(3) data_init(2)])
      (simp_all add: data_init(1) thr_lock_data_init_def only_def)
  with assms(4) show ?thesis by (simp add: data_init(1) thr_lock_data_init_def no_lost_wakeup_def)
next
  case (callbacks b1 b2 b3 b4 f)
  then have "same_lock s s'" by (simp add: same_lock_def)
  with same_lock_inv assms(3,4) show ?thesis by blast
qed

lemma reachable_lock_inv:
  assumes "reachable_lock g s" and "globals_ok g"
  shows "lock_inv s \<and> no_lost_wakeup s"
  using assms(1)
proof induction
  case (start data)
  show ?case by (simp add: lock_inv_def queues_ok_def writers_ok_def exclusion_def no_lost_wakeup_def)
next
  case (step s s')
  then show ?case using lock_step_inv [OF assms(2)] by blast
qed

section \<open>Waking up loses nobody\<close>

lemma free_read_loop_events:
  "l_events (free_read_loop data c s) = l_events s @ map Signal (granted c s data)"
proof (induction data c s rule: free_read_loop.induct)
  case (2 d data c s)
  have "granted k (s\<lparr>l_read := a, l_read_wait := b\<rparr>) data = granted k s data"
    "granted k (emit e (set_cond d False (s\<lparr>l_read_no_write_count := n\<rparr>))) data = granted k s data"
    "granted k (emit e (set_cond d False s)) data = granted k s data" for k a b e n
    by (rule type_view_cong, simp)+
  with 2 show ?case by (simp add: emit_def set_cond_def)
qed simp

lemma free_all_read_locks_events:
  "l_events (free_all_read_locks c s) = l_events s @ map Signal (granted c s (l_read_wait s))"
  by (simp add: free_all_read_locks_def Let_def free_read_loop_events type_view_cong(1) [of "s\<lparr>l_read := l_read s @ l_read_wait s, l_read_wait := []\<rparr>" s])

text \<open>What a run of \<open>wake_up_waiters\<close> may do: writers keep their order, readers are only moved
  from waiting to active, and whoever becomes active is signalled.\<close>

definition woken :: "lock_state \<Rightarrow> lock_state \<Rightarrow> bool" where
  "woken s s' \<longleftrightarrow>
     l_write s' @ l_write_wait s' = l_write s @ l_write_wait s \<and>
     mset (l_read s' @ l_read_wait s') = mset (l_read s @ l_read_wait s) \<and>
     (\<forall>d\<in>set (l_read s' @ l_write s') - set (l_read s @ l_write s). Signal d \<in> set (l_events s')) \<and>
     set (l_events s) \<subseteq> set (l_events s') \<and>
     set (l_read s @ l_write s) \<subseteq> set (l_read s' @ l_write s')"

lemma woken_refl: "woken s s"
  by (simp add: woken_def)

lemma woken_trans: "woken s s' \<Longrightarrow> woken s' s'' \<Longrightarrow> woken s s''"
  unfolding woken_def by (elim conjE, intro conjI) auto

lemma woken_free_all:
  assumes "queues_ok s"
  shows "woken s (free_all_read_locks c s)"
proof -
  have "mset (granted c s ds) + mset (kept c s ds) = mset ds" for ds by (induction ds) auto
  then show ?thesis
    by (auto simp: woken_def free_all_read_locks_frame [OF assms] free_all_read_locks_events)
qed

lemma woken_start:
  assumes "l_write_wait s = d # ds" and "l_write s' = l_write s @ [d]" and "l_write_wait s' = ds"
    and "l_read s' = l_read s" and "l_read_wait s' = l_read_wait s" and "l_events s' = l_events s @ [Signal d]"
  shows "woken s s'"
  using assms by (auto simp: woken_def)

lemma events_wake: "l_events (wake d s) = l_events s @ [Signal d]" "l_events (start_write d s) = l_events s"
  "l_events (upgrade_checked d s) = l_events s"
  by (simp_all add: wake_def emit_def set_cond_def start_write_def upgrade_checked_def set_type_def)

lemma grant_loop_woken:
  "l_write_wait s = ds \<Longrightarrow> grant_loop ds s = (x, s') \<Longrightarrow> woken s s'"
proof (induction ds arbitrary: s)
  case (Cons d ds)
  define t where "t = wake d (upgrade_checked d (start_write d s))"
  have t: "woken s t" "l_write_wait t = ds"
    using Cons.prems(1) by (auto intro!: woken_start [of s d ds] simp: t_def events_wake)
  show ?case
  proof (cases "type_of t d \<noteq> TL_WRITE_ALLOW_WRITE \<or> ds = [] \<or> type_of t (hd ds) \<noteq> TL_WRITE_ALLOW_WRITE")
    case True
    with Cons.prems(2) have "s' = t" by (simp add: t_def [symmetric] Let_def)
    with t show ?thesis by simp
  next
    case False
    with Cons.prems(2) have "grant_loop ds t = (x, s')" by (simp add: t_def [symmetric] Let_def)
    with Cons.IH [OF t(2)] woken_trans [OF t(1)] show ?thesis by blast
  qed
qed (simp add: woken_refl)

lemma grant_with_readers_woken:
  "l_write_wait s = ds \<Longrightarrow> woken s (grant_with_readers lt ds s)"
proof (induction ds arbitrary: s)
  case (Cons d ds)
  define t where "t = wake d (start_write d s)"
  have t: "woken s t" "l_write_wait t = ds"
    using Cons.prems by (auto intro!: woken_start [of s d ds] simp: t_def events_wake)
  with woken_trans [OF t(1) Cons.IH [OF t(2)]] show ?case
    by (auto simp: t_def [symmetric] Let_def)
qed (simp add: woken_refl)

lemma woken_counted: "woken s (s\<lparr>l_write_lock_count := n\<rparr>)"
  by (simp add: woken_def)

lemma woken_set_type: "woken s (set_type d t s)"
  by (simp add: woken_def set_type_def)

lemma wake_up_waiters_woken:
  assumes "lock_inv s"
  shows "woken s (wake_up_waiters g s)"
proof -
  have q: "queues_ok s" using assms by (simp add: lock_inv_def)
  have fr: "woken s (free_all_read_locks c t)" if "woken s t" "lock_inv t" for c t
    using that woken_trans woken_free_all [of t c] by (auto simp: lock_inv_def)
  consider (held) "l_write s \<noteq> []" | (idle) "l_write s = []" "l_write_wait s = []"
    | (free) d ds where "l_write s = []" "l_read s = []" "l_write_wait s = d # ds"
    | (readers) d ds where "l_write s = []" "l_read s \<noteq> []" "l_write_wait s = d # ds"
    by (cases "l_write_wait s") auto
  then show ?thesis
  proof cases
    case held
    then show ?thesis by (simp add: wake_up_waiters_def woken_refl)
  next
    case idle
    with fr [OF woken_refl assms] show ?thesis by (simp add: wake_up_waiters_def Let_def woken_refl)
  next
    case free
    define s1 where "s1 = s\<lparr>l_write_lock_count := (if l_write_lock_count s > max_write_lock_count g then 0 else l_write_lock_count s + 1)\<rparr>"
    have s1: "lock_inv s1" "l_write s1 = []" "l_read s1 = []" "l_write_wait s1 = d # ds" "woken s s1"
      using assms free by (simp_all add: s1_def count_irrelevant woken_def)
    obtain x t where g: "grant_loop (l_write_wait s1) s1 = (x, t)" by (cases "grant_loop (l_write_wait s1) s1")
    have "lock_inv t" using grant_loop_inv [OF s1(1,3) refl _ _ g] s1(2,4) by auto
    moreover have "woken s t" using woken_trans [OF s1(5) grant_loop_woken [OF refl g]] .
    ultimately show ?thesis
      using fr [OF woken_refl assms] fr [of "s\<lparr>l_write_lock_count := 0\<rparr>"] fr [of t] g free assms
      by (auto simp: wake_up_waiters_def Let_def s1_def [symmetric] woken_refl count_irrelevant woken_counted split: option.split)
  next
    case readers
    define t where "t = grant_with_readers (type_of s d) (d # ds) s"
    have "woken s t" unfolding t_def by (rule grant_with_readers_woken [OF readers(3)])
    moreover have "lock_inv (set_type d TL_WRITE s)"
      using readers by (intro set_waiting_type_inv [OF assms]) (simp_all add: is_write_def type_order)
    moreover have "lock_inv t" if "type_of s d \<le> TL_WRITE_DELAYED"
      "type_of s d \<noteq> TL_WRITE_CONCURRENT_INSERT \<and> type_of s d \<noteq> TL_WRITE_ALLOW_WRITE \<or> l_read_no_write_count s = 0"
      using that grant_with_readers_inv [OF assms readers(3), of "type_of s d"] readers(1) by (auto simp: t_def)
    ultimately show ?thesis
      using fr [OF woken_set_type [of s d TL_WRITE]] fr [of t] readers woken_refl [of s] woken_set_type [of s d TL_WRITE]
      by (auto simp: wake_up_waiters_def Let_def t_def [symmetric] simp del: grant_with_readers.simps)
  qed
qed

section \<open>Properties\<close>


definition sample_globals :: lock_globals where
  "sample_globals = \<lparr>max_write_lock_count = 10, thr_upgraded_concurrent_insert_lock = TL_WRITE\<rparr>"

definition sample_lock :: lock_state where
  "sample_lock = initial_lock (\<lambda>_. \<lparr>d_owner = None, d_lock = 0, d_cond = False, d_type = TL_UNLOCK, d_status_param = 0\<rparr>)"

text \<open>A writer of thread 1, and then a reader of thread 2 beside it.\<close>

definition shared_lock :: lock_state where
  "shared_lock =
     snd (thr_lock sample_globals 1 2 TL_READ_NO_INSERT
       (snd (thr_lock sample_globals 0 1 TL_WRITE_ALLOW_WRITE sample_lock)))"

lemmas thr_lock_eval = thr_lock_def thr_lock_read_def thr_lock_write_def grant_read_def grant_write_def
  call_get_status_def emit_def set_type_def set_cond_def thr_lock_owner_equal_def type_order

lemmas sample_lock_eval = sample_lock_def initial_lock_def thr_lock_init_def THR_LOCK.extend_def
  lock_state.fields_def sample_globals_def

lemma shared_lock_sel:
  "l_read shared_lock = [1]" "l_write shared_lock = [0]" "type_of shared_lock 0 = TL_WRITE_ALLOW_WRITE"
  "type_of shared_lock 1 = TL_READ_NO_INSERT" "owner_of shared_lock 0 = Some 1" "owner_of shared_lock 1 = Some 2"
  "l_read_wait shared_lock = []" "l_write_wait shared_lock = []" "l_read_no_write_count shared_lock = 1"
  "\<not> cond_of shared_lock 0" "\<not> cond_of shared_lock 1"
  by (simp_all add: shared_lock_def thr_lock_eval sample_lock_eval)

lemmas shared_lock_eval = shared_lock_sel shared_lock_sel [unfolded One_nat_def]

lemma request_step:
  assumes "\<not> queued s d" and "is_read t \<or> is_write t" and "is_write t \<longrightarrow> write_order_ok s (Some owner) (effective g s t)"
  shows "lock_step g s (snd (thr_lock g d owner t s))"
  using lock_step.request [OF assms, of "fst (thr_lock g d owner t s)"] by simp

lemma sample_globals_ok: "globals_ok sample_globals"
  by (simp add: globals_ok_def sample_globals_def)

lemma shared_lock_reachable: "reachable_lock sample_globals shared_lock"
proof -
  define s1 where "s1 = snd (thr_lock sample_globals 0 1 TL_WRITE_ALLOW_WRITE sample_lock)"
  have "lock_step sample_globals sample_lock s1"
    unfolding s1_def by (rule request_step)
      (simp_all add: sample_lock_eval queued_def is_write_def type_order write_order_ok_def)
  then have "reachable_lock sample_globals s1"
    using reachable_lock.start reachable_lock.step unfolding sample_lock_def by blast
  moreover have "\<not> queued s1 1" by (simp add: s1_def queued_def thr_lock_eval sample_lock_eval)
  then have "lock_step sample_globals s1 shared_lock"
    unfolding shared_lock_def s1_def [symmetric] by (rule request_step) (simp_all add: is_read_def is_write_def type_order)
  ultimately show ?thesis by (rule reachable_lock.step)
qed


text \<open>C10: no wakeup is lost: in every reachable state, a lock that nobody holds has no waiters, and
  readers wait only while a writer is active or waiting.\<close>

theorem table_lock_no_lost_wakeup:
  assumes "reachable_lock g s" and "globals_ok g"
  shows "(l_write s = [] \<and> l_read s = [] \<longrightarrow> l_write_wait s = [] \<and> l_read_wait s = []) \<and>
         (l_write s = [] \<and> l_write_wait s = [] \<longrightarrow> l_read_wait s = [])"
  using reachable_lock_inv [OF assms] by (simp add: no_lost_wakeup_def)

lemma wake_up_idle: "l_write_wait s = [] \<Longrightarrow> l_read_wait s = [] \<Longrightarrow> wake_up_waiters g s = s"
  by (simp add: wake_up_waiters_def Let_def)

theorem table_lock_no_lost_wakeup_witness:
  "l_write (thr_unlock sample_globals 1 (thr_unlock sample_globals 0 shared_lock)) = [] \<and>
   l_read_wait (thr_unlock sample_globals 1 (thr_unlock sample_globals 0 shared_lock)) = []"
proof -
  let ?s1 = "thr_unlock sample_globals 0 shared_lock"
  let ?s2 = "thr_unlock sample_globals 1 ?s1"
  have s1: "l_read ?s1 = [1]" "l_write ?s1 = []" "l_write_wait ?s1 = []" "l_read_wait ?s1 = []"
    "type_of ?s1 1 = TL_READ_NO_INSERT"
    by (simp_all add: thr_unlock_def wake_up_idle shared_lock_eval type_order Let_def)
  have "lock_step sample_globals shared_lock ?s1" by (rule lock_step.unlock) (simp add: shared_lock_eval)
  moreover have "lock_step sample_globals ?s1 ?s2" by (rule lock_step.unlock) (simp add: s1)
  ultimately have r: "reachable_lock sample_globals ?s2"
    using shared_lock_reachable reachable_lock.step by blast
  have "l_read ?s2 = []" "l_write ?s2 = []"
    unfolding thr_unlock_def [of _ 1]
    by (simp_all add: wake_up_idle s1 s1(5) [unfolded One_nat_def] type_order Let_def)
  with table_lock_no_lost_wakeup [OF r sample_globals_ok] show ?thesis by simp
qed

text \<open>C16: waking up waiters loses nobody: waiting writers keep their order and are granted from the
  front, readers only move from waiting to active, and every instance that becomes active is
  signalled and has its condition cleared.\<close>

theorem wake_up_waiters_fair:
  assumes "lock_inv s"
  shows "l_write (wake_up_waiters g s) @ l_write_wait (wake_up_waiters g s) = l_write s @ l_write_wait s \<and>
    mset (l_read (wake_up_waiters g s) @ l_read_wait (wake_up_waiters g s)) = mset (l_read s @ l_read_wait s) \<and>
    (\<forall>d\<in>set (l_read (wake_up_waiters g s) @ l_write (wake_up_waiters g s)).
       d \<in> set (l_read s @ l_write s) \<or> Signal d \<in> set (l_events (wake_up_waiters g s))) \<and>
    (\<forall>d\<in>set (l_read (wake_up_waiters g s) @ l_write (wake_up_waiters g s)). \<not> cond_of (wake_up_waiters g s) d)"
proof -
  have "woken s (wake_up_waiters g s)" by (rule wake_up_waiters_woken [OF assms])
  moreover have "queues_ok (wake_up_waiters g s)" using wake_up_waiters_inv [OF assms] by (simp add: lock_inv_def)
  ultimately show ?thesis unfolding woken_def queues_ok_def by auto
qed

text \<open>A table that thread 1 has locked for writing, with readers 1 and 2 and writer 3 waiting.\<close>

definition busy_lock :: lock_state where
  "busy_lock = sample_lock\<lparr>l_read_wait := [1, 2], l_write_wait := [3], l_write_lock_count := 11,
     l_data := (l_data sample_lock)
       (1 := \<lparr>d_owner = Some 2, d_lock = 0, d_cond = True, d_type = TL_READ, d_status_param = 0\<rparr>,
        2 := \<lparr>d_owner = Some 3, d_lock = 0, d_cond = True, d_type = TL_READ_NO_INSERT, d_status_param = 0\<rparr>,
        3 := \<lparr>d_owner = Some 4, d_lock = 0, d_cond = True, d_type = TL_WRITE, d_status_param = 0\<rparr>)\<rparr>"

lemma busy_lock_sel:
  "l_read busy_lock = []" "l_write busy_lock = []" "l_read_wait busy_lock = [1, 2]" "l_write_wait busy_lock = [3]"
  "type_of busy_lock 1 = TL_READ" "type_of busy_lock 2 = TL_READ_NO_INSERT" "type_of busy_lock 3 = TL_WRITE"
  "l_write_lock_count busy_lock = 11"
  by (simp_all add: busy_lock_def sample_lock_eval)

lemmas busy_lock_eval = busy_lock_sel busy_lock_sel [unfolded One_nat_def]

lemma busy_lock_inv: "lock_inv busy_lock"
  by (simp add: lock_inv_def queues_ok_def writers_ok_def exclusion_def busy_lock_def sample_lock_eval
      is_read_def is_write_def type_order)

theorem wake_up_waiters_fair_witness:
  "lock_inv busy_lock \<and>
   l_write (wake_up_waiters sample_globals busy_lock) @ l_write_wait (wake_up_waiters sample_globals busy_lock) = [3]"
  using wake_up_waiters_fair [OF busy_lock_inv, of sample_globals] busy_lock_inv by (simp add: busy_lock_eval)



text \<open>C38: \<open>check_locks\<close> and \<open>thr_lock\<close> disagree: after the requests of \<open>shared_lock\<close>, which the
  compatibility matrix of \<open>thr_lock\<close> allows, \<open>check_locks\<close> reports an error.\<close>

theorem check_locks_rejects_granted:
  "reachable_lock sample_globals shared_lock \<and> check_locks shared_lock False 0 = 1"
proof
  show "check_locks shared_lock False 0 = 1"
    by (simp add: check_locks_def check_lock_def MAX_FOUND_ERRORS_def MAX_LOCKS_def shared_lock_eval
        thr_lock_owner_equal_def type_order Let_def)
qed (rule shared_lock_reachable)

end
