(* ===== verification/LockQueue.thy ===== *)
theory LockQueue
  imports Prelude
begin

text \<open>
  The queues of \<open>src/mysys/thr_lock.c\<close> as the code represents them: \<open>st_lock_list\<close> with a pointer
  to the first instance and the address of the last \<open>next\<close> field, and instances linked by \<open>next\<close>
  and by \<open>prev\<close>, the address of the pointer to the instance.  The link operations of the source
  are shown to be append, removal and insertion at the front of the list of instances, and to
  leave every other queue alone: the lists of \<open>TableLock\<close> are what the pointers represent.
\<close>

section \<open>Pointers\<close>

text \<open>An address of a \<open>THR_LOCK_DATA *\<close>: the field \<open>data\<close> of a queue, or the field \<open>next\<close> of an instance.\<close>

datatype link = Head nat | Next nat

record queue_heap =
  q_data :: "nat \<Rightarrow> nat option"
  q_last :: "nat \<Rightarrow> link"
  d_next :: "nat \<Rightarrow> nat option"
  d_prev :: "nat \<Rightarrow> link"

fun deref :: "queue_heap \<Rightarrow> link \<Rightarrow> nat option" where
  "deref h (Head q) = q_data h q"
| "deref h (Next d) = d_next h d"

fun assign :: "link \<Rightarrow> nat option \<Rightarrow> queue_heap \<Rightarrow> queue_heap" where
  "assign (Head q) v h = h\<lparr>q_data := (q_data h)(q := v)\<rparr>"
| "assign (Next d) v h = h\<lparr>d_next := (d_next h)(d := v)\<rparr>"

definition set_prev :: "nat \<Rightarrow> link \<Rightarrow> queue_heap \<Rightarrow> queue_heap" where
  "set_prev d p h = h\<lparr>d_prev := (d_prev h)(d := p)\<rparr>"

definition set_last :: "nat \<Rightarrow> link \<Rightarrow> queue_heap \<Rightarrow> queue_heap" where
  "set_last q p h = h\<lparr>q_last := (q_last h)(q := p)\<rparr>"

section \<open>Operations\<close>

definition queue_init :: "nat \<Rightarrow> queue_heap \<Rightarrow> queue_heap" where
  "queue_init q h = set_last q (Head q) (assign (Head q) None h)"

text \<open>\<open>(*wait->last)=data; data->prev= wait->last; wait->last= &data->next\<close>, with \<open>data->next\<close> reset at
  the start of \<open>thr_lock\<close>.\<close>

definition queue_append :: "nat \<Rightarrow> nat \<Rightarrow> queue_heap \<Rightarrow> queue_heap" where
  "queue_append q d h =
     (let h = assign (Next d) None h;
          h = assign (q_last h q) (Some d) h;
          h = set_prev d (q_last h q) h
      in set_last q (Next d) h)"

text \<open>\<open>if (((*data->prev)=data->next)) data->next->prev= data->prev; else q->last=data->prev\<close>.\<close>

definition queue_unlink :: "nat \<Rightarrow> nat \<Rightarrow> queue_heap \<Rightarrow> queue_heap" where
  "queue_unlink q d h =
     (let h' = assign (d_prev h d) (d_next h d) h
      in case d_next h d of
           Some e \<Rightarrow> set_prev e (d_prev h d) h'
         | None \<Rightarrow> set_last q (d_prev h d) h')"

text \<open>\<open>if ((data->next=q->data)) data->next->prev= &data->next; else q->last= &data->next;
  data->prev= &q->data; q->data=data\<close>.\<close>

definition queue_push :: "nat \<Rightarrow> nat \<Rightarrow> queue_heap \<Rightarrow> queue_heap" where
  "queue_push q d h =
     (let h' = assign (Next d) (q_data h q) h;
          h' = (case q_data h q of Some e \<Rightarrow> set_prev e (Next d) h' | None \<Rightarrow> set_last q (Next d) h');
          h' = set_prev d (Head q) h'
      in assign (Head q) (Some d) h')"

text \<open>\<open>free_all_read_locks\<close>: the whole wait queue \<open>rw\<close> is linked behind the read queue \<open>rd\<close>, then the
  loop links the instances that have to keep waiting back.  The wait queue is only closed by
  the last assignment.  \<open>keep\<close> is the condition of the loop, \<open>n\<close> bounds its steps.\<close>

definition link_append :: "nat \<Rightarrow> nat \<Rightarrow> queue_heap \<Rightarrow> queue_heap" where
  "link_append q d h = set_last q (Next d) (set_prev d (q_last h q) (assign (q_last h q) (Some d) h))"

fun relink_loop :: "nat \<Rightarrow> (nat \<Rightarrow> bool) \<Rightarrow> nat \<Rightarrow> nat \<Rightarrow> nat \<Rightarrow> queue_heap \<Rightarrow> queue_heap option" where
  "relink_loop n keep rd rw d h =
     (let h = (if keep d then link_append rw d (queue_unlink rd d h) else h)
      in case d_next h d of
           None \<Rightarrow> Some h
         | Some e \<Rightarrow> (case n of 0 \<Rightarrow> None | Suc n \<Rightarrow> relink_loop n keep rd rw e h))"

definition relink_all :: "nat \<Rightarrow> (nat \<Rightarrow> bool) \<Rightarrow> nat \<Rightarrow> nat \<Rightarrow> queue_heap \<Rightarrow> queue_heap option" where
  "relink_all n keep rd rw h =
     (case q_data h rw of
        None \<Rightarrow> None
      | Some d \<Rightarrow>
          let h = assign (q_last h rd) (Some d) h;
              h = set_prev d (q_last h rd) h;
              h = set_last rd (q_last h rw) h;
              h = set_last rw (Head rw) h
          in map_option (\<lambda>h. assign (q_last h rw) None h) (relink_loop n keep rd rw d h))"

section \<open>Representation\<close>

text \<open>The instances \<open>xs\<close> lead from link \<open>p\<close> to link \<open>r\<close>.\<close>

fun segment :: "queue_heap \<Rightarrow> link \<Rightarrow> nat list \<Rightarrow> link \<Rightarrow> bool" where
  "segment h p [] r \<longleftrightarrow> p = r"
| "segment h p (x # xs) r \<longleftrightarrow> deref h p = Some x \<and> d_prev h x = p \<and> segment h (Next x) xs r"

definition represents :: "queue_heap \<Rightarrow> nat \<Rightarrow> nat list \<Rightarrow> bool" where
  "represents h q xs \<longleftrightarrow>
     distinct xs \<and> segment h (Head q) xs (q_last h q) \<and> deref h (q_last h q) = None"

lemma deref_assign [simp]: "deref (assign p v h) r = (if r = p then v else deref h r)"
  by (cases p; cases r) auto

lemma assign_sel [simp]:
  "d_prev (assign p v h) = d_prev h" "q_last (assign p v h) = q_last h"
  by (cases p; simp)+

lemma set_prev_sel [simp]:
  "deref (set_prev d p h) r = deref h r" "q_last (set_prev d p h) = q_last h"
  "d_prev (set_prev d p h) = (d_prev h)(d := p)"
  by (cases r; simp add: set_prev_def) (simp_all add: set_prev_def)

lemma set_last_sel [simp]:
  "deref (set_last q p h) r = deref h r" "q_last (set_last q p h) = (q_last h)(q := p)"
  "d_prev (set_last q p h) = d_prev h"
  by (cases r; simp add: set_last_def) (simp_all add: set_last_def)

lemma assign_links [simp]:
  "q_data (assign p v h) q = (if p = Head q then v else q_data h q)"
  "d_next (assign p v h) d = (if p = Next d then v else d_next h d)"
  by (cases p; simp)+

lemma set_links_sel [simp]:
  "q_data (set_prev d p h) = q_data h" "d_next (set_prev d p h) = d_next h"
  "q_data (set_last q p h) = q_data h" "d_next (set_last q p h) = d_next h"
  by (simp_all add: set_prev_def set_last_def)

declare assign.simps [simp del]

lemma segment_append: "segment h p (xs @ ys) r \<longleftrightarrow> (\<exists>m. segment h p xs m \<and> segment h m ys r)"
  by (induction xs arbitrary: p) auto

lemma segment_end: "segment h p xs r \<Longrightarrow> r = (if xs = [] then p else Next (last xs))"
  by (induction xs arbitrary: p) auto

text \<open>A segment depends only on the links it passes.\<close>

lemma segment_frame:
  "segment h p xs r \<Longrightarrow> distinct xs \<Longrightarrow> (\<forall>x\<in>set xs. d_prev h' x = d_prev h x) \<Longrightarrow>
   (\<forall>x\<in>set xs. Next x \<noteq> r \<longrightarrow> deref h' (Next x) = deref h (Next x)) \<Longrightarrow>
   (xs \<noteq> [] \<longrightarrow> deref h' p = deref h p) \<Longrightarrow> segment h' p xs r"
proof (induction xs arbitrary: p)
  case (Cons x xs)
  have "deref h' (Next x) = deref h (Next x)" if "xs \<noteq> []"
    using segment_end [OF Cons.prems(1)] Cons.prems(2,4) that by auto
  with Cons show ?case by simp
qed simp

lemma segment_assign_end:
  assumes "segment h (Head q) xs r" and "distinct xs"
  shows "segment (assign r v h) (Head q) xs r"
  using segment_end [OF assms(1)] by (intro segment_frame [OF assms]) auto

lemma queue_init_represents: "represents (queue_init q h) q []"
  by (simp add: represents_def queue_init_def)

lemma queue_append_represents:
  assumes "represents h q xs" and "d \<notin> set xs"
  shows "represents (queue_append q d h) q (xs @ [d])"
proof -
  define r where "r = q_last h q"
  have r: "segment h (Head q) xs r" "distinct xs" using assms(1) by (auto simp: represents_def r_def)
  have re: "r = (if xs = [] then Head q else Next (last xs))" by (rule segment_end [OF r(1)])
  have "r \<noteq> Next d" using re assms(2) last_in_set by (auto split: if_splits)
  moreover have "segment (queue_append q d h) (Head q) xs r"
    using assms(2) re
    by (intro segment_frame [OF r(1,2)]) (auto simp: queue_append_def Let_def r_def [symmetric])
  ultimately show ?thesis
    using r(2) assms(2)
    by (auto simp: represents_def segment_append queue_append_def Let_def r_def [symmetric])
qed

lemma queue_push_represents:
  assumes "represents h q xs" and "d \<notin> set xs"
  shows "represents (queue_push q d h) q (d # xs)"
proof (cases xs)
  case Nil
  with assms(1) have h: "q_last h q = Head q" by (auto simp: represents_def)
  with assms(1) have "q_data h q = None" by (simp add: represents_def)
  note h = h this
  show ?thesis by (simp add: represents_def queue_push_def Let_def Nil h)
next
  case (Cons e ys)
  define h' where "h' = queue_push q d h"
  from assms Cons have h: "q_data h q = Some e" "segment h (Next e) ys (q_last h q)" "distinct ys" "e \<notin> set ys"
    "d \<noteq> e" "d \<notin> set ys" "deref h (q_last h q) = None"
    by (auto simp: represents_def)
  have l: "q_last h' q = q_last h q" "q_last h q \<noteq> Head q" "q_last h q \<noteq> Next d"
    using segment_end [OF h(2)] h(5,6) last_in_set [of ys]
    by (auto simp: h'_def queue_push_def Let_def h(1) split: if_splits)
  have "segment h' (Next e) ys (q_last h q)"
    using h(4-6) by (intro segment_frame [OF h(2,3)]) (auto simp: h'_def queue_push_def Let_def h(1))
  then show ?thesis
    unfolding h'_def [symmetric] using h(3-7) l
    by (auto simp: represents_def Cons h'_def queue_push_def Let_def h(1))
qed

lemma queue_unlink_represents:
  assumes "represents h q xs" and "d \<in> set xs"
  shows "represents (queue_unlink q d h) q (remove1 d xs)"
proof -
  obtain as bs where xs: "xs = as @ d # bs" "d \<notin> set as" using assms(2) by (meson split_list_first)
  define h' where "h' = queue_unlink q d h"
  define m where "m = d_prev h d"
  have dis: "distinct as" "distinct bs" "d \<notin> set bs" "set as \<inter> set bs = {}" and nil: "deref h (q_last h q) = None"
    and seg: "segment h (Head q) as m" "deref h m = Some d" "segment h (Next d) bs (q_last h q)"
    using assms(1) xs by (auto simp: represents_def segment_append m_def)
  have m: "m = (if as = [] then Head q else Next (last as))" by (rule segment_end [OF seg(1)])
  have mb: "m \<noteq> Next x" if "x \<in> set bs" for x using m that dis(4) last_in_set [of as] by (fastforce split: if_splits)
  have "represents h' q (as @ bs)"
  proof (cases bs)
    case Nil
    then have n: "d_next h d = None" using seg(3) nil by (metis deref.simps(2) segment.simps(1))
    have "segment h' (Head q) as m"
      using m dis xs(2) by (intro segment_frame [OF seg(1) dis(1)]) (auto simp: h'_def queue_unlink_def Let_def n m_def [symmetric])
    then show ?thesis
      using Nil dis(1) by (simp add: represents_def h'_def queue_unlink_def Let_def n m_def [symmetric])
  next
    case (Cons e ys)
    then have n: "d_next h d = Some e" "segment h (Next e) ys (q_last h q)" using seg(3) by auto
    have "segment h' (Head q) as m"
      using m dis xs(2) Cons
      by (intro segment_frame [OF seg(1) dis(1)]) (auto simp: h'_def queue_unlink_def Let_def n m_def [symmetric])
    moreover have "segment h' (Next e) ys (q_last h q)"
      using Cons dis(2) mb
      by (intro segment_frame [OF n(2)]) (auto simp: h'_def queue_unlink_def Let_def n m_def [symmetric])
    moreover have "q_last h q \<noteq> m"
      using segment_end [OF seg(3)] mb [of "last bs"] Cons by (auto split: if_splits)
    ultimately show ?thesis
      using dis Cons nil
      by (auto simp: represents_def segment_append h'_def queue_unlink_def Let_def n m_def [symmetric])
  qed
  then show ?thesis using xs by (simp add: h'_def remove1_append)
qed

lemma represents_frame:
  assumes "represents h q ys" "q_last h' q = q_last h q" "q_data h' q = q_data h q"
    "\<forall>y\<in>set ys. d_next h' y = d_next h y \<and> d_prev h' y = d_prev h y"
  shows "represents h' q ys"
proof -
  have r: "segment h (Head q) ys (q_last h q)" "distinct ys" "deref h (q_last h q) = None"
    using assms(1) by (auto simp: represents_def)
  have "deref h' (q_last h q) = deref h (q_last h q)"
    using segment_end [OF r(1)] assms(3,4) last_in_set [of ys] by (auto split: if_splits)
  moreover have "segment h' (Head q) ys (q_last h q)"
    using assms(3,4) by (intro segment_frame [OF r(1,2)]) auto
  ultimately show ?thesis using r assms(2) by (simp add: represents_def)
qed

lemma represents_last:
  "represents h q xs \<Longrightarrow> q_last h q = Head q \<or> (\<exists>x\<in>set xs. q_last h q = Next x)"
  by (metis represents_def segment_end last_in_set)

lemma represents_prev:
  "represents h q xs \<Longrightarrow> x \<in> set xs \<Longrightarrow> d_prev h x = Head q \<or> (\<exists>y\<in>set xs. y \<noteq> x \<and> d_prev h x = Next y)"
proof -
  have "segment h p xs r \<Longrightarrow> distinct xs \<Longrightarrow> x \<in> set xs \<Longrightarrow>
      d_prev h x = p \<or> (\<exists>y\<in>set xs. y \<noteq> x \<and> d_prev h x = Next y)" for p r
    by (induction xs arbitrary: p) auto
  then show "represents h q xs \<Longrightarrow> x \<in> set xs \<Longrightarrow> ?thesis" by (auto simp: represents_def)
qed

lemma represents_next:
  "represents h q xs \<Longrightarrow> x \<in> set xs \<Longrightarrow> d_next h x = Some y \<Longrightarrow> y \<in> set xs"
proof -
  have "segment h p xs r \<Longrightarrow> deref h r = None \<Longrightarrow> x \<in> set xs \<Longrightarrow> d_next h x = Some y \<Longrightarrow> y \<in> set xs" for p r
  proof (induction xs arbitrary: p)
    case (Cons z xs)
    then show ?case by (cases xs) auto
  qed simp
  then show "represents h q xs \<Longrightarrow> x \<in> set xs \<Longrightarrow> d_next h x = Some y \<Longrightarrow> ?thesis"
    by (auto simp: represents_def)
qed

lemma represents_first: "represents h q xs \<Longrightarrow> q_data h q = Some y \<Longrightarrow> y \<in> set xs"
  by (cases xs) (auto simp: represents_def, metis deref.simps(1) option.distinct(1))

text \<open>The operations on one queue leave a queue of other instances alone.\<close>

lemma queue_append_frame:
  "represents h q xs \<Longrightarrow> represents h r ys \<Longrightarrow> q \<noteq> r \<Longrightarrow> set xs \<inter> set ys = {} \<Longrightarrow> d \<notin> set ys \<Longrightarrow>
   represents (queue_append q d h) r ys"
  by (drule represents_last, erule represents_frame) (auto simp: queue_append_def Let_def)

lemma queue_push_frame:
  "represents h q xs \<Longrightarrow> represents h r ys \<Longrightarrow> q \<noteq> r \<Longrightarrow> set xs \<inter> set ys = {} \<Longrightarrow> d \<notin> set ys \<Longrightarrow>
   represents (queue_push q d h) r ys"
  by (erule represents_frame)
    (auto simp: queue_push_def Let_def split: option.splits dest: represents_first)

lemma queue_unlink_frame:
  "represents h q xs \<Longrightarrow> represents h r ys \<Longrightarrow> q \<noteq> r \<Longrightarrow> set xs \<inter> set ys = {} \<Longrightarrow> d \<in> set xs \<Longrightarrow>
   represents (queue_unlink q d h) r ys"
  by (frule (1) represents_prev, erule represents_frame)
    (auto simp: queue_unlink_def Let_def split: option.splits dest: represents_next)

section \<open>Freeing the waiting readers\<close>

declare relink_loop.simps [simp del]

lemma represents_splice:
  assumes "represents h rd R" "represents h rw (d # ds)" "set R \<inter> set (d # ds) = {}" "rd \<noteq> rw"
  defines "h' \<equiv> set_last rw (Head rw) (set_last rd (q_last h rw) (set_prev d (q_last h rd) (assign (q_last h rd) (Some d) h)))"
  shows "represents h' rd (R @ d # ds)" and "segment h' (Head rw) [] (q_last h' rw)"
proof -
  have r: "segment h (Head rd) R (q_last h rd)" "distinct R" using assms(1) by (auto simp: represents_def)
  have w: "segment h (Next d) ds (q_last h rw)" "distinct (d # ds)" "deref h (q_last h rw) = None"
    using assms(2) by (auto simp: represents_def)
  note rl = segment_end [OF r(1)] and wl = segment_end [OF w(1)]
  have nw: "q_last h rd \<noteq> Next x" if "x \<in> set (d # ds)" for x
    using represents_last [OF assms(1)] assms(3) that by auto
  have "q_last h rw \<noteq> q_last h rd" using wl nw [of "last (d # ds)"] by (auto split: if_splits)
  moreover have "segment h' (Head rd) R (q_last h rd)"
    using rl assms(3) by (intro segment_frame [OF r]) (auto simp: h'_def)
  moreover have "segment h' (Next d) ds (q_last h rw)"
    using w(2) nw by (intro segment_frame [OF w(1)]) (auto simp: h'_def)
  ultimately show "represents h' rd (R @ d # ds)"
    using r(2) w(2,3) assms(3,4) by (auto simp: represents_def segment_append h'_def)
  show "segment h' (Head rw) [] (q_last h' rw)" by (simp add: h'_def)
qed

text \<open>One turn of the loop: a kept instance leaves the read queue and ends the open wait queue.\<close>

lemma relink_step:
  assumes "represents h rd xs" "d \<in> set xs" "segment h (Head rw) K (q_last h rw)" "distinct K"
    "set K \<inter> set xs = {}" "rd \<noteq> rw"
  defines "h' \<equiv> link_append rw d (queue_unlink rd d h)"
  shows "represents h' rd (remove1 d xs)" and "segment h' (Head rw) (K @ [d]) (q_last h' rw)"
    and "d_next h' d = d_next h d"
proof -
  define g where "g = queue_unlink rd d h"
  have g: "represents g rd (remove1 d xs)" unfolding g_def by (rule queue_unlink_represents [OF assms(1,2)])
  note p = represents_prev [OF assms(1,2)] and nx = represents_next [OF assms(1,2)]
  have dd: "distinct xs" using assms(1) by (simp add: represents_def)
  have kl: "q_last h rw = (if K = [] then Head rw else Next (last K))" by (rule segment_end [OF assms(3)])
  have gl: "q_last g rw = q_last h rw" "d_prev h d \<noteq> Next d \<Longrightarrow> d_next g d = d_next h d"
    using assms(6) by (auto simp: g_def queue_unlink_def Let_def split: option.splits)
  have kn: "q_last h rw \<noteq> Next x" if "x \<in> set xs" for x
    using kl assms(5) that last_in_set [of K] by (fastforce split: if_splits)
  have k: "segment g (Head rw) K (q_last h rw)"
    using p assms(5,6) nx
    by (intro segment_frame [OF assms(3,4)]) (auto simp: g_def queue_unlink_def Let_def split: option.splits)
  have np: "d_prev h d \<noteq> Next d" using p by auto
  show "represents h' rd (remove1 d xs)"
    unfolding h'_def g_def [symmetric] using assms(6) kn dd notin_set_remove1
    by (intro represents_frame [OF g]) (auto simp: link_append_def gl kl dest: notin_set_remove1)
  show "d_next h' d = d_next h d"
    using kn [OF assms(2)] gl np by (simp add: h'_def g_def [symmetric] link_append_def)
  have "segment h' (Head rw) K (q_last h rw)"
    using kl assms(2,5) by (intro segment_frame [OF k assms(4)]) (auto simp: h'_def g_def [symmetric] link_append_def gl)
  then show "segment h' (Head rw) (K @ [d]) (q_last h' rw)"
    by (simp add: segment_append h'_def g_def [symmetric] link_append_def gl)
qed

lemma relink_step_frame:
  assumes "represents h rd xs" "d \<in> set xs" "segment h (Head rw) K (q_last h rw)" "rd \<noteq> rw"
    "represents h r ys" "r \<noteq> rd" "r \<noteq> rw" "set ys \<inter> (set xs \<union> set K) = {}"
  shows "represents (link_append rw d (queue_unlink rd d h)) r ys"
proof -
  have g: "represents (queue_unlink rd d h) r ys"
    using assms by (intro queue_unlink_frame [of h rd xs]) auto
  have "q_last (queue_unlink rd d h) rw = q_last h rw"
    using assms(4) by (simp add: queue_unlink_def Let_def split: option.split)
  then show ?thesis
    using segment_end [OF assms(3)] last_in_set [of K] assms(2,6-8)
    by (intro represents_frame [OF g]) (auto simp: link_append_def split: if_splits)
qed

lemma represents_next_eq:
  assumes "represents h q (R @ d # ds)"
  shows "d_next h d = (case ds of [] \<Rightarrow> None | e # _ \<Rightarrow> Some e)"
proof -
  have s: "segment h (Next d) ds (q_last h q)" "deref h (q_last h q) = None"
    using assms by (auto simp: represents_def segment_append)
  show ?thesis
  proof (cases ds)
    case Nil
    with s have "Next d = q_last h q" by simp
    then show ?thesis using Nil s(2) by (metis deref.simps(2) list.simps(4))
  qed (use s in simp)
qed

lemma relink_loop_spec:
  assumes "represents h rd (R @ d # ds)" "segment h (Head rw) K (q_last h rw)" "distinct K"
    "set K \<inter> set (R @ d # ds) = {}" "rd \<noteq> rw"
    "represents h r ys" "r \<noteq> rd" "r \<noteq> rw" "set ys \<inter> (set (R @ d # ds) \<union> set K) = {}"
  shows "\<exists>h'. relink_loop (length ds) keep rd rw d h = Some h' \<and>
    represents h' rd (R @ filter (\<lambda>x. \<not> keep x) (d # ds)) \<and>
    segment h' (Head rw) (K @ filter keep (d # ds)) (q_last h' rw) \<and> represents h' r ys"
  using assms
proof (induction ds arbitrary: R K d h)
  case (Nil R K d h)
  have dis: "d \<notin> set R" using Nil.prems(1) by (simp add: represents_def)
  note st = relink_step [OF Nil.prems(1) _ Nil.prems(2-5), of d] relink_step_frame [OF Nil.prems(1) _ Nil.prems(2,5-9), of d]
  show ?case using st dis Nil.prems represents_next_eq [OF Nil.prems(1)]
    by (simp add: relink_loop.simps [of _ _ _ _ d] remove1_append)
next
  case (Cons e ds R K d h)
  have dis: "distinct (R @ d # e # ds)" using Cons.prems(1) by (simp add: represents_def)
  note nx = represents_next_eq [OF Cons.prems(1)]
  show ?case
  proof (cases "keep d")
    case True
    note st = relink_step [OF Cons.prems(1) _ Cons.prems(2-5), of d] relink_step_frame [OF Cons.prems(1) _ Cons.prems(2,5-9), of d]
    show ?thesis using Cons.IH [of "link_append rw d (queue_unlink rd d h)" R e "K @ [d]"] st dis Cons.prems(3-9) nx True
      by (auto simp: relink_loop.simps [of _ _ _ _ d] remove1_append)
  next
    case False
    then show ?thesis using Cons.IH [of h "R @ [d]" e K] Cons.prems nx
      by (auto simp: relink_loop.simps [of _ _ _ _ d])
  qed
qed

text \<open>C3: \<open>free_all_read_locks\<close> on the pointers ends after as many turns as readers wait; the readers
  that may run follow the active ones in order, the others stay in the wait queue in order,
  and any other queue is unchanged.\<close>

theorem free_all_read_locks_links:
  assumes "represents h rd R" "represents h rw (d # ds)" "set R \<inter> set (d # ds) = {}" "rd \<noteq> rw"
    "represents h r ys" "r \<noteq> rd" "r \<noteq> rw" "set ys \<inter> (set R \<union> set (d # ds)) = {}"
  shows "\<exists>h'. relink_all (length ds) keep rd rw h = Some h' \<and>
    represents h' rd (R @ filter (\<lambda>x. \<not> keep x) (d # ds)) \<and>
    represents h' rw (filter keep (d # ds)) \<and> represents h' r ys"
proof -
  define g where "g = set_last rw (Head rw) (set_last rd (q_last h rw)
    (set_prev d (q_last h rd) (assign (q_last h rd) (Some d) h)))"
  have q: "q_data h rw = Some d" using assms(2) by (simp add: represents_def)
  note sp = represents_splice [OF assms(1-4), folded g_def]
  have "represents g r ys"
    using represents_last [OF assms(1)] assms(6-8)
    by (intro represents_frame [OF assms(5)]) (auto simp: g_def)
  then obtain h' where h': "relink_loop (length ds) keep rd rw d g = Some h'"
      "represents h' rd (R @ filter (\<lambda>x. \<not> keep x) (d # ds))"
      "segment h' (Head rw) (filter keep (d # ds)) (q_last h' rw)" "represents h' r ys"
    using relink_loop_spec [OF sp(1) sp(2), of r ys keep] assms(4,6-8) by auto
  define f where "f = assign (q_last h' rw) None h'"
  have dis: "distinct (filter keep (d # ds))" using assms(2) by (simp add: represents_def)
  have kl: "q_last h' rw \<in> insert (Head rw) (Next ` set (filter keep (d # ds)))"
    using segment_end [OF h'(3)] last_in_set [of "filter keep (d # ds)"] by (metis image_eqI insert_iff)
  have "represents f rd (R @ filter (\<lambda>x. \<not> keep x) (d # ds))"
    using kl assms(3,4) by (intro represents_frame [OF h'(2)]) (auto simp: f_def split: if_splits)
  moreover have "represents f r ys"
    using kl assms(7,8) by (intro represents_frame [OF h'(4)]) (auto simp: f_def split: if_splits)
  moreover have "represents f rw (filter keep (d # ds))"
    using segment_assign_end [OF h'(3) dis, of None] dis by (simp add: represents_def f_def)
  moreover have "relink_all (length ds) keep rd rw h = Some f"
    using h'(1) assms(4) by (simp add: relink_all_def q Let_def g_def f_def)
  ultimately show ?thesis by blast
qed

section \<open>The contract of the queues\<close>

datatype queue_op = Append nat nat | Push nat nat | Unlink nat nat

fun queue_legal :: "queue_op \<Rightarrow> (nat \<Rightarrow> nat list) \<Rightarrow> bool" where
  "queue_legal (Append q d) Q \<longleftrightarrow> (\<forall>r. d \<notin> set (Q r))"
| "queue_legal (Push q d) Q \<longleftrightarrow> (\<forall>r. d \<notin> set (Q r))"
| "queue_legal (Unlink q d) Q \<longleftrightarrow> d \<in> set (Q q)"

fun queue_exec :: "(nat \<Rightarrow> nat \<Rightarrow> 'h \<Rightarrow> 'h) \<Rightarrow> (nat \<Rightarrow> nat \<Rightarrow> 'h \<Rightarrow> 'h) \<Rightarrow>
    (nat \<Rightarrow> nat \<Rightarrow> 'h \<Rightarrow> 'h) \<Rightarrow> queue_op \<Rightarrow> 'h \<Rightarrow> 'h" where
  "queue_exec app push unlink (Append q d) h = app q d h"
| "queue_exec app push unlink (Push q d) h = push q d h"
| "queue_exec app push unlink (Unlink q d) h = unlink q d h"

fun queue_spec :: "queue_op \<Rightarrow> (nat \<Rightarrow> nat list) \<Rightarrow> (nat \<Rightarrow> nat list)" where
  "queue_spec (Append q d) Q = Q(q := Q q @ [d])"
| "queue_spec (Push q d) Q = Q(q := d # Q q)"
| "queue_spec (Unlink q d) Q = Q(q := remove1 d (Q q))"

fun legal_run :: "queue_op list \<Rightarrow> (nat \<Rightarrow> nat list) \<Rightarrow> bool" where
  "legal_run [] Q \<longleftrightarrow> True"
| "legal_run (p # ps) Q \<longleftrightarrow> queue_legal p Q \<and> legal_run ps (queue_spec p Q)"

definition separate :: "(nat \<Rightarrow> nat list) \<Rightarrow> bool" where
  "separate Q \<longleftrightarrow> (\<forall>q. distinct (Q q)) \<and> (\<forall>q r. q \<noteq> r \<longrightarrow> set (Q q) \<inter> set (Q r) = {})"

locale linked_queues =
  fixes rep :: "'h \<Rightarrow> nat \<Rightarrow> nat list \<Rightarrow> bool"
    and app :: "nat \<Rightarrow> nat \<Rightarrow> 'h \<Rightarrow> 'h"
    and push :: "nat \<Rightarrow> nat \<Rightarrow> 'h \<Rightarrow> 'h"
    and unlink :: "nat \<Rightarrow> nat \<Rightarrow> 'h \<Rightarrow> 'h"
  assumes app_rep: "rep h q xs \<Longrightarrow> d \<notin> set xs \<Longrightarrow> rep (app q d h) q (xs @ [d])"
    and push_rep: "rep h q xs \<Longrightarrow> d \<notin> set xs \<Longrightarrow> rep (push q d h) q (d # xs)"
    and unlink_rep: "rep h q xs \<Longrightarrow> d \<in> set xs \<Longrightarrow> rep (unlink q d h) q (remove1 d xs)"
    and app_frame: "rep h q xs \<Longrightarrow> rep h r ys \<Longrightarrow> q \<noteq> r \<Longrightarrow> set xs \<inter> set ys = {} \<Longrightarrow>
      d \<notin> set ys \<Longrightarrow> rep (app q d h) r ys"
    and push_frame: "rep h q xs \<Longrightarrow> rep h r ys \<Longrightarrow> q \<noteq> r \<Longrightarrow> set xs \<inter> set ys = {} \<Longrightarrow>
      d \<notin> set ys \<Longrightarrow> rep (push q d h) r ys"
    and unlink_frame: "rep h q xs \<Longrightarrow> rep h r ys \<Longrightarrow> q \<noteq> r \<Longrightarrow> set xs \<inter> set ys = {} \<Longrightarrow>
      d \<in> set xs \<Longrightarrow> rep (unlink q d h) r ys"
begin

lemma separate_spec: "separate Q \<Longrightarrow> queue_legal p Q \<Longrightarrow> separate (queue_spec p Q)"
  by (cases p) (auto simp: separate_def distinct_remove1 dest: notin_set_remove1 split: if_splits)

lemma exec_spec:
  assumes "\<forall>q. rep h q (Q q)" "separate Q" "queue_legal p Q"
  shows "\<forall>q. rep (queue_exec app push unlink p h) q (queue_spec p Q q)"
proof
  fix r
  have d: "q \<noteq> r \<Longrightarrow> set (Q q) \<inter> set (Q r) = {}" for q using assms(2) by (simp add: separate_def)
  have f: "q \<noteq> r \<Longrightarrow> e \<notin> set (Q r) \<Longrightarrow> rep (app q e h) r (Q r) \<and> rep (push q e h) r (Q r)"
    "q \<noteq> r \<Longrightarrow> e \<in> set (Q q) \<Longrightarrow> rep (unlink q e h) r (Q r)" for q e
    using assms(1) d [of q] app_frame [of h q "Q q" r "Q r" e] push_frame [of h q "Q q" r "Q r" e]
      unlink_frame [of h q "Q q" r "Q r" e] by auto
  show "rep (queue_exec app push unlink p h) r (queue_spec p Q r)"
    using assms(1,3) f by (cases p) (auto intro: app_rep push_rep unlink_rep)
qed

lemma run_spec:
  "\<forall>q. rep h q (Q q) \<Longrightarrow> separate Q \<Longrightarrow> legal_run ps Q \<Longrightarrow>
   (\<forall>q. rep (fold (queue_exec app push unlink) ps h) q (fold queue_spec ps Q q)) \<and> separate (fold queue_spec ps Q)"
proof (induction ps arbitrary: h Q)
  case (Cons p ps)
  then show ?case using exec_spec [of h Q p] separate_spec [of Q p] by simp
qed simp

end

interpretation tl: linked_queues represents queue_append queue_push queue_unlink
  by unfold_locales
    (rule queue_append_represents queue_push_represents queue_unlink_represents
      queue_append_frame queue_push_frame queue_unlink_frame; assumption)+

text \<open>The loops of \<open>thr_lock.c\<close> that walk a queue from \<open>data\<close> through \<open>next\<close>; \<open>n\<close> bounds the steps.\<close>

fun queue_walk :: "nat \<Rightarrow> queue_heap \<Rightarrow> link \<Rightarrow> nat list option" where
  "queue_walk n h p =
     (case deref h p of
        None \<Rightarrow> Some []
      | Some x \<Rightarrow> (case n of 0 \<Rightarrow> None | Suc m \<Rightarrow> map_option ((#) x) (queue_walk m h (Next x))))"

declare queue_walk.simps [simp del]

lemma queue_walk_segment:
  "segment h p xs r \<Longrightarrow> deref h r = None \<Longrightarrow> queue_walk (length xs + k) h p = Some xs"
proof (induction xs arbitrary: p)
  case Nil
  then show ?case by (simp add: queue_walk.simps [of _ _ r])
next
  case (Cons x xs)
  then show ?case by (auto simp: queue_walk.simps [of _ _ p] queue_walk.simps [of _ _ "d_prev h x"])
qed

lemma queue_walk_represents: "represents h q xs \<Longrightarrow> queue_walk (length xs) h (Head q) = Some xs"
  using queue_walk_segment [of h "Head q" xs "q_last h q" 0] by (simp add: represents_def)

text \<open>C4: a run of legal appends, pushes and unlinks on the pointer queues of \<open>thr_lock.c\<close> represents
  the same run on lists of instances, for all queues at once: the links stay consistent, no
  queue disturbs another, and a walk from \<open>data\<close> along \<open>next\<close> ends and visits the list.\<close>

theorem lock_queues_refine:
  assumes "\<forall>q. represents h q (Q q)" and "separate Q" and "legal_run ps Q"
  shows "let h' = fold (queue_exec queue_append queue_push queue_unlink) ps h; Q' = fold queue_spec ps Q
    in separate Q' \<and> (\<forall>q. represents h' q (Q' q) \<and> queue_walk (length (Q' q)) h' (Head q) = Some (Q' q))"
  using tl.run_spec [OF assms] by (auto simp: Let_def queue_walk_represents)

definition empty_heap :: queue_heap where
  "empty_heap = \<lparr>q_data = (\<lambda>_. None), q_last = Head, d_next = (\<lambda>_. None), d_prev = Next\<rparr>"

theorem lock_queues_refine_witness:
  "let h' = fold (queue_exec queue_append queue_push queue_unlink)
        [Append 0 5, Append 0 6, Push 0 4, Append 1 9, Unlink 0 5] empty_heap
   in queue_walk 2 h' (Head 0) = Some [4, 6] \<and> queue_walk 1 h' (Head 1) = Some [9]"
proof -
  let ?ps = "[Append 0 5, Append 0 6, Push 0 4, Append 1 9, Unlink 0 5]"
  define h' where "h' = fold (queue_exec queue_append queue_push queue_unlink) ?ps empty_heap"
  define Q' where "Q' = fold queue_spec ?ps (\<lambda>_. [])"
  have "\<forall>q. queue_walk (length (Q' q)) h' (Head q) = Some (Q' q)"
    using lock_queues_refine [of empty_heap "\<lambda>_. []" ?ps]
    by (simp add: represents_def separate_def Let_def empty_heap_def h'_def Q'_def)
  moreover have "Q' 0 = [4, 6]" "Q' 1 = [9]" by (simp_all add: Q'_def)
  ultimately show ?thesis unfolding Let_def h'_def [symmetric] by (metis One_nat_def add_0 list.size(3,4) numeral_2_eq_2 add_Suc)
qed

theorem free_all_read_locks_links_witness:
  "let h = fold (queue_exec queue_append queue_push queue_unlink)
        [Append 0 5, Append 1 6, Append 1 7, Append 2 9] empty_heap
   in \<exists>h'. relink_all 1 even 0 1 h = Some h' \<and> represents h' 0 [5, 7] \<and> represents h' 1 [6] \<and> represents h' 2 [9]"
proof -
  define h where "h = fold (queue_exec queue_append queue_push queue_unlink)
    [Append 0 5, Append 1 6, Append 1 7, Append 2 9] empty_heap"
  have "represents h 0 [5]" "represents h 1 [6, 7]" "represents h 2 [9]"
    by (simp_all add: h_def represents_def queue_append_def Let_def empty_heap_def)
  then show ?thesis
    using free_all_read_locks_links [of h 0 "[5]" 1 6 "[7]" 2 "[9]" even] by (simp add: Let_def h_def)
qed

end
