(* ===== verification/PriorityQueue.thy ===== *)
theory PriorityQueue
  imports Prelude "HOL-Library.Multiset"
begin

text \<open>
  The priority queue of \<open>src/mysys/queues.c\<close> and \<open>src/include/queues.h\<close>: a binary heap in an array
  whose elements start at index 1.  Every read and write of the array is checked against its
  length, and the loops are partial functions, so that \<open>None\<close> stands for an access outside the
  allocation or a loop that does not end; the theorems show that neither happens.
\<close>

section \<open>Data\<close>

text \<open>\<open>q_compare\<close> is \<open>compare(first_cmp_arg, a + offset_to_key, b + offset_to_key)\<close> on elements.  The
  field \<open>q_root\<close> is the allocation of \<open>max_elements + 1\<close> pointers.\<close>

record 'a QUEUE =
  q_root :: "'a list"
  q_elements :: nat
  q_max_elements :: nat
  q_max_at_top :: int
  q_compare :: "'a \<Rightarrow> 'a \<Rightarrow> int"
  q_auto_extent :: nat

text \<open>The comparison as the code uses it, with the sign of \<open>max_at_top\<close>.\<close>

definition q_order :: "'a QUEUE \<Rightarrow> 'a \<Rightarrow> 'a \<Rightarrow> int" where
  "q_order q a b = q_compare q a b * q_max_at_top q"

section \<open>Set-up\<close>

text \<open>\<open>my_malloc\<close> and \<open>my_realloc\<close> return an array of pointers, or nothing.\<close>

definition queue_set_max_at_top :: "bool \<Rightarrow> 'a QUEUE \<Rightarrow> 'a QUEUE" where
  "queue_set_max_at_top set_arg q = q\<lparr>q_max_at_top := (if set_arg then - 1 else 1)\<rparr>"

definition init_queue :: "(nat \<Rightarrow> 'a list option) \<Rightarrow> nat \<Rightarrow> bool \<Rightarrow> ('a \<Rightarrow> 'a \<Rightarrow> int) \<Rightarrow> 'a QUEUE \<Rightarrow> nat \<times> 'a QUEUE" where
  "init_queue my_malloc max_elements max_at_top compare q =
     (case my_malloc (u32 (int max_elements + 1)) of
        None \<Rightarrow> (1, q)
      | Some root \<Rightarrow>
          (0, queue_set_max_at_top max_at_top
             (q\<lparr>q_root := root, q_elements := 0, q_compare := compare, q_max_elements := max_elements\<rparr>)))"

definition init_queue_ex :: "(nat \<Rightarrow> 'a list option) \<Rightarrow> nat \<Rightarrow> bool \<Rightarrow> ('a \<Rightarrow> 'a \<Rightarrow> int) \<Rightarrow> nat \<Rightarrow> 'a QUEUE \<Rightarrow>
    nat \<times> 'a QUEUE" where
  "init_queue_ex my_malloc max_elements max_at_top compare auto_extent q =
     (let (ret, q) = init_queue my_malloc max_elements max_at_top compare q
      in if ret \<noteq> 0 then (ret, q) else (0, q\<lparr>q_auto_extent := auto_extent\<rparr>))"

definition resize_queue :: "('a list \<Rightarrow> nat \<Rightarrow> 'a list option) \<Rightarrow> nat \<Rightarrow> 'a QUEUE \<Rightarrow> nat \<times> 'a QUEUE" where
  "resize_queue my_realloc max_elements q =
     (if q_max_elements q = max_elements then (0, q)
      else case my_realloc (q_root q) (u32 (int max_elements + 1)) of
        None \<Rightarrow> (1, q)
      | Some new_root \<Rightarrow>
          (0, q\<lparr>q_elements := min (q_elements q) max_elements, q_max_elements := max_elements,
                q_root := new_root\<rparr>))"

definition reinit_queue :: "('a list \<Rightarrow> nat \<Rightarrow> 'a list option) \<Rightarrow> nat \<Rightarrow> bool \<Rightarrow> ('a \<Rightarrow> 'a \<Rightarrow> int) \<Rightarrow> 'a QUEUE \<Rightarrow>
    nat \<times> 'a QUEUE" where
  "reinit_queue my_realloc max_elements max_at_top compare q =
     (0, snd (resize_queue my_realloc max_elements
            (queue_set_max_at_top max_at_top (q\<lparr>q_elements := 0, q_compare := compare\<rparr>))))"

section \<open>Operations\<close>

definition queue_top :: "'a QUEUE \<Rightarrow> 'a option" where
  "queue_top q = get (q_root q) 1"

definition queue_element :: "'a QUEUE \<Rightarrow> nat \<Rightarrow> 'a option" where
  "queue_element q index = get (q_root q) (index + 1)"

definition queue_remove_all :: "'a QUEUE \<Rightarrow> 'a QUEUE" where
  "queue_remove_all q = q\<lparr>q_elements := 0\<rparr>"

text \<open>The loop of \<open>queue_insert\<close>: it stops at index 0 at the latest, where the element itself is.\<close>

partial_function (option) insert_loop :: "('a \<Rightarrow> 'a \<Rightarrow> int) \<Rightarrow> 'a \<Rightarrow> 'a list \<Rightarrow> nat \<Rightarrow> ('a list \<times> nat) option" where
  "insert_loop cmp element root idx =
     do {
       parent \<leftarrow> get root (idx div 2);
       if cmp element parent < 0 then
         do {
           root \<leftarrow> put root idx parent;
           insert_loop cmp element root (idx div 2)
         }
       else Some (root, idx)
     }"

definition queue_insert :: "'a \<Rightarrow> 'a QUEUE \<Rightarrow> 'a QUEUE option" where
  "queue_insert element q =
     do {
       root \<leftarrow> put (q_root q) 0 element;
       let idx = q_elements q + 1;
       (root, i) \<leftarrow> insert_loop (q_order q) element root idx;
       root \<leftarrow> put root i element;
       Some (q\<lparr>q_root := root, q_elements := idx\<rparr>)
     }"

definition queue_insert_safe :: "('a list \<Rightarrow> nat \<Rightarrow> 'a list option) \<Rightarrow> 'a \<Rightarrow> 'a QUEUE \<Rightarrow> (nat \<times> 'a QUEUE) option" where
  "queue_insert_safe my_realloc element q =
     (if q_elements q = q_max_elements q then
        if q_auto_extent q = 0 then Some (2, q)
        else
          let (err, q) = resize_queue my_realloc (u32 (int (q_max_elements q) + int (q_auto_extent q))) q
          in if err \<noteq> 0 then Some (1, q) else map_option (Pair 0) (queue_insert element q)
      else map_option (Pair 0) (queue_insert element q))"

text \<open>The first loop of \<open>_downheap\<close>.  It returns \<open>True\<close> when the function returns from inside it.\<close>

partial_function (option) down_loop ::
  "('a \<Rightarrow> 'a \<Rightarrow> int) \<Rightarrow> nat \<Rightarrow> 'a \<Rightarrow> bool \<Rightarrow> 'a list \<Rightarrow> nat \<Rightarrow> ('a list \<times> nat \<times> bool) option" where
  "down_loop cmp elements element first root idx =
     (if idx \<le> elements div 2 then
        do {
          let next_index = idx + idx;
          next_index \<leftarrow>
            (if next_index < elements then
               do {
                 a \<leftarrow> get root next_index;
                 b \<leftarrow> get root (next_index + 1);
                 Some (if cmp a b > 0 then next_index + 1 else next_index)
               }
             else Some next_index);
          child \<leftarrow> get root next_index;
          if first \<and> cmp child element \<ge> 0 then
            do {
              root \<leftarrow> put root idx element;
              Some (root, idx, True)
            }
          else
            do {
              root \<leftarrow> put root idx child;
              down_loop cmp elements element False root next_index
            }
        }
      else Some (root, idx, False))"

text \<open>The second loop, back towards \<open>start_idx\<close>.\<close>

partial_function (option) up_loop ::
  "('a \<Rightarrow> 'a \<Rightarrow> int) \<Rightarrow> nat \<Rightarrow> 'a \<Rightarrow> 'a list \<Rightarrow> nat \<Rightarrow> ('a list \<times> nat) option" where
  "up_loop cmp start_idx element root idx =
     (if idx div 2 > start_idx then
        do {
          parent \<leftarrow> get root (idx div 2);
          if cmp parent element < 0 then Some (root, idx)
          else
            do {
              root \<leftarrow> put root idx parent;
              up_loop cmp start_idx element root (idx div 2)
            }
        }
      else Some (root, idx))"

definition downheap_root :: "('a \<Rightarrow> 'a \<Rightarrow> int) \<Rightarrow> nat \<Rightarrow> nat \<Rightarrow> 'a list \<Rightarrow> 'a list option" where
  "downheap_root cmp elements start_idx root =
     do {
       element \<leftarrow> get root start_idx;
       (root, idx, returned) \<leftarrow> down_loop cmp elements element True root start_idx;
       if returned then Some root
       else
         do {
           (root, idx) \<leftarrow> up_loop cmp start_idx element root idx;
           put root idx element
         }
     }"

definition downheap :: "nat \<Rightarrow> 'a QUEUE \<Rightarrow> 'a QUEUE option" where
  "downheap idx q = map_option (\<lambda>root. q\<lparr>q_root := root\<rparr>) (downheap_root (q_order q) (q_elements q) idx (q_root q))"

definition queue_replaced :: "'a QUEUE \<Rightarrow> 'a QUEUE option" where
  "queue_replaced q = downheap 1 q"

definition queue_remove :: "nat \<Rightarrow> 'a QUEUE \<Rightarrow> ('a \<times> 'a QUEUE) option" where
  "queue_remove idx q =
     do {
       let idx = idx + 1;
       element \<leftarrow> get (q_root q) idx;
       x \<leftarrow> get (q_root q) (q_elements q);
       root \<leftarrow> put (q_root q) idx x;
       q \<leftarrow> downheap idx (q\<lparr>q_root := root, q_elements := u32 (int (q_elements q) - 1)\<rparr>);
       Some (element, q)
     }"

fun fix_loop :: "nat \<Rightarrow> 'a QUEUE \<Rightarrow> 'a QUEUE option" where
  "fix_loop 0 q = Some q"
| "fix_loop (Suc i) q = do { q \<leftarrow> downheap (Suc i) q; fix_loop i q }"

definition queue_fix :: "'a QUEUE \<Rightarrow> 'a QUEUE option" where
  "queue_fix q = fix_loop (q_elements q div 2) q"

section \<open>Heaps\<close>

definition total_preorder :: "('a \<Rightarrow> 'a \<Rightarrow> int) \<Rightarrow> bool" where
  "total_preorder cmp \<longleftrightarrow> (\<forall>a b. sgn (cmp a b) = - sgn (cmp b a)) \<and>
     (\<forall>a b c. cmp a b \<le> 0 \<longrightarrow> cmp b c \<le> 0 \<longrightarrow> cmp a c \<le> 0)"

text \<open>Every element whose parent has index at least \<open>s\<close> is not before its parent.\<close>

definition heap_from :: "('a \<Rightarrow> 'a \<Rightarrow> int) \<Rightarrow> nat \<Rightarrow> nat \<Rightarrow> 'a list \<Rightarrow> bool" where
  "heap_from cmp s n r \<longleftrightarrow> (\<forall>i \<le> n. s \<le> i div 2 \<and> 1 \<le> i div 2 \<longrightarrow> cmp (r ! (i div 2)) (r ! i) \<le> 0)"

definition heap_contents :: "nat \<Rightarrow> 'a list \<Rightarrow> 'a multiset" where
  "heap_contents n r = image_mset ((!) r) (mset_set {1..n})"

lemma heap_contents_update:
  assumes "1 \<le> i" "i \<le> n" "i < length r"
  shows "heap_contents n (r[i := x]) = heap_contents n r - {# r ! i #} + {# x #}"
    and "r ! i \<in># heap_contents n r"
proof -
  have "mset_set {1..n} = add_mset i (mset_set ({1..n} - {i}))"
    using assms by (simp add: mset_set.remove)
  moreover have "image_mset ((!) (r[i := x])) (mset_set ({1..n} - {i})) = image_mset ((!) r) (mset_set ({1..n} - {i}))"
    by (rule image_mset_cong) auto
  ultimately show "heap_contents n (r[i := x]) = heap_contents n r - {# r ! i #} + {# x #}"
    "r ! i \<in># heap_contents n r"
    using assms(3) by (simp_all add: heap_contents_def)
qed

lemma heap_contents_swap:
  assumes "1 \<le> i" "i \<le> n" "1 \<le> j" "j \<le> n" "n < length r" "i \<noteq> j"
  shows "heap_contents n (r[i := r ! j, j := e]) = heap_contents n (r[i := e])"
proof -
  have "heap_contents n (r[i := r ! j, j := e]) = heap_contents n (r[i := r ! j]) - {# r ! j #} + {# e #}"
    using heap_contents_update(1) [of j n "r[i := r ! j]" e] assms by simp
  then show ?thesis using heap_contents_update [of i n r] assms by simp
qed

lemma heap_contents_cong: "(\<And>i. 1 \<le> i \<Longrightarrow> i \<le> n \<Longrightarrow> r ! i = r' ! i) \<Longrightarrow> heap_contents n r = heap_contents n r'"
  unfolding heap_contents_def by (rule image_mset_cong) simp

lemma heap_contents_Suc: "heap_contents (Suc n) r = add_mset (r ! Suc n) (heap_contents n r)"
  by (simp add: heap_contents_def atLeastAtMostSuc_conv)

lemma heap_contents_0 [simp]: "heap_contents 0 r = {#}"
  by (simp add: heap_contents_def)

lemma heap_update:
  assumes "\<And>i. s \<le> i div 2 \<Longrightarrow> 1 \<le> i div 2 \<Longrightarrow> i \<le> n \<Longrightarrow> i \<noteq> idx \<Longrightarrow> i div 2 \<noteq> idx \<Longrightarrow> cmp (r ! (i div 2)) (r ! i) \<le> 0"
    and "s \<le> idx div 2 \<Longrightarrow> 1 \<le> idx div 2 \<Longrightarrow> cmp (r ! (idx div 2)) x \<le> 0"
    and "\<And>i. i \<le> n \<Longrightarrow> i div 2 = idx \<Longrightarrow> cmp x (r ! i) \<le> 0" and "idx < length r"
  shows "heap_from cmp s n (r[idx := x])"
  unfolding heap_from_def
proof (intro allI impI)
  fix i assume i: "i \<le> n" "s \<le> i div 2 \<and> 1 \<le> i div 2"
  then have "i div 2 \<noteq> i" by (cases i) auto
  then show "cmp (r[idx := x] ! (i div 2)) (r[idx := x] ! i) \<le> 0"
    using assms i by (auto simp: nth_list_update)
qed

lemma heap_set:
  assumes "heap_from cmp s n r" "s \<le> idx div 2 \<Longrightarrow> 1 \<le> idx div 2 \<Longrightarrow> cmp (r ! (idx div 2)) x \<le> 0"
    "\<And>i. i \<le> n \<Longrightarrow> i div 2 = idx \<Longrightarrow> cmp x (r ! i) \<le> 0" "idx < length r"
  shows "heap_from cmp s n (r[idx := x])"
  using assms by (intro heap_update) (auto simp: heap_from_def)

lemma heap_set_top:
  assumes "heap_from cmp (Suc s) n r" "1 \<le> s" "\<And>i. i \<le> n \<Longrightarrow> i div 2 = s \<Longrightarrow> cmp x (r ! i) \<le> 0" "s < length r"
  shows "heap_from cmp s n (r[s := x])"
  using assms by (intro heap_update) (auto simp: heap_from_def)

text \<open>The index the down loop moves to.\<close>

definition min_child :: "('a \<Rightarrow> 'a \<Rightarrow> int) \<Rightarrow> nat \<Rightarrow> 'a list \<Rightarrow> nat \<Rightarrow> nat" where
  "min_child cmp n r idx =
     (if idx + idx < n \<and> cmp (r ! (idx + idx)) (r ! (idx + idx + 1)) > 0 then idx + idx + 1 else idx + idx)"

lemma min_child_range:
  "1 \<le> idx \<Longrightarrow> idx \<le> n div 2 \<Longrightarrow> min_child cmp n r idx \<le> n \<and> min_child cmp n r idx div 2 = idx \<and> idx < min_child cmp n r idx"
  by (auto simp: min_child_def)

lemma down_loop_step:
  assumes "1 \<le> idx" "n < length r"
  shows "down_loop cmp n e first r idx =
    (if idx \<le> n div 2 then
       if first \<and> cmp (r ! min_child cmp n r idx) e \<ge> 0 then Some (r[idx := e], idx, True)
       else down_loop cmp n e False (r[idx := r ! min_child cmp n r idx]) (min_child cmp n r idx)
     else Some (r, idx, False))"
  using assms by (subst down_loop.simps) (auto simp: get_def put_def min_child_def Let_def)

locale heap_order =
  fixes cmp :: "'a \<Rightarrow> 'a \<Rightarrow> int"
  assumes total: "total_preorder cmp"
begin

lemma cmp_sgn: "sgn (cmp a b) = - sgn (cmp b a)"
  using total unfolding total_preorder_def by blast

lemma cmp_trans: "cmp a b \<le> 0 \<Longrightarrow> cmp b c \<le> 0 \<Longrightarrow> cmp a c \<le> 0"
  using total unfolding total_preorder_def by blast

lemma cmp_neg: "cmp a b < 0 \<longleftrightarrow> 0 < cmp b a" "cmp a b \<le> 0 \<longleftrightarrow> 0 \<le> cmp b a"
proof -
  have "sgn (cmp a b) = - sgn (cmp b a)" by (rule cmp_sgn)
  then show "cmp a b < 0 \<longleftrightarrow> 0 < cmp b a" "cmp a b \<le> 0 \<longleftrightarrow> 0 \<le> cmp b a"
    unfolding sgn_if by (simp_all split: if_splits)
qed

lemma cmp_refl [simp]: "cmp a a = 0"
  using cmp_neg [of a a] by linarith

lemma min_child_least:
  assumes "1 \<le> idx" "i \<le> n" "i div 2 = idx"
  shows "cmp (r ! min_child cmp n r idx) (r ! i) \<le> 0"
proof -
  have "i = idx + idx \<or> i = idx + idx + 1" using assms(3) by auto
  then show ?thesis
    using assms(2) cmp_neg [of "r ! (idx + idx + 1)" "r ! (idx + idx)"]
    by (auto simp: min_child_def not_less)
qed

end

section \<open>The loops keep the heap\<close>

text \<open>Index \<open>i\<close> is in the subtree of index \<open>s\<close>.\<close>

definition below :: "nat \<Rightarrow> nat \<Rightarrow> bool" where
  "below s i \<longleftrightarrow> (\<exists>k. i div 2 ^ k = s)"

lemma below_refl: "below s s"
  unfolding below_def by (rule exI [of _ 0]) simp

lemma below_child: "below s (i div 2) \<Longrightarrow> below s i"
  unfolding below_def by (metis div_mult2_eq power_Suc)

lemma below_parent:
  assumes "below s i" "s < i"
  shows "below s (i div 2)" and "s \<le> i div 2"
proof -
  obtain k where k: "i div 2 ^ k = s" using assms(1) by (auto simp: below_def)
  with assms(2) obtain k' where "k = Suc k'" by (cases k) auto
  with k have "i div 2 div 2 ^ k' = s" by (simp add: div_mult2_eq)
  then show "below s (i div 2)" "s \<le> i div 2" by (auto simp: below_def)
qed

context heap_order
begin

text \<open>After its first turn the down loop keeps a heap: the hole at \<open>idx\<close> still holds a copy of its parent.\<close>

lemma down_loop_False:
  assumes "heap_from cmp s n r" "1 \<le> s" "below s idx" "s < idx" "idx \<le> n" "n < length r" "r ! idx = r ! (idx div 2)"
  shows "\<exists>r' j. down_loop cmp n e False r idx = Some (r', j, False) \<and> length r' = length r \<and> heap_from cmp s n r' \<and>
    below s j \<and> s < j \<and> j \<le> n \<and> n div 2 < j \<and> heap_contents n (r'[j := e]) = heap_contents n (r[idx := e]) \<and>
    (\<forall>i. i \<le> s \<or> n < i \<longrightarrow> r' ! i = r ! i)"
  using assms
proof (induction "n - idx" arbitrary: r idx rule: less_induct)
  case less
  have i1: "1 \<le> idx" "s < idx" "s \<le> idx div 2" using less.prems(2,4) below_parent(2) [OF less.prems(3,4)] by auto
  show ?case
  proof (cases "idx \<le> n div 2")
    case False
    then show ?thesis using less.prems i1 by (subst down_loop_step) auto
  next
    case True
    define c where "c = min_child cmp n r idx"
    define r1 where "r1 = r[idx := r ! c]"
    have c: "c \<le> n" "c div 2 = idx" "idx < c" using min_child_range [OF i1(1) True, of cmp r] by (simp_all add: c_def)
    have le: "cmp (r ! c) (r ! i) \<le> 0" if "i \<le> n" "i div 2 = idx" for i
      using min_child_least [OF i1(1) that] by (simp add: c_def)
    have hc: "cmp (r ! idx) (r ! c) \<le> 0"
      using less.prems(1) c i1 unfolding heap_from_def by (metis less_imp_le)
    have h1: "heap_from cmp s n r1" unfolding r1_def
      using hc le less.prems(5-7) by (intro heap_set [OF less.prems(1)]) auto
    have m: "heap_contents n (r1[c := e]) = heap_contents n (r[idx := e])"
      unfolding r1_def using c i1 less.prems(5,6) by (intro heap_contents_swap) auto
    have "r1 ! c = r1 ! (c div 2)" "n - c < n - idx" "below s c" "s < c" "n < length r1"
      using c i1 less.prems(3,5,6) below_child [of s c] by (auto simp: r1_def)
    then obtain r' j where r': "down_loop cmp n e False r1 c = Some (r', j, False)" "length r' = length r1" "heap_from cmp s n r'"
      "below s j" "s < j" "j \<le> n" "n div 2 < j" "heap_contents n (r'[j := e]) = heap_contents n (r1[c := e])"
      "\<forall>i. i \<le> s \<or> n < i \<longrightarrow> r' ! i = r1 ! i"
      using less.hyps [of c r1] h1 less.prems(2) c(1) by blast
    moreover have "\<forall>i. i \<le> s \<or> n < i \<longrightarrow> r1 ! i = r ! i" using i1 less.prems(5) by (auto simp: r1_def)
    moreover have "down_loop cmp n e False r idx = down_loop cmp n e False r1 c"
      using True i1 less.prems(6) by (subst down_loop_step) (auto simp: r1_def c_def)
    ultimately show ?thesis using m by (auto simp: r1_def)
  qed
qed

lemma up_loop_heap:
  assumes "heap_from cmp s n r" "1 \<le> s" "below s idx" "s < idx" "idx \<le> n" "n < length r"
    "\<And>i. i \<le> n \<Longrightarrow> i div 2 = idx \<Longrightarrow> cmp e (r ! i) \<le> 0" "cmp (r ! s) e < 0"
  shows "\<exists>r' j. up_loop cmp s e r idx = Some (r', j) \<and> length r' = length r \<and> j < length r \<and>
    heap_from cmp s n (r'[j := e]) \<and> heap_contents n (r'[j := e]) = heap_contents n (r[idx := e]) \<and>
    (\<forall>i. i < s \<or> n < i \<longrightarrow> r'[j := e] ! i = r ! i)"
  using assms
proof (induction idx arbitrary: r rule: less_induct)
  case (less idx)
  have i1: "s < idx" "idx div 2 < idx" "s \<le> idx div 2" using less.prems(2,4) below_parent(2) [OF less.prems(3,4)] by auto
  show ?case
  proof (cases "s < idx div 2 \<and> 0 \<le> cmp (r ! (idx div 2)) e")
    case False
    then have "cmp (r ! (idx div 2)) e \<le> 0" using i1(3) less.prems(8) by (cases "s = idx div 2") auto
    then have "heap_from cmp s n (r[idx := e])"
      using less.prems(5-7) by (intro heap_set [OF less.prems(1)]) auto
    moreover have "up_loop cmp s e r idx = Some (r, idx)"
      using False less.prems(5,6) i1 by (subst up_loop.simps) (auto simp: get_def)
    ultimately show ?thesis using less.prems(5,6) i1 by auto
  next
    case True
    define p where "p = idx div 2"
    define r1 where "r1 = r[idx := r ! p]"
    have ep: "cmp e (r ! p) \<le> 0" using True cmp_neg(2) by (simp add: p_def)
    have h: "cmp (r ! p) (r ! i) \<le> 0" if "i \<le> n" "i div 2 = p" for i
      using less.prems(1) that True unfolding heap_from_def p_def by (metis One_nat_def Suc_leI less.prems(2) less_imp_le order_trans zero_less_one)
    have up: "up_loop cmp s e r idx = up_loop cmp s e r1 p"
      using True less.prems(5,6) i1 by (subst up_loop.simps) (auto simp: get_def put_def r1_def p_def)
    have c: "cmp (r ! p) (r ! i) \<le> 0" if "i \<le> n" "i div 2 = idx" for i
    proof -
      have "cmp (r ! idx) (r ! i) \<le> 0"
        using less.prems(1) that i1 unfolding heap_from_def by (metis One_nat_def Suc_leI gr0I less_imp_le not_less0)
      then show ?thesis using h [of idx] less.prems(5) cmp_trans by (auto simp: p_def)
    qed
    have h1: "heap_from cmp s n r1" unfolding r1_def
      using c less.prems(5,6) by (intro heap_set [OF less.prems(1)]) (auto simp: p_def)
    have e1: "cmp e (r1 ! i) \<le> 0" if "i \<le> n" "i div 2 = p" for i
      using h [OF that] ep cmp_trans [OF ep] less.prems(5,6) by (auto simp: r1_def nth_list_update)
    have m: "heap_contents n (r1[p := e]) = heap_contents n (r[idx := e])"
      unfolding r1_def using True less.prems(2,5,6) i1 by (intro heap_contents_swap) (auto simp: p_def)
    have s: "cmp (r1 ! s) e < 0" using less.prems(8) i1 by (simp add: r1_def)
    have "below s p" "s < p" "p \<le> n" "n < length r1" "p < idx"
      using True i1 less.prems(5,6) below_parent(1) [OF less.prems(3,4)] by (auto simp: p_def r1_def)
    then obtain r' j where "up_loop cmp s e r1 p = Some (r', j)" "length r' = length r1" "j < length r1"
      "heap_from cmp s n (r'[j := e])" "heap_contents n (r'[j := e]) = heap_contents n (r1[p := e])"
      "\<forall>i. i < s \<or> n < i \<longrightarrow> r'[j := e] ! i = r1 ! i"
      using less.IH [of p r1] h1 less.prems(2) e1 s by blast
    moreover have "\<forall>i. i < s \<or> n < i \<longrightarrow> r1 ! i = r ! i" using i1 less.prems(5) by (auto simp: r1_def)
    ultimately show ?thesis using m up by (auto simp: r1_def)
  qed
qed

end

context heap_order
begin

lemma downheap_root_heap:
  assumes "heap_from cmp (Suc s) n r" "1 \<le> s" "n < length r" "s < length r"
  shows "\<exists>r'. downheap_root cmp n s r = Some r' \<and> length r' = length r \<and> heap_from cmp s n r' \<and>
    heap_contents n r' = heap_contents n r \<and> (\<forall>i. i < s \<or> n < i \<longrightarrow> r' ! i = r ! i)"
proof -
  define e where "e = r ! s"
  define c where "c = min_child cmp n r s"
  note ds = down_loop_step [OF assms(2,3), of cmp e True]
  have dr: "downheap_root cmp n s r = (case down_loop cmp n e True r s of None \<Rightarrow> None
      | Some (root, idx, returned) \<Rightarrow> if returned then Some root
          else (case up_loop cmp s e root idx of None \<Rightarrow> None | Some (root, idx) \<Rightarrow> put root idx e))"
    using assms(4) by (auto simp: downheap_root_def get_def e_def split: option.splits)
  have id: "r[s := e] = r" by (simp add: e_def)
  consider "n div 2 < s" | "s \<le> n div 2" "0 \<le> cmp (r ! c) e" | "s \<le> n div 2" "cmp (r ! c) e < 0" by linarith
  then show ?thesis
  proof cases
    case 1
    have "heap_from cmp s n (r[s := e])"
      using 1 assms by (intro heap_set_top) auto
    moreover have "\<not> s < s div 2" by (simp add: not_less)
    then have "up_loop cmp s e r s = Some (r, s)" by (subst up_loop.simps) (simp only: if_False)
    ultimately show ?thesis using 1 ds assms(4) by (simp add: dr put_def id)
  next
    case 2
    have "cmp e (r ! i) \<le> 0" if "i \<le> n" "i div 2 = s" for i
      using min_child_least [OF assms(2) that, of r] cmp_neg(2) [of e] cmp_trans [of e "r ! c"] 2 by (auto simp: c_def)
    then have "heap_from cmp s n (r[s := e])" using assms by (intro heap_set_top) auto
    then show ?thesis using 2 ds by (simp add: dr id c_def)
  next
    case 3
    define r1 where "r1 = r[s := r ! c]"
    have c: "c \<le> n" "c div 2 = s" "s < c" using min_child_range [OF assms(2) 3(1), of cmp r] by (simp_all add: c_def)
    have h1: "heap_from cmp s n r1" unfolding r1_def c_def
      using min_child_least [OF assms(2)] assms by (intro heap_set_top) auto
    have b: "below s c" using c below_refl below_child by metis
    have "n < length r1" "r1 ! c = r1 ! (c div 2)" using c assms(3,4) by (auto simp: r1_def)
    then obtain r2 j where r2: "down_loop cmp n e False r1 c = Some (r2, j, False)" "length r2 = length r1" "heap_from cmp s n r2"
      "below s j" "s < j" "j \<le> n" "n div 2 < j" "heap_contents n (r2[j := e]) = heap_contents n (r1[c := e])"
      "\<forall>i. i \<le> s \<or> n < i \<longrightarrow> r2 ! i = r1 ! i"
      using down_loop_False [OF h1 assms(2) b c(3,1), of e] by blast
    have "n < length r2" "cmp (r2 ! s) e < 0" "\<And>i. i \<le> n \<Longrightarrow> i div 2 = j \<Longrightarrow> cmp e (r2 ! i) \<le> 0"
      using r2 assms(3,4) 3 by (auto simp: r1_def)
    then obtain r3 k where r3: "up_loop cmp s e r2 j = Some (r3, k)" "length r3 = length r2" "k < length r2"
      "heap_from cmp s n (r3[k := e])" "heap_contents n (r3[k := e]) = heap_contents n (r2[j := e])"
      "\<forall>i. i < s \<or> n < i \<longrightarrow> r3[k := e] ! i = r2 ! i"
      using up_loop_heap [OF r2(3) assms(2) r2(4-6)] by blast
    have "heap_contents n (r1[c := e]) = heap_contents n r"
      using heap_contents_swap [of s n c r e] assms c by (simp add: r1_def id)
    moreover have "down_loop cmp n e True r s = Some (r2, j, False)" using ds 3 r2(1) by (simp add: c_def r1_def)
    moreover have "\<forall>i. i < s \<or> n < i \<longrightarrow> r1 ! i = r ! i" using c by (auto simp: r1_def)
    ultimately show ?thesis using r2(2,8,9) r3 by (simp add: dr put_def r1_def)
  qed
qed

lemma insert_loop_heap:
  assumes "1 \<le> idx" "idx \<le> n" "n < length r" "r ! 0 = e"
    "\<And>i. i \<le> n \<Longrightarrow> 1 \<le> i div 2 \<Longrightarrow> i \<noteq> idx \<Longrightarrow> i div 2 \<noteq> idx \<Longrightarrow> cmp (r ! (i div 2)) (r ! i) \<le> 0"
    "\<And>i. i \<le> n \<Longrightarrow> i div 2 = idx \<Longrightarrow> cmp e (r ! i) \<le> 0"
    "\<And>i. i \<le> n \<Longrightarrow> i div 2 = idx \<Longrightarrow> 1 \<le> idx div 2 \<Longrightarrow> cmp (r ! (idx div 2)) (r ! i) \<le> 0"
  shows "\<exists>r' j. insert_loop cmp e r idx = Some (r', j) \<and> length r' = length r \<and> j < length r \<and>
    heap_from cmp 1 n (r'[j := e]) \<and> heap_contents n (r'[j := e]) = heap_contents n (r[idx := e])"
  using assms
proof (induction idx arbitrary: r rule: less_induct)
  case (less idx)
  define p where "p = idx div 2"
  have pi: "p < idx" using less.prems(1) by (simp add: p_def)
  show ?case
  proof (cases "cmp e (r ! p) < 0")
    case False
    then have "heap_from cmp 1 n (r[idx := e])"
      using less.prems cmp_neg(2) by (intro heap_update) (auto simp: p_def not_less)
    moreover have "insert_loop cmp e r idx = Some (r, idx)"
      using False pi less.prems(2,3) by (subst insert_loop.simps) (simp add: get_def p_def)
    ultimately show ?thesis using less.prems(2,3) by auto
  next
    case True
    define r1 where "r1 = r[idx := r ! p]"
    have p1: "1 \<le> p" using True less.prems(4) by (cases p) auto
    have il: "insert_loop cmp e r idx = insert_loop cmp e r1 p"
      using True pi less.prems(2,3) by (subst insert_loop.simps) (simp add: get_def put_def p_def r1_def)
    have sib: "cmp (r ! p) (r1 ! i) \<le> 0" if "i \<le> n" "i div 2 = p" for i
      using less.prems(5) [of i] that p1 pi less.prems(2,3) by (cases "i = idx") (auto simp: r1_def)
    have j5: "cmp (r1 ! (i div 2)) (r1 ! i) \<le> 0" if "i \<le> n" "1 \<le> i div 2" "i \<noteq> p" "i div 2 \<noteq> p" for i
      using less.prems(5) [of i] less.prems(7) [of i] that p1 less.prems(2,3)
      by (cases "i div 2 = idx"; cases "i = idx") (auto simp: r1_def p_def)
    have j6: "cmp e (r1 ! i) \<le> 0" if "i \<le> n" "i div 2 = p" for i
      using sib [OF that] True cmp_trans [of e "r ! p"] by auto
    have j7: "cmp (r1 ! (p div 2)) (r1 ! i) \<le> 0" if "i \<le> n" "i div 2 = p" "1 \<le> p div 2" for i
    proof -
      have "p div 2 \<noteq> idx" "p div 2 < p" using pi p1 by auto
      then have "cmp (r ! (p div 2)) (r ! p) \<le> 0" using less.prems(5) [of p] that(3) pi less.prems(2) by simp
      then show ?thesis using sib [OF that(1,2)] cmp_trans \<open>p div 2 \<noteq> idx\<close> by (auto simp: r1_def)
    qed
    have "p \<le> n" "n < length r1" "r1 ! 0 = e" using pi less.prems(1-4) by (auto simp: r1_def)
    then obtain r' j where "insert_loop cmp e r1 p = Some (r', j)" "length r' = length r1" "j < length r1"
      "heap_from cmp 1 n (r'[j := e])" "heap_contents n (r'[j := e]) = heap_contents n (r1[p := e])"
      using less.IH [OF pi p1, of r1] j5 j6 j7 by blast
    moreover have "heap_contents n (r1[p := e]) = heap_contents n (r[idx := e])"
      unfolding r1_def using p1 pi less.prems(2,3) by (intro heap_contents_swap) auto
    ultimately show ?thesis by (simp add: il r1_def)
  qed
qed

end

context heap_order
begin

lemma heap_top_least: "heap_from cmp 1 n r \<Longrightarrow> 1 \<le> i \<Longrightarrow> i \<le> n \<Longrightarrow> cmp (r ! 1) (r ! i) \<le> 0"
proof (induction i rule: less_induct)
  case (less i)
  show ?case
  proof (cases "i = 1")
    case False
    then have "1 \<le> i div 2" "i div 2 < i" "i div 2 \<le> n" using less.prems by auto
    then have "cmp (r ! 1) (r ! (i div 2)) \<le> 0" "cmp (r ! (i div 2)) (r ! i) \<le> 0"
      using less.IH [of "i div 2"] less.prems by (auto simp: heap_from_def)
    then show ?thesis by (rule cmp_trans)
  qed simp
qed

end

section \<open>The queue\<close>

definition queue_wf :: "'a QUEUE \<Rightarrow> bool" where
  "queue_wf q \<longleftrightarrow> length (q_root q) = q_max_elements q + 1 \<and> q_elements q \<le> q_max_elements q \<and>
     q_max_elements q + 1 < 2 ^ 32 \<and> (q_max_at_top q = 1 \<or> q_max_at_top q = - 1) \<and> total_preorder (q_compare q)"

definition queue_ok :: "'a QUEUE \<Rightarrow> bool" where
  "queue_ok q \<longleftrightarrow> queue_wf q \<and> heap_from (q_order q) 1 (q_elements q) (q_root q)"

definition queue_contents :: "'a QUEUE \<Rightarrow> 'a multiset" where
  "queue_contents q = heap_contents (q_elements q) (q_root q)"

lemma total_preorder_neg:
  assumes "total_preorder cmp"
  shows "total_preorder (\<lambda>a b. - cmp a b)"
  using assms heap_order.cmp_neg [OF heap_order.intro [OF assms]] unfolding total_preorder_def
  by (metis minus_equation_iff neg_0_le_iff_le neg_le_0_iff_le sgn_minus)

lemma queue_order:
  assumes "queue_wf q"
  shows "heap_order (q_order q)"
proof -
  have "q_order q = q_compare q \<or> q_order q = (\<lambda>a b. - q_compare q a b)"
    using assms by (auto simp: queue_wf_def q_order_def fun_eq_iff)
  then show ?thesis using assms by (auto simp: heap_order_def queue_wf_def dest: total_preorder_neg)
qed

lemma queue_order_cong [simp]:
  "q_order (q\<lparr>q_root := r\<rparr>) = q_order q" "q_order (q\<lparr>q_elements := n\<rparr>) = q_order q"
  by (simp_all add: q_order_def fun_eq_iff)

lemma downheap_heap:
  assumes "queue_wf q" "heap_from (q_order q) (Suc s) (q_elements q) (q_root q)" "1 \<le> s" "s \<le> q_max_elements q"
  shows "\<exists>q'. downheap s q = Some q' \<and> queue_wf q' \<and> q_elements q' = q_elements q \<and> q_order q' = q_order q \<and>
    heap_from (q_order q') s (q_elements q') (q_root q') \<and> queue_contents q' = queue_contents q"
proof -
  have "q_elements q < length (q_root q)" "s < length (q_root q)" using assms(1,4) by (auto simp: queue_wf_def)
  then obtain r where "downheap_root (q_order q) (q_elements q) s (q_root q) = Some r" "length r = length (q_root q)"
    "heap_from (q_order q) s (q_elements q) r" "heap_contents (q_elements q) r = heap_contents (q_elements q) (q_root q)"
    using heap_order.downheap_root_heap [OF queue_order [OF assms(1)] assms(2,3)] by blast
  then show ?thesis using assms(1) by (simp add: downheap_def queue_wf_def queue_contents_def)
qed

lemma fix_loop_heap:
  "queue_wf q \<Longrightarrow> heap_from (q_order q) (Suc i) (q_elements q) (q_root q) \<Longrightarrow> i \<le> q_max_elements q \<Longrightarrow>
   \<exists>q'. fix_loop i q = Some q' \<and> queue_ok q' \<and> queue_contents q' = queue_contents q"
proof (induction i arbitrary: q)
  case 0
  then show ?case by (auto simp: queue_ok_def)
next
  case (Suc i)
  then obtain q1 where "downheap (Suc i) q = Some q1" "queue_wf q1" "heap_from (q_order q1) (Suc i) (q_elements q1) (q_root q1)"
      "queue_contents q1 = queue_contents q" "q_max_elements q1 = q_max_elements q"
    using downheap_heap [of q "Suc i"] by (auto simp: downheap_def)
  then show ?case using Suc.IH [of q1] Suc.prems(3) by auto
qed

text \<open>C20: \<open>queue_fix\<close> makes a priority queue of an array in any order, with the same elements, and reads
  and writes no index outside the array.\<close>

theorem queue_fix_heap:
  assumes "queue_wf q"
  shows "\<exists>q'. queue_fix q = Some q' \<and> queue_ok q' \<and> queue_contents q' = queue_contents q"
proof -
  have "heap_from (q_order q) (Suc (q_elements q div 2)) (q_elements q) (q_root q)"
    unfolding heap_from_def by (metis Suc_n_not_le_n div_le_mono order_trans)
  then show ?thesis
    using fix_loop_heap [OF assms, of "q_elements q div 2"] assms by (auto simp: queue_fix_def queue_wf_def)
qed

lemma queue_insert_heap:
  assumes "queue_ok q" "q_elements q < q_max_elements q"
  shows "\<exists>q'. queue_insert e q = Some q' \<and> queue_ok q' \<and> q_order q' = q_order q \<and>
    q_elements q' = Suc (q_elements q) \<and> q_max_elements q' = q_max_elements q \<and> queue_contents q' = add_mset e (queue_contents q)"
proof -
  define n where "n = Suc (q_elements q)"
  define r where "r = (q_root q)[0 := e]"
  have w: "queue_wf q" and h: "heap_from (q_order q) 1 (q_elements q) (q_root q)" using assms(1) by (auto simp: queue_ok_def)
  have l: "n < length r" "r ! 0 = e" "1 \<le> n" using w assms(2) by (auto simp: n_def r_def queue_wf_def)
  have hr: "q_order q (r ! (i div 2)) (r ! i) \<le> 0" if "i \<le> n" "1 \<le> i div 2" "i \<noteq> n" for i
    using h that by (auto simp: heap_from_def n_def r_def)
  obtain r' j where r': "insert_loop (q_order q) e r n = Some (r', j)" "length r' = length r" "j < length r"
    "heap_from (q_order q) 1 n (r'[j := e])" "heap_contents n (r'[j := e]) = heap_contents n (r[n := e])"
    using heap_order.insert_loop_heap [OF queue_order [OF w] l(3) order.refl l(1,2)] hr l(3) by fastforce
  have "heap_contents n (r[n := e]) = add_mset e (heap_contents (q_elements q) (q_root q))"
    using l(1) by (simp add: n_def heap_contents_Suc) (rule heap_contents_cong, simp add: r_def)
  moreover have "queue_insert e q = Some (q\<lparr>q_root := r'[j := e], q_elements := n\<rparr>)"
    using r' l(1) by (auto simp: queue_insert_def put_def Let_def n_def r_def)
  ultimately show ?thesis
    using r' w assms(2) by (simp add: queue_ok_def queue_contents_def queue_wf_def n_def r_def)
qed

lemma queue_remove_heap:
  assumes "queue_ok q" "0 < q_elements q"
  shows "\<exists>x q'. queue_remove 0 q = Some (x, q') \<and> queue_ok q' \<and> q_order q' = q_order q \<and> Suc (q_elements q') = q_elements q \<and>
    queue_contents q = add_mset x (queue_contents q') \<and> (\<forall>y\<in>#queue_contents q. q_order q x y \<le> 0)"
proof -
  define n where "n = q_elements q - 1"
  define r where "r = q_root q"
  define q1 where "q1 = q\<lparr>q_root := r[1 := r ! Suc n], q_elements := n\<rparr>"
  have w: "queue_wf q" and h: "heap_from (q_order q) 1 (Suc n) r" and n: "q_elements q = Suc n" "Suc n < length r" "1 < length r"
    using assms by (auto simp: queue_ok_def queue_wf_def r_def n_def)
  have u: "u32 (int (q_elements q) - 1) = n" using w n by (simp add: u32_id queue_wf_def)
  have "heap_from (q_order q1) (Suc 1) (q_elements q1) (q_root q1)"
    using h by (auto simp: heap_from_def q1_def nth_list_update)
  moreover have "queue_wf q1" using w n by (simp add: queue_wf_def q1_def r_def)
  moreover have "1 \<le> q_max_elements q1" using w n by (simp add: queue_wf_def q1_def r_def)
  ultimately obtain q' where q': "downheap 1 q1 = Some q'" "queue_wf q'" "q_elements q' = n" "q_order q' = q_order q"
      "heap_from (q_order q') 1 (q_elements q') (q_root q')" "queue_contents q' = queue_contents q1"
    using downheap_heap [of q1 1] by (auto simp: q1_def)
  have "queue_contents q = add_mset (r ! 1) (queue_contents q1)"
  proof (cases n)
    case (Suc m)
    then have "r ! 1 \<in># heap_contents n r" "heap_contents n (r[1 := r ! Suc n]) = heap_contents n r - {# r ! 1 #} + {# r ! Suc n #}"
      using heap_contents_update [of 1 n r] n(2) by simp_all
    then show ?thesis by (simp add: queue_contents_def q1_def n(1) heap_contents_Suc r_def [symmetric])
  qed (simp add: queue_contents_def q1_def n(1) heap_contents_Suc r_def [symmetric])
  moreover have "q_order q (r ! 1) y \<le> 0" if "y \<in># queue_contents q" for y
    using that heap_order.heap_top_least [OF queue_order [OF w] h]
    by (auto simp: queue_contents_def heap_contents_def n(1) r_def [symmetric])
  moreover have "queue_remove 0 q = Some (r ! 1, q')"
    using n q'(1) u by (simp add: queue_remove_def get_def put_def Let_def r_def [symmetric] q1_def)
  ultimately show ?thesis using q' n(1) by (simp add: queue_ok_def)
qed

text \<open>Inserting a list one by one, and removing from the top until the queue is empty, as the
  merges of \<open>filesort.cc\<close> and \<open>uniques.cc\<close> do.\<close>

fun insert_all :: "'a list \<Rightarrow> 'a QUEUE \<Rightarrow> 'a QUEUE option" where
  "insert_all [] q = Some q"
| "insert_all (x # xs) q = do { q \<leftarrow> queue_insert x q; insert_all xs q }"

fun remove_all :: "nat \<Rightarrow> 'a QUEUE \<Rightarrow> 'a list option" where
  "remove_all 0 q = Some []"
| "remove_all (Suc n) q = do { (x, q) \<leftarrow> queue_remove 0 q; xs \<leftarrow> remove_all n q; Some (x # xs) }"

lemma insert_all_heap:
  "queue_ok q \<Longrightarrow> q_elements q + length xs \<le> q_max_elements q \<Longrightarrow>
   \<exists>q'. insert_all xs q = Some q' \<and> queue_ok q' \<and> q_order q' = q_order q \<and> q_elements q' = q_elements q + length xs \<and>
     queue_contents q' = queue_contents q + mset xs"
proof (induction xs arbitrary: q)
  case (Cons x xs)
  obtain q1 where "queue_insert x q = Some q1" "queue_ok q1" "q_order q1 = q_order q" "q_elements q1 = Suc (q_elements q)"
      "q_max_elements q1 = q_max_elements q" "queue_contents q1 = add_mset x (queue_contents q)"
    using queue_insert_heap [OF Cons.prems(1), of x] Cons.prems(2) by auto
  then show ?case using Cons.IH [of q1] Cons.prems(2) by auto
qed simp

lemma remove_all_sorted:
  "queue_ok q \<Longrightarrow> q_elements q = n \<Longrightarrow>
   \<exists>ys. remove_all n q = Some ys \<and> mset ys = queue_contents q \<and> sorted_wrt (\<lambda>a b. q_order q a b \<le> 0) ys"
proof (induction n arbitrary: q)
  case 0
  then show ?case by (simp add: queue_contents_def)
next
  case (Suc n)
  then obtain x q1 where q1: "queue_remove 0 q = Some (x, q1)" "queue_ok q1" "q_order q1 = q_order q" "q_elements q1 = n"
      "queue_contents q = add_mset x (queue_contents q1)" "\<forall>y\<in>#queue_contents q. q_order q x y \<le> 0"
    using queue_remove_heap [of q] by auto
  obtain ys where "remove_all n q1 = Some ys" "mset ys = queue_contents q1" "sorted_wrt (\<lambda>a b. q_order q a b \<le> 0) ys"
    using Suc.IH [OF q1(2,4)] q1(3) by auto
  then show ?case using q1 by (auto simp flip: set_mset_mset)
qed

text \<open>C12: elements inserted into an empty queue with room for them come out again in the order of the
  queue, each as often as it went in; the loops end and stay inside the array.\<close>

theorem queue_sorts:
  assumes "queue_ok q" "q_elements q = 0" "length xs \<le> q_max_elements q"
  shows "\<exists>q' ys. insert_all xs q = Some q' \<and> remove_all (length xs) q' = Some ys \<and> mset ys = mset xs \<and>
    sorted_wrt (\<lambda>a b. q_order q a b \<le> 0) ys"
proof -
  obtain q' where "insert_all xs q = Some q'" "queue_ok q'" "q_order q' = q_order q" "q_elements q' = length xs"
      "queue_contents q' = mset xs"
    using insert_all_heap [OF assms(1), of xs] assms(2,3) by (auto simp: queue_contents_def)
  then show ?thesis using remove_all_sorted [of q' "length xs"] by auto
qed

text \<open>\<open>queue_insert_safe\<close> inserts whenever there is room or the array can be extended; a full
  queue without \<open>auto_extent\<close> is refused with 2 and a failed extension with 1, both leaving the
  queue as it was.\<close>

theorem queue_insert_safe_codes:
  assumes "queue_ok q" "q_max_elements q + q_auto_extent q + 1 < 2 ^ 32"
    and realloc: "\<And>r n r'. my_realloc r n = Some r' \<Longrightarrow> length r' = n \<and> (\<forall>i < min (length r) n. r' ! i = r ! i)"
  shows "\<exists>ret q'. queue_insert_safe my_realloc e q = Some (ret, q') \<and> queue_ok q' \<and>
    ret = (if q_elements q < q_max_elements q then 0 else if q_auto_extent q = 0 then 2
           else if my_realloc (q_root q) (q_max_elements q + q_auto_extent q + 1) = None then 1 else 0) \<and>
    queue_contents q' = (if ret = 0 then add_mset e (queue_contents q) else queue_contents q)"
proof -
  define m where "m = q_max_elements q + q_auto_extent q"
  have w: "queue_wf q" and le: "q_elements q \<le> q_max_elements q" using assms(1) by (auto simp: queue_ok_def queue_wf_def)
  have u: "u32 (int (q_max_elements q) + int (q_auto_extent q)) = m" "u32 (int m + 1) = m + 1"
    using assms(2) by (simp_all add: u32_id m_def nat_add_distrib)
  note u = u u(2) [unfolded m_def of_nat_add]
  consider "q_elements q < q_max_elements q" | "q_elements q = q_max_elements q" "q_auto_extent q = 0"
    | "q_elements q = q_max_elements q" "0 < q_auto_extent q" "my_realloc (q_root q) (m + 1) = None"
    | r where "q_elements q = q_max_elements q" "0 < q_auto_extent q" "my_realloc (q_root q) (m + 1) = Some r"
    using le by fastforce
  then show ?thesis
  proof cases
    case 1
    then show ?thesis using queue_insert_heap [OF assms(1), of e] by (auto simp: queue_insert_safe_def)
  next
    case 4
    define q1 where "q1 = q\<lparr>q_elements := q_max_elements q, q_max_elements := m, q_root := r\<rparr>"
    have r: "length r = m + 1" "\<And>i. i \<le> q_elements q \<Longrightarrow> r ! i = q_root q ! i"
      using realloc [OF 4(3)] w by (auto simp: queue_wf_def m_def 4(1))
    have o: "q_order q1 = q_order q" by (simp add: q1_def q_order_def fun_eq_iff)
    have "queue_ok q1" using assms(1,2) r o 4(1) by (auto simp: queue_ok_def queue_wf_def q1_def m_def heap_from_def)
    moreover have "queue_contents q1 = queue_contents q"
      unfolding queue_contents_def q1_def by (simp add: 4(1), rule heap_contents_cong) (simp add: r(2) 4(1))
    moreover have "q_elements q1 < q_max_elements q1" using 4(1,2) by (simp add: q1_def m_def)
    moreover have "queue_insert_safe my_realloc e q = map_option (Pair 0) (queue_insert e q1)"
      using 4 by (simp add: queue_insert_safe_def resize_queue_def u q1_def) (simp add: m_def min_def)
    ultimately show ?thesis using queue_insert_heap [of q1 e] 4 by (auto simp: m_def)
  qed (use assms(1) in \<open>auto simp: queue_insert_safe_def resize_queue_def u m_def\<close>)
qed

section \<open>The alarm queue\<close>

text \<open>\<open>compare_ulong\<close> of \<open>src/mysys/thr_alarm.c\<close>, on the expiry times of two alarms.\<close>

definition compare_ulong :: "nat \<Rightarrow> nat \<Rightarrow> int" where
  "compare_ulong a b = (if a < b then - 1 else if a = b then 0 else 1)"

interpretation alarm: heap_order compare_ulong
  by unfold_locales (auto simp: total_preorder_def compare_ulong_def)

definition alarm_queue :: "nat list \<Rightarrow> nat \<Rightarrow> nat QUEUE" where
  "alarm_queue root n = \<lparr>q_root = root, q_elements = n, q_max_elements = length root - 1,
     q_max_at_top = 1, q_compare = compare_ulong, q_auto_extent = 2\<rparr>"

lemma alarm_queue_wf: "n < length r \<Longrightarrow> length r < 2 ^ 32 \<Longrightarrow> queue_wf (alarm_queue r n)"
  using alarm.total by (auto simp: queue_wf_def alarm_queue_def)

lemma alarm_queue_sel [simp]:
  "q_root (alarm_queue r n) = r" "q_elements (alarm_queue r n) = n" "q_max_elements (alarm_queue r n) = length r - 1"
  "q_auto_extent (alarm_queue r n) = 2" "q_order (alarm_queue r n) = compare_ulong"
  by (simp_all add: alarm_queue_def q_order_def fun_eq_iff)

theorem queue_fix_heap_witness:
  "\<exists>q'. queue_fix (alarm_queue [0, 5, 4, 3, 2, 1] 5) = Some q' \<and> queue_ok q' \<and> queue_contents q' = {#1, 2, 3, 4, 5#}"
proof -
  have "queue_contents (alarm_queue [0, 5, 4, 3, 2, 1] 5) = {#1, 2, 3, 4, 5#}"
    by (simp add: queue_contents_def numeral_eq_Suc heap_contents_Suc)
  then show ?thesis using queue_fix_heap [OF alarm_queue_wf [of 5 "[0, 5, 4, 3, 2, 1]"]] by simp
qed

theorem queue_sorts_witness:
  "\<exists>q' ys. insert_all [3, 1, 2] (alarm_queue [0, 0, 0, 0] 0) = Some q' \<and> remove_all 3 q' = Some ys \<and>
    mset ys = {#3, 1, 2#} \<and> sorted_wrt (\<lambda>a b. compare_ulong a b \<le> 0) ys"
proof -
  have "queue_ok (alarm_queue [0, 0, 0, 0] 0)"
    using alarm_queue_wf [of 0 "[0, 0, 0, 0]"] by (simp add: queue_ok_def heap_from_def)
  then show ?thesis using queue_sorts [of "alarm_queue [0, 0, 0, 0] 0" "[3, 1, 2]"] by (simp add: numeral_3_eq_3)
qed

theorem queue_insert_safe_codes_witness:
  "\<exists>ret q'. queue_insert_safe (\<lambda>r n. Some (take n (r @ replicate n 0))) 7 (alarm_queue [0, 4] 1) = Some (ret, q') \<and>
    ret = 0 \<and> queue_contents q' = {#7, 4#}"
proof -
  have "queue_ok (alarm_queue [0, 4] 1)"
    using alarm_queue_wf [of 1 "[0, 4]"] by (auto simp: queue_ok_def heap_from_def)
  moreover have l: "min (length r) n + (n - length r) = n" for r :: "nat list" and n by linarith
  moreover have "queue_contents (alarm_queue [0, 4] 1) = {#4#}" by (simp add: queue_contents_def heap_contents_Suc)
  ultimately show ?thesis
    using queue_insert_safe_codes [of "alarm_queue [0, 4] 1" "\<lambda>r n. Some (take n (r @ replicate n 0))" 7]
    by (auto simp: nth_append l)
qed

lemma up_loop_step:
  assumes "idx < length r"
  shows "up_loop cmp s e r idx =
    (if s < idx div 2 then
       if cmp (r ! (idx div 2)) e < 0 then Some (r, idx) else up_loop cmp s e (r[idx := r ! (idx div 2)]) (idx div 2)
     else Some (r, idx))"
  using assms by (subst up_loop.simps) (auto simp: get_def put_def)

text \<open>C37: \<open>queue_remove\<close> of an element inside the queue can break the order, as it moves the last
  element down but never up: in a correct queue of seven alarms, removing the one at index 3
  puts 4 below 10, and 10 comes out before 4.\<close>

theorem queue_remove_interior:
  "queue_ok (alarm_queue [0, 1, 10, 2, 11, 12, 3, 4] 7) \<and>
   queue_remove 3 (alarm_queue [0, 1, 10, 2, 11, 12, 3, 4] 7) = Some (11, alarm_queue [0, 1, 10, 2, 4, 12, 3, 4] 6) \<and>
   \<not> queue_ok (alarm_queue [0, 1, 10, 2, 4, 12, 3, 4] 6)"
proof (intro conjI)
  have i: "i \<le> 7 \<Longrightarrow> i \<in> {0, 1, 2, 3, 4, 5, 6, 7}" for i :: nat by auto
  show "queue_ok (alarm_queue [0, 1, 10, 2, 11, 12, 3, 4] 7)"
    using alarm_queue_wf [of 7 "[0, 1, 10, 2, 11, 12, 3, 4]"]
    by (auto simp: queue_ok_def heap_from_def compare_ulong_def dest!: i)
  show "queue_remove 3 (alarm_queue [0, 1, 10, 2, 11, 12, 3, 4] 7) = Some (11, alarm_queue [0, 1, 10, 2, 4, 12, 3, 4] 6)"
    by (simp add: queue_remove_def get_def put_def Let_def downheap_def downheap_root_def down_loop_step up_loop_step
        q_order_def alarm_queue_def u32_id)
  show "\<not> queue_ok (alarm_queue [0, 1, 10, 2, 4, 12, 3, 4] 6)"
    by (auto simp: queue_ok_def heap_from_def compare_ulong_def intro!: exI [of _ 4])
qed

end
