(* ===== verification/BitOps.thy ===== *)
theory BitOps
  imports Prelude "HOL-Library.Word"
begin

unbundle bit_operations_syntax

text \<open>
  The bit functions of \<open>src/include/my_bit.h\<close> with the tables of \<open>src/mysys/my_bit.c\<close>: counting and
  reversing bits through tables, logarithms and powers of two.  A \<open>uint32\<close> is a 32-bit word.
\<close>

section \<open>Tables\<close>

definition my_bits_nbits :: "nat list" where
  "my_bits_nbits =
  [0, 1, 1, 2, 1, 2, 2, 3, 1, 2, 2, 3, 2, 3, 3, 4,
   1, 2, 2, 3, 2, 3, 3, 4, 2, 3, 3, 4, 3, 4, 4, 5,
   1, 2, 2, 3, 2, 3, 3, 4, 2, 3, 3, 4, 3, 4, 4, 5,
   2, 3, 3, 4, 3, 4, 4, 5, 3, 4, 4, 5, 4, 5, 5, 6,
   1, 2, 2, 3, 2, 3, 3, 4, 2, 3, 3, 4, 3, 4, 4, 5,
   2, 3, 3, 4, 3, 4, 4, 5, 3, 4, 4, 5, 4, 5, 5, 6,
   2, 3, 3, 4, 3, 4, 4, 5, 3, 4, 4, 5, 4, 5, 5, 6,
   3, 4, 4, 5, 4, 5, 5, 6, 4, 5, 5, 6, 5, 6, 6, 7,
   1, 2, 2, 3, 2, 3, 3, 4, 2, 3, 3, 4, 3, 4, 4, 5,
   2, 3, 3, 4, 3, 4, 4, 5, 3, 4, 4, 5, 4, 5, 5, 6,
   2, 3, 3, 4, 3, 4, 4, 5, 3, 4, 4, 5, 4, 5, 5, 6,
   3, 4, 4, 5, 4, 5, 5, 6, 4, 5, 5, 6, 5, 6, 6, 7,
   2, 3, 3, 4, 3, 4, 4, 5, 3, 4, 4, 5, 4, 5, 5, 6,
   3, 4, 4, 5, 4, 5, 5, 6, 4, 5, 5, 6, 5, 6, 6, 7,
   3, 4, 4, 5, 4, 5, 5, 6, 4, 5, 5, 6, 5, 6, 6, 7,
   4, 5, 5, 6, 5, 6, 6, 7, 5, 6, 6, 7, 6, 7, 7, 8]"

definition my_bits_reverse_table :: "nat list" where
  "my_bits_reverse_table =
  [0, 128, 64, 192, 32, 160, 96, 224, 16, 144, 80, 208, 48, 176, 112, 240,
   8, 136, 72, 200, 40, 168, 104, 232, 24, 152, 88, 216, 56, 184, 120, 248,
   4, 132, 68, 196, 36, 164, 100, 228, 20, 148, 84, 212, 52, 180, 116, 244,
   12, 140, 76, 204, 44, 172, 108, 236, 28, 156, 92, 220, 60, 188, 124, 252,
   2, 130, 66, 194, 34, 162, 98, 226, 18, 146, 82, 210, 50, 178, 114, 242,
   10, 138, 74, 202, 42, 170, 106, 234, 26, 154, 90, 218, 58, 186, 122, 250,
   6, 134, 70, 198, 38, 166, 102, 230, 22, 150, 86, 214, 54, 182, 118, 246,
   14, 142, 78, 206, 46, 174, 110, 238, 30, 158, 94, 222, 62, 190, 126, 254,
   1, 129, 65, 193, 33, 161, 97, 225, 17, 145, 81, 209, 49, 177, 113, 241,
   9, 137, 73, 201, 41, 169, 105, 233, 25, 153, 89, 217, 57, 185, 121, 249,
   5, 133, 69, 197, 37, 165, 101, 229, 21, 149, 85, 213, 53, 181, 117, 245,
   13, 141, 77, 205, 45, 173, 109, 237, 29, 157, 93, 221, 61, 189, 125, 253,
   3, 131, 67, 195, 35, 163, 99, 227, 19, 147, 83, 211, 51, 179, 115, 243,
   11, 139, 75, 203, 43, 171, 107, 235, 27, 155, 91, 219, 59, 187, 123, 251,
   7, 135, 71, 199, 39, 167, 103, 231, 23, 151, 87, 215, 55, 183, 119, 247,
   15, 143, 79, 207, 47, 175, 111, 239, 31, 159, 95, 223, 63, 191, 127, 255]"

text \<open>Entry \<open>2 * b\<close> and \<open>2 * b + 1\<close> of each table come from entry \<open>b\<close>.\<close>

lemma nth_concat_pairs:
  "b < 2 * length xs \<Longrightarrow> concat (map (\<lambda>x. [f x, g x]) xs) ! b = (if even b then f (xs ! (b div 2)) else g (xs ! (b div 2)))"
proof (induction xs arbitrary: b)
  case (Cons x xs)
  consider "b = 0" | "b = 1" | c where "b = Suc (Suc c)" by (metis One_nat_def not0_implies_Suc)
  then show ?case using Cons by cases auto
qed simp

lemma my_bits_nbits_pairs: "my_bits_nbits = concat (map (\<lambda>x. [x, x + 1]) (take 128 my_bits_nbits))"
  by (simp add: my_bits_nbits_def)

lemma my_bits_reverse_pairs:
  "my_bits_reverse_table = concat (map (\<lambda>x. [x div 2, x div 2 + 128]) (take 128 my_bits_reverse_table))"
  by (simp add: my_bits_reverse_table_def)

lemma table_lengths [simp]: "length my_bits_nbits = 256" "length my_bits_reverse_table = 256"
  by (simp_all add: my_bits_nbits_def my_bits_reverse_table_def)

lemma my_bits_nbits_step: "b < 256 \<Longrightarrow> my_bits_nbits ! b = my_bits_nbits ! (b div 2) + b mod 2"
  using nth_concat_pairs [of b "take 128 my_bits_nbits" "\<lambda>x. x" "\<lambda>x. x + 1"] my_bits_nbits_pairs [symmetric]
  by (auto simp: mod2_eq_if)

lemma my_bits_reverse_step:
  "b < 256 \<Longrightarrow> my_bits_reverse_table ! b = my_bits_reverse_table ! (b div 2) div 2 + 128 * (b mod 2)"
  using nth_concat_pairs [of b "take 128 my_bits_reverse_table" "\<lambda>x. x div 2" "\<lambda>x. x div 2 + 128"]
    my_bits_reverse_pairs [symmetric]
  by (auto simp: mod2_eq_if)

lemma my_bits_reverse_less: "b < 256 \<Longrightarrow> my_bits_reverse_table ! b < 256"
proof (induction b rule: less_induct)
  case (less b)
  show ?case
  proof (cases "b = 0")
    case False
    then have "my_bits_reverse_table ! (b div 2) < 128 * 2" using less.IH [of "b div 2"] less.prems by simp
    then have "my_bits_reverse_table ! (b div 2) div 2 < 128" by (rule less_mult_imp_div_less)
    then show ?thesis using my_bits_reverse_step [OF less.prems] by (auto simp: mod2_eq_if)
  qed (simp add: my_bits_reverse_table_def)
qed

lemma bit_nat_le: "bit (n :: nat) i \<Longrightarrow> 2 ^ i \<le> n"
proof -
  assume "bit n i"
  then have "n div 2 ^ i \<noteq> 0" by (auto simp: bit_iff_odd intro!: odd_pos)
  then show ?thesis by (simp add: div_eq_0_iff not_less)
qed

lemma finite_bits_nat: "finite {i. bit (n :: nat) i}"
proof (rule finite_subset)
  show "{i. bit n i} \<subseteq> {..<n}"
  proof
    fix i assume "i \<in> {i. bit n i}"
    then have "2 ^ i \<le> n" by (simp add: bit_nat_le)
    then show "i \<in> {..<n}" using less_exp [of i] order.strict_trans2 by blast
  qed
qed simp

lemma card_bits_step:
  fixes b :: nat
  shows "card {i. bit b i} = card {i. bit (b div 2) i} + b mod 2"
proof -
  have "{i. bit b i} = Suc ` {i. bit (b div 2) i} \<union> (if odd b then {0} else {})"
  proof (intro set_eqI)
    fix i show "i \<in> {i. bit b i} \<longleftrightarrow> i \<in> Suc ` {i. bit (b div 2) i} \<union> (if odd b then {0} else {})"
      by (cases i) (auto simp: bit_Suc bit_0 image_iff)
  qed
  moreover have "finite {i. bit (b div 2) i}"
    by (rule finite_bits_nat)
  ultimately show ?thesis by (simp add: card_image mod2_eq_if)
qed

lemma my_bits_nbits_card: "b < 256 \<Longrightarrow> my_bits_nbits ! b = card {i. bit b i}"
proof (induction b rule: less_induct)
  case (less b)
  show ?case
  proof (cases "b = 0")
    case False
    then show ?thesis
      using less.IH [of "b div 2"] less.prems my_bits_nbits_step [OF less.prems] card_bits_step [of b] by simp
  qed (simp add: my_bits_nbits_def)
qed

lemma my_bits_reverse_bit: "b < 256 \<Longrightarrow> i < 8 \<Longrightarrow> bit (my_bits_reverse_table ! b) i \<longleftrightarrow> bit b (7 - i)"
proof (induction b arbitrary: i rule: less_induct)
  case (less b)
  show ?case
  proof (cases "b = 0")
    case False
    define x where "x = my_bits_reverse_table ! (b div 2)"
    have x: "x < 256" using my_bits_reverse_less [of "b div 2"] less.prems by (simp add: x_def)
    have r: "my_bits_reverse_table ! b = x div 2 + 128 * (b mod 2)" using my_bits_reverse_step [OF less.prems(1)] by (simp add: x_def)
    have p: "2 ^ 7 = (2 :: nat) ^ i * 2 ^ (7 - i)" using less.prems(2) by (simp flip: power_add)
    have d: "(x div 2 + 128 * c) div 2 ^ i = x div 2 div 2 ^ i + 2 ^ (7 - i) * c" for c
    proof -
      have "x div 2 + 128 * c = x div 2 + (2 ^ (7 - i) * c) * 2 ^ i" using p by (simp add: ac_simps)
      then show ?thesis by (metis div_mult_self1 add.commute power_not_zero zero_neq_numeral)
    qed
    show ?thesis
    proof (cases "i = 7")
      case True
      moreover have "x div 2 < 128" using x by (intro less_mult_imp_div_less) simp
      then have "x div 2 div 2 ^ 7 = 0" by simp
      ultimately show ?thesis using d [of "b mod 2"] by (simp add: r bit_iff_odd)
    next
      case i: False
      then have "even (2 ^ (7 - i) * (b mod 2))" using less.prems(2) by simp
      then have "bit (my_bits_reverse_table ! b) i \<longleftrightarrow> bit x (Suc i)"
        by (simp add: r bit_iff_odd d) (simp add: div_mult2_eq)
      also have "\<dots> \<longleftrightarrow> bit (b div 2) (7 - Suc i)" unfolding x_def using less.IH [of "b div 2" "Suc i"] less.prems i False by simp
      also have "Suc (7 - Suc i) = 7 - i" using less.prems(2) i by linarith
      then have "bit (b div 2) (7 - Suc i) \<longleftrightarrow> bit b (7 - i)" by (metis bit_Suc)
      finally show ?thesis .
    qed
  qed (simp add: my_bits_reverse_table_def)
qed

section \<open>Functions\<close>

text \<open>The loop of \<open>my_bit_log2\<close> and its result.\<close>

fun log2_loop :: "nat \<Rightarrow> nat \<Rightarrow> nat" where
  "log2_loop value b = (if value > 1 then log2_loop (value div 2) (b + 1) else b)"

declare log2_loop.simps [simp del]

definition my_bit_log2 :: "nat \<Rightarrow> nat" where
  "my_bit_log2 value = log2_loop value 0"

definition my_count_bits_uint32 :: "32 word \<Rightarrow> nat" where
  "my_count_bits_uint32 v =
     (my_bits_nbits ! unat (v AND 255) + my_bits_nbits ! unat (drop_bit 8 v AND 255) +
      my_bits_nbits ! unat (drop_bit 16 v AND 255) + my_bits_nbits ! unat (drop_bit 24 v AND 255)) mod 256"

definition my_count_bits :: "64 word \<Rightarrow> nat" where
  "my_count_bits v =
     (let v2 = drop_bit 32 v in
      (my_bits_nbits ! unat (v AND 255) + my_bits_nbits ! unat (drop_bit 8 v AND 255) +
       my_bits_nbits ! unat (drop_bit 16 v AND 255) + my_bits_nbits ! unat (drop_bit 24 v AND 255) +
       my_bits_nbits ! unat (v2 AND 255) + my_bits_nbits ! unat (drop_bit 8 v2 AND 255) +
       my_bits_nbits ! unat (drop_bit 16 v2 AND 255) + my_bits_nbits ! unat (drop_bit 24 v2 AND 255)) mod 256)"

definition my_round_up_to_next_power :: "32 word \<Rightarrow> 32 word" where
  "my_round_up_to_next_power v =
     (let v = v - 1;
          v = v OR drop_bit 1 v;
          v = v OR drop_bit 2 v;
          v = v OR drop_bit 4 v;
          v = v OR drop_bit 8 v;
          v = v OR drop_bit 16 v
      in v + 1)"

definition my_clear_highest_bit :: "32 word \<Rightarrow> 32 word" where
  "my_clear_highest_bit v =
     (let w = drop_bit 1 v;
          w = w OR drop_bit 1 w;
          w = w OR drop_bit 2 w;
          w = w OR drop_bit 4 w;
          w = w OR drop_bit 8 w;
          w = w OR drop_bit 16 w
      in v AND w)"

definition my_reverse_bits :: "32 word \<Rightarrow> 32 word" where
  "my_reverse_bits key =
     push_bit 24 (of_nat (my_bits_reverse_table ! unat (key AND 255))) OR
     push_bit 16 (of_nat (my_bits_reverse_table ! unat (drop_bit 8 key AND 255))) OR
     push_bit 8 (of_nat (my_bits_reverse_table ! unat (drop_bit 16 key AND 255))) OR
     of_nat (my_bits_reverse_table ! unat (drop_bit 24 key))"

lemma bit_255: "bit (255 :: 'a::len word) i \<longleftrightarrow> i < 8 \<and> i < LENGTH('a)"
proof -
  have "(255 :: 'a word) = mask 8" by (simp add: mask_eq_exp_minus_1)
  then show ?thesis by (metis bit_mask_iff possible_bit_word)
qed

lemma bit_byte: "bit (unat (v AND 255 :: 'a::len word)) i \<longleftrightarrow> i < 8 \<and> bit v i"
  unfolding bit_unsigned_iff bit_and_iff bit_255 by (auto dest: bit_imp_le_length)

lemma unat_byte: "unat (v AND 255 :: 'a::len word) < 256"
proof -
  have "take_bit 8 (unat (v AND 255)) = unat (v AND 255)"
    by (rule bit_eqI) (auto simp: bit_take_bit_iff bit_byte)
  then show ?thesis by (simp add: take_bit_nat_eq_self_iff)
qed

lemma card_bits_sum: "card {i. i < (n :: nat) \<and> P i} = (\<Sum>i<n. of_bool (P i) :: nat)"
proof (induction n)
  case (Suc n)
  have "{i. i < Suc n \<and> P i} = (if P n then insert n {i. i < n \<and> P i} else {i. i < n \<and> P i})" by (auto elim: less_SucE)
  then show ?case using Suc by simp
qed simp

lemma byte_count: "my_bits_nbits ! unat (v AND 255 :: 'a::len word) = (\<Sum>i<8. of_bool (bit v i))"
  using my_bits_nbits_card [OF unat_byte, of v] by (simp only: bit_byte card_bits_sum)

lemma word_card_bits: "card {i. bit (v :: 'a::len word) i} = (\<Sum>i<LENGTH('a). of_bool (bit v i))"
proof -
  have "{i. bit v i} = {i. i < LENGTH('a) \<and> bit v i}" by (auto dest: bit_imp_le_length)
  then show ?thesis by (simp only: card_bits_sum)
qed

lemma sum_split8: "(\<Sum>i<n + 8. f i) = (\<Sum>i<n. f i) + (\<Sum>i<8. f (n + i))" for f :: "nat \<Rightarrow> nat"
  by (simp add: numeral_eq_Suc)

lemma byte_count_le: "(\<Sum>i<8. of_bool (P i)) \<le> (8 :: nat)" for P :: "nat \<Rightarrow> bool"
  by (rule order.trans [OF sum_mono [where g = "\<lambda>_. 1"]]) auto

lemma my_count_bits_uint32_card: "my_count_bits_uint32 v = card {i. bit v i}"
    using byte_count_le [of "bit v"] byte_count_le [of "\<lambda>i. bit v (8 + i)"] byte_count_le [of "\<lambda>i. bit v (16 + i)"] byte_count_le [of "\<lambda>i. bit v (24 + i)"]
      sum_split8 [of "\<lambda>i. of_bool (bit v i)" 8] sum_split8 [of "\<lambda>i. of_bool (bit v i)" 16]
      sum_split8 [of "\<lambda>i. of_bool (bit v i)" 24]
    by (simp add: my_count_bits_uint32_def byte_count bit_drop_bit_eq comp_def word_card_bits)

text \<open>C33: the table look-ups count the bits of a word; the sum never reaches the 256 at which the
  cast to \<open>uchar\<close> would cut it.\<close>

theorem my_count_bits_card:
  "my_count_bits_uint32 v = card {i. bit v i} \<and> my_count_bits w = card {i. bit w i}"
proof
  note b = byte_count bit_drop_bit_eq comp_def
  show "my_count_bits_uint32 v = card {i. bit v i}" by (rule my_count_bits_uint32_card)
  show "my_count_bits w = card {i. bit w i}"
    using byte_count_le [of "bit w"] byte_count_le [of "\<lambda>i. bit w (8 + i)"] byte_count_le [of "\<lambda>i. bit w (16 + i)"] byte_count_le [of "\<lambda>i. bit w (24 + i)"]
      byte_count_le [of "\<lambda>i. bit w (32 + i)"] byte_count_le [of "\<lambda>i. bit w (40 + i)"] byte_count_le [of "\<lambda>i. bit w (48 + i)"] byte_count_le [of "\<lambda>i. bit w (56 + i)"]
      sum_split8 [of "\<lambda>i. of_bool (bit w i)" 8] sum_split8 [of "\<lambda>i. of_bool (bit w i)" 16]
      sum_split8 [of "\<lambda>i. of_bool (bit w i)" 24] sum_split8 [of "\<lambda>i. of_bool (bit w i)" 32]
      sum_split8 [of "\<lambda>i. of_bool (bit w i)" 40] sum_split8 [of "\<lambda>i. of_bool (bit w i)" 48]
      sum_split8 [of "\<lambda>i. of_bool (bit w i)" 56]
    by (simp add: my_count_bits_def b word_card_bits)
qed

lemma log2_loop_spec: "0 < v \<Longrightarrow> 2 ^ (log2_loop v b - b) \<le> v \<and> v < 2 ^ Suc (log2_loop v b - b) \<and> b \<le> log2_loop v b"
proof (induction v b rule: log2_loop.induct)
  case (1 v b)
  show ?case
  proof (cases "v > 1")
    case True
    define k where "k = log2_loop (v div 2) (b + 1)"
    have IH: "2 ^ (k - (b + 1)) \<le> v div 2" "v div 2 < 2 ^ Suc (k - (b + 1))" "b + 1 \<le> k"
      using 1(1) [OF True] True by (simp_all add: k_def)
    have e: "k - b = Suc (k - (b + 1))" using IH(3) by simp
    have "2 * 2 ^ (k - (b + 1)) \<le> v" "v < 2 * 2 ^ Suc (k - (b + 1))" using IH(1,2) by linarith+
    then have "2 ^ (k - b) \<le> v" "v < 2 ^ Suc (k - b)" by (simp_all add: e)
    moreover have "log2_loop v b = k" using True by (simp add: log2_loop.simps [of v] k_def)
    ultimately show ?thesis using IH(3) by simp
  next
    case False
    then show ?thesis using 1(2) by (simp add: log2_loop.simps [of v])
  qed
qed

text \<open>\<open>my_bit_log2\<close> returns the largest \<open>X\<close> with \<open>2 ^ X\<close> at most the value.\<close>

theorem my_bit_log2_floor: "0 < v \<Longrightarrow> 2 ^ my_bit_log2 v \<le> v \<and> v < 2 ^ Suc (my_bit_log2 v)"
  using log2_loop_spec [of v 0] by (simp add: my_bit_log2_def)

theorem my_bit_log2_floor_witness: "0 < (3 :: nat) \<and> my_bit_log2 3 = 1 \<and> (3 :: nat) < 2 ^ Suc (my_bit_log2 3)"
  using my_bit_log2_floor [of 3] by (simp add: my_bit_log2_def log2_loop.simps)

text \<open>The five steps that copy every set bit to all lower positions.\<close>

definition smear :: "32 word \<Rightarrow> 32 word" where
  "smear v =
     (let v = v OR drop_bit 1 v;
          v = v OR drop_bit 2 v;
          v = v OR drop_bit 4 v;
          v = v OR drop_bit 8 v
      in v OR drop_bit 16 v)"

lemma smear_step:
  assumes "\<And>i. bit (w :: 'a::len word) i \<longleftrightarrow> (\<exists>d<m. bit v (i + d))"
  shows "bit (w OR drop_bit m w) i \<longleftrightarrow> (\<exists>d<m + m. bit (v :: 'a word) (i + d))"
proof -
  have "(\<exists>d<m + m. bit v (i + d)) \<longleftrightarrow> (\<exists>d<m. bit v (i + d)) \<or> (\<exists>d<m. bit v (m + i + d))"
  proof
    assume "\<exists>d<m + m. bit v (i + d)"
    then obtain d where "d < m + m" "bit v (i + d)" by blast
    then show "(\<exists>d<m. bit v (i + d)) \<or> (\<exists>d<m. bit v (m + i + d))"
    proof (cases "d < m")
      case False
      with \<open>d < m + m\<close> \<open>bit v (i + d)\<close> have "d - m < m \<and> bit v (m + i + (d - m))" by (simp add: ac_simps)
      then show ?thesis by blast
    qed blast
  next
    assume "(\<exists>d<m. bit v (i + d)) \<or> (\<exists>d<m. bit v (m + i + d))"
    then obtain d where "d < m" "bit v (i + d) \<or> bit v (i + (m + d))" by (auto simp: ac_simps)
    then show "\<exists>d<m + m. bit v (i + d)" by (metis add_less_cancel_left trans_less_add1)
  qed
  then show ?thesis by (simp add: bit_or_iff bit_drop_bit_eq assms)
qed

lemma bit_smear: "bit (smear v) i \<longleftrightarrow> (\<exists>j\<ge>i. bit v j)"
proof -
  have "bit v i \<longleftrightarrow> (\<exists>d<1. bit v (i + d))" for i by simp
  note s1 = smear_step [OF this]
  note s2 = smear_step [OF s1, simplified one_add_one]
  note s4 = smear_step [OF s2, simplified numeral_plus_numeral Num.add_num_simps]
  note s8 = smear_step [OF s4, simplified numeral_plus_numeral Num.add_num_simps]
  note s16 = smear_step [OF s8, simplified numeral_plus_numeral Num.add_num_simps]
  have "bit (smear v) i \<longleftrightarrow> (\<exists>d<32. bit v (i + d))"
    unfolding smear_def Let_def using s16 [unfolded numeral_plus_numeral Num.add_num_simps] by (simp only: one_add_one numeral_plus_numeral Num.add_num_simps)
  also have "\<dots> \<longleftrightarrow> (\<exists>j\<ge>i. bit v j)"
  proof
    assume "\<exists>j\<ge>i. bit v j"
    then obtain j where j: "i \<le> j" "bit v j" by blast
    then have "j < 32" using bit_imp_le_length [of v j] by simp
    with j show "\<exists>d<32. bit v (i + d)" by (intro exI [of _ "j - i"]) auto
  qed (use le_add1 in blast)
  finally show ?thesis .
qed

lemma highest_bit:
  assumes "(v :: 32 word) \<noteq> 0"
  obtains h where "h < 32" "smear v = mask (Suc h)" "2 ^ h \<le> unat v" "unat v < 2 ^ Suc h" "bit v h" "\<And>j. h < j \<Longrightarrow> \<not> bit v j"
proof -
  define B where "B = {i. bit v i}"
  have fin: "finite B" unfolding B_def by (rule finite_subset [of _ "{..<32}"]) (auto dest: bit_imp_le_length)
  have "B \<noteq> {}" using assms bit_eq_iff [of v 0] by (auto simp: B_def)
  then have h: "bit v (Max B)" "\<And>j. bit v j \<Longrightarrow> j \<le> Max B"
    using Max_in [OF fin] Max_ge [OF fin] by (auto simp: B_def)
  have "smear v = mask (Suc (Max B))"
    by (rule bit_eqI) (use h in \<open>auto simp: bit_smear bit_mask_iff less_Suc_eq_le intro: order.trans\<close>)
  moreover have "take_bit (Suc (Max B)) (unat v) = unat v"
    by (rule bit_eqI) (use h in \<open>auto simp: bit_take_bit_iff bit_unsigned_iff less_Suc_eq_le\<close>)
  then have "unat v < 2 ^ Suc (Max B)" by (simp only: take_bit_nat_eq_self_iff)
  moreover have "2 ^ Max B \<le> unat v" using h(1) by (intro bit_nat_le) (simp add: bit_unsigned_iff)
  moreover have "Max B < 32" using bit_imp_le_length [OF h(1)] by simp
  moreover have "\<not> bit v j" if "Max B < j" for j using h(2) [of j] that by auto
  ultimately show ?thesis using h(1) by (intro that) auto
qed

lemma my_round_up_smear: "my_round_up_to_next_power v = smear (v - 1) + 1"
  by (simp add: my_round_up_to_next_power_def smear_def Let_def)

text \<open>for a value of 1 to \<open>2 ^ 31\<close>, \<open>my_round_up_to_next_power\<close> returns the least power of two that
  is not below it.\<close>

theorem my_round_up_to_next_power_least:
  assumes "0 < unat v" "unat v \<le> 2 ^ 31"
  shows "\<exists>k\<le>31. unat (my_round_up_to_next_power v) = 2 ^ k \<and> unat v \<le> 2 ^ k \<and> 2 ^ k < 2 * unat v"
proof (cases "v = 1")
  case True
  then show ?thesis by (intro exI [of _ 0]) (simp add: my_round_up_smear smear_def)
next
  case False
  then have "v - 1 \<noteq> 0" by simp
  then obtain h where h: "h < 32" "smear (v - 1) = mask (Suc h)" "2 ^ h \<le> unat (v - 1)" "unat (v - 1) < 2 ^ Suc h"
    by (rule highest_bit)
  have u: "unat (v - 1) = unat v - 1" using assms(1) by (metis unat_0 unat_minus_one less_irrefl)
  have "h < 31"
  proof (rule ccontr)
    assume "\<not> h < 31"
    then have "2 ^ 31 \<le> (2 :: nat) ^ h" by (intro power_increasing) auto
    then show False using h(3) u assms by linarith
  qed
  then have "my_round_up_to_next_power v = 2 ^ Suc h" by (simp add: my_round_up_smear h(2) mask_eq_exp_minus_1)
  moreover have "(2 :: nat) ^ Suc h < 2 ^ 32" using \<open>h < 31\<close> by (intro power_strict_increasing) auto
  then have "unat (of_nat (2 ^ Suc h) :: 32 word) = 2 ^ Suc h" by (simp only: unat_of_nat) simp
  ultimately have "unat (my_round_up_to_next_power v) = 2 ^ Suc h" by simp
  then show ?thesis using h(3,4) u assms(1) \<open>h < 31\<close> by (intro exI [of _ "Suc h"]) auto
qed

theorem my_round_up_to_next_power_least_witness:
  "\<exists>k\<le>31. unat (my_round_up_to_next_power 5) = 2 ^ k \<and> 5 \<le> (2 :: nat) ^ k \<and> (2 :: nat) ^ k < 10"
  using my_round_up_to_next_power_least [of 5] by simp

lemma table_bit: "bit (my_bits_reverse_table ! unat (v AND 255 :: 'a::len word)) i \<longleftrightarrow> i < 8 \<and> bit v (7 - i)"
proof (cases "i < 8")
  case False
  have "\<not> 2 ^ i \<le> my_bits_reverse_table ! unat (v AND 255)"
    using my_bits_reverse_less [OF unat_byte, of v] power_increasing [of 8 i "2 :: nat"] False by simp
  then show ?thesis using bit_nat_le False by blast
next
  case True
  have "7 - i < 8" by linarith
  then show ?thesis using True by (simp add: my_bits_reverse_bit [OF unat_byte] bit_byte)
qed

lemma drop_24_byte: "drop_bit 24 (key :: 32 word) AND 255 = drop_bit 24 key"
  by (rule bit_eqI, unfold bit_and_iff bit_255) (auto simp: bit_drop_bit_eq dest: bit_imp_le_length)

lemma bit_my_reverse_bits: "i < 32 \<Longrightarrow> bit (my_reverse_bits key) i \<longleftrightarrow> bit key (31 - i)"
proof -
  assume i: "i < 32"
  have d: "j < 32 \<Longrightarrow> bit (of_nat n :: 32 word) j \<longleftrightarrow> bit n j" for n j by (simp add: bit_of_nat_iff)
  have p: "bit (push_bit k (of_nat (my_bits_reverse_table ! unat (v AND 255))) :: 32 word) i \<longleftrightarrow>
      k \<le> i \<and> i < k + 8 \<and> bit v (7 + k - i)" for k and v :: "32 word"
    using i by (auto simp: bit_push_bit_iff d table_bit)
  consider "i < 8" | "8 \<le> i" "i < 16" | "16 \<le> i" "i < 24" | "24 \<le> i" by linarith
  then show "bit (my_reverse_bits key) i \<longleftrightarrow> bit key (31 - i)"
  proof cases
    case 1
    then have "24 + (7 - i) = 31 - i" by linarith
    with 1 show ?thesis using p [of 0 "drop_bit 24 key"] by (simp add: my_reverse_bits_def bit_or_iff p drop_24_byte bit_drop_bit_eq)
  next
    case 2
    then have "16 + (15 - i) = 31 - i" by linarith
    with 2 show ?thesis using p [of 0 "drop_bit 24 key"] by (simp add: my_reverse_bits_def bit_or_iff p drop_24_byte bit_drop_bit_eq)
  next
    case 3
    then have "8 + (23 - i) = 31 - i" by linarith
    with 3 show ?thesis using p [of 0 "drop_bit 24 key"] by (simp add: my_reverse_bits_def bit_or_iff p drop_24_byte bit_drop_bit_eq)
  next
    case 4
    then show ?thesis using p [of 0 "drop_bit 24 key"] i by (simp add: my_reverse_bits_def bit_or_iff p drop_24_byte bit_drop_bit_eq)
  qed
qed

text \<open>\<open>my_reverse_bits\<close> mirrors the bits of a word and undoes itself, and
  \<open>my_clear_highest_bit\<close> clears the highest set bit and no other.\<close>

lemma my_reverse_clear_bits:
  "(\<forall>i<32. bit (my_reverse_bits key) i \<longleftrightarrow> bit key (31 - i)) \<and> my_reverse_bits (my_reverse_bits key) = key \<and>
   (\<forall>i. bit (my_clear_highest_bit v) i \<longleftrightarrow> bit v i \<and> (\<exists>j>i. bit v j))"
proof (intro conjI allI impI)
  show "my_reverse_bits (my_reverse_bits key) = key"
    by (rule bit_eqI) (simp add: bit_my_reverse_bits)
  fix i
  have "my_clear_highest_bit v = v AND smear (drop_bit 1 v)" by (simp add: my_clear_highest_bit_def smear_def Let_def)
  moreover have "(\<exists>j\<ge>i. bit v (Suc j)) \<longleftrightarrow> (\<exists>j>i. bit v j)" by (metis Suc_le_D Suc_le_eq less_Suc_eq_le)
  ultimately show "bit (my_clear_highest_bit v) i \<longleftrightarrow> bit v i \<and> (\<exists>j>i. bit v j)"
    by (simp add: bit_and_iff bit_smear bit_drop_bit_eq)
qed (rule bit_my_reverse_bits)

end
