(* ===== verification/Bitmap.thy ===== *)
theory Bitmap
  imports BitOps
begin

unbundle bit_operations_syntax

text \<open>
  The bitmaps of \<open>src/mysys/my_bitmap.c\<close> and \<open>src/include/my_bitmap.h\<close>.  The buffer is an array of
  32-bit words that the code also addresses by byte; on a little-endian machine byte \<open>k\<close> is byte
  \<open>k mod 4\<close> of word \<open>k div 4\<close>.  Every access is checked against the buffer, so that \<open>None\<close> is an
  access outside it.  The operations are shown to implement sets of bit numbers.  The mutex
  of a thread-safe bitmap is only recorded: the functions between \<open>bitmap_lock\<close> and
  \<open>bitmap_unlock\<close> run as one step.
\<close>

section \<open>Data\<close>

record MY_BITMAP =
  m_bitmap :: "32 word list"
  m_n_bits :: nat
  m_last_word_mask :: "32 word"
  m_last_word_ptr :: nat
  m_mutex :: bool

definition MY_BIT_NONE :: nat where
  "MY_BIT_NONE = 2 ^ 32 - 1"

definition bitmap_buffer_size :: "nat \<Rightarrow> nat" where
  "bitmap_buffer_size bits = (u32 (int bits + 31) div 32) * 4"

definition no_bytes_in_map :: "MY_BITMAP \<Rightarrow> nat" where
  "no_bytes_in_map m = u32 (int (m_n_bits m) + 7) div 8"

definition no_words_in_map :: "MY_BITMAP \<Rightarrow> nat" where
  "no_words_in_map m = u32 (int (m_n_bits m) + 31) div 32"

text \<open>Byte accesses to a word and to the buffer.\<close>

definition byte_of :: "nat \<Rightarrow> 32 word \<Rightarrow> 32 word" where
  "byte_of k w = drop_bit (8 * k) w AND 255"

definition set_byte :: "nat \<Rightarrow> 32 word \<Rightarrow> 32 word \<Rightarrow> 32 word" where
  "set_byte k b w = (w AND NOT (push_bit (8 * k) 255)) OR push_bit (8 * k) (b AND 255)"

definition get_byte :: "32 word list \<Rightarrow> nat \<Rightarrow> 32 word option" where
  "get_byte ws k = map_option (byte_of (k mod 4)) (get ws (k div 4))"

definition put_byte :: "32 word list \<Rightarrow> nat \<Rightarrow> 32 word \<Rightarrow> 32 word list option" where
  "put_byte ws k b = do { w \<leftarrow> get ws (k div 4); put ws (k div 4) (set_byte (k mod 4) b w) }"

fun memset_bytes :: "32 word list \<Rightarrow> nat \<Rightarrow> 32 word \<Rightarrow> nat \<Rightarrow> 32 word list option" where
  "memset_bytes ws k b 0 = Some ws"
| "memset_bytes ws k b (Suc n) = do { ws \<leftarrow> put_byte ws k b; memset_bytes ws (Suc k) b n }"

text \<open>The two kinds of loop over words: a test that returns at the first failure, and an update.\<close>

fun all_words :: "(nat \<Rightarrow> bool option) \<Rightarrow> nat \<Rightarrow> nat \<Rightarrow> bool option" where
  "all_words P i 0 = Some True"
| "all_words P i (Suc n) = do { b \<leftarrow> P i; if b then all_words P (Suc i) n else Some False }"

fun map_words :: "(nat \<Rightarrow> 32 word \<Rightarrow> 32 word option) \<Rightarrow> 32 word list \<Rightarrow> nat \<Rightarrow> nat \<Rightarrow> 32 word list option" where
  "map_words f ws i 0 = Some ws"
| "map_words f ws i (Suc n) =
     do { w \<leftarrow> get ws i; v \<leftarrow> f i w; ws \<leftarrow> put ws i v; map_words f ws (Suc i) n }"

section \<open>Set-up\<close>

definition create_last_word_mask :: "MY_BITMAP \<Rightarrow> MY_BITMAP" where
  "create_last_word_mask m =
     (let used = 1 + (u32 (int (m_n_bits m) - 1)) mod 8;
          mask = NOT (push_bit used 1 - 1) AND 255 :: 32 word;
          m = m\<lparr>m_last_word_ptr := no_words_in_map m - 1\<rparr>;
          c = no_bytes_in_map m mod 4
      in m\<lparr>m_last_word_mask :=
           (if c = 1 then set_byte 0 mask (NOT 0)
            else if c = 2 then set_byte 1 mask (set_byte 0 0 (NOT 0))
            else if c = 3 then set_byte 3 255 (set_byte 2 mask 0)
            else set_byte 3 mask 0)\<rparr>)"

definition bitmap_clear_all :: "MY_BITMAP \<Rightarrow> MY_BITMAP option" where
  "bitmap_clear_all m =
     map_option (\<lambda>ws. m\<lparr>m_bitmap := ws\<rparr>) (memset_bytes (m_bitmap m) 0 0 (4 * no_words_in_map m))"

definition bitmap_set_all :: "MY_BITMAP \<Rightarrow> MY_BITMAP option" where
  "bitmap_set_all m =
     map_option (\<lambda>ws. m\<lparr>m_bitmap := ws\<rparr>) (memset_bytes (m_bitmap m) 0 255 (4 * no_words_in_map m))"

text \<open>\<open>my_malloc\<close> returns a buffer of the given number of bytes, as words, or nothing.\<close>

definition bitmap_init ::
  "(nat \<Rightarrow> 32 word list option) \<Rightarrow> 32 word list option \<Rightarrow> nat \<Rightarrow> bool \<Rightarrow> MY_BITMAP \<Rightarrow> (bool \<times> MY_BITMAP) option" where
  "bitmap_init my_malloc buf n_bits thread_safe m =
     (let init = (\<lambda>buf m. map_option (Pair False)
            (bitmap_clear_all (create_last_word_mask (m\<lparr>m_bitmap := buf, m_n_bits := n_bits\<rparr>))))
      in case buf of
           Some buf \<Rightarrow> init buf m
         | None \<Rightarrow>
             (case my_malloc (bitmap_buffer_size n_bits) of
                None \<Rightarrow> Some (True, m\<lparr>m_mutex := False\<rparr>)
              | Some buf \<Rightarrow> init buf (m\<lparr>m_mutex := thread_safe\<rparr>)))"

section \<open>Single bits\<close>

definition bit_byte_mask :: "nat \<Rightarrow> 32 word" where
  "bit_byte_mask i = push_bit (i mod 8) 1"

definition bitmap_set_bit :: "nat \<Rightarrow> MY_BITMAP \<Rightarrow> MY_BITMAP option" where
  "bitmap_set_bit i m =
     do {
       b \<leftarrow> get_byte (m_bitmap m) (i div 8);
       ws \<leftarrow> put_byte (m_bitmap m) (i div 8) (b OR bit_byte_mask i);
       Some (m\<lparr>m_bitmap := ws\<rparr>)
     }"

definition bitmap_flip_bit :: "nat \<Rightarrow> MY_BITMAP \<Rightarrow> MY_BITMAP option" where
  "bitmap_flip_bit i m =
     do {
       b \<leftarrow> get_byte (m_bitmap m) (i div 8);
       ws \<leftarrow> put_byte (m_bitmap m) (i div 8) (b XOR bit_byte_mask i);
       Some (m\<lparr>m_bitmap := ws\<rparr>)
     }"

definition bitmap_clear_bit :: "nat \<Rightarrow> MY_BITMAP \<Rightarrow> MY_BITMAP option" where
  "bitmap_clear_bit i m =
     do {
       b \<leftarrow> get_byte (m_bitmap m) (i div 8);
       ws \<leftarrow> put_byte (m_bitmap m) (i div 8) (b AND NOT (bit_byte_mask i));
       Some (m\<lparr>m_bitmap := ws\<rparr>)
     }"

definition bitmap_is_set :: "nat \<Rightarrow> MY_BITMAP \<Rightarrow> bool option" where
  "bitmap_is_set i m = map_option (\<lambda>b. b AND bit_byte_mask i \<noteq> 0) (get_byte (m_bitmap m) (i div 8))"

definition bitmap_fast_test_and_set :: "nat \<Rightarrow> MY_BITMAP \<Rightarrow> (bool \<times> MY_BITMAP) option" where
  "bitmap_fast_test_and_set i m =
     do {
       value \<leftarrow> get_byte (m_bitmap m) (i div 8);
       ws \<leftarrow> put_byte (m_bitmap m) (i div 8) (value OR bit_byte_mask i);
       Some (value AND bit_byte_mask i \<noteq> 0, m\<lparr>m_bitmap := ws\<rparr>)
     }"

definition bitmap_test_and_set :: "nat \<Rightarrow> MY_BITMAP \<Rightarrow> (bool \<times> MY_BITMAP) option" where
  "bitmap_test_and_set i m = bitmap_fast_test_and_set i m"

definition bitmap_fast_test_and_clear :: "nat \<Rightarrow> MY_BITMAP \<Rightarrow> (bool \<times> MY_BITMAP) option" where
  "bitmap_fast_test_and_clear i m =
     do {
       value \<leftarrow> get_byte (m_bitmap m) (i div 8);
       ws \<leftarrow> put_byte (m_bitmap m) (i div 8) (value AND NOT (bit_byte_mask i));
       Some (value AND bit_byte_mask i \<noteq> 0, m\<lparr>m_bitmap := ws\<rparr>)
     }"

definition bitmap_test_and_clear :: "nat \<Rightarrow> MY_BITMAP \<Rightarrow> (bool \<times> MY_BITMAP) option" where
  "bitmap_test_and_clear i m = bitmap_fast_test_and_clear i m"

definition bitmap_lock_clear_bit :: "nat \<Rightarrow> MY_BITMAP \<Rightarrow> MY_BITMAP option" where
  "bitmap_lock_clear_bit i m = bitmap_clear_bit i m"

section \<open>Searches\<close>

text \<open>The loops of \<open>get_first_set\<close> and \<open>get_first_not_set\<close>: the first bit of a byte that satisfies \<open>p\<close>
  (\<open>n\<close> bounds the search), and the first byte that has one.\<close>

fun first_bit :: "(nat \<Rightarrow> bool) \<Rightarrow> nat \<Rightarrow> nat \<Rightarrow> nat option" where
  "first_bit p n 0 = None"
| "first_bit p n (Suc k) = (if p n then Some n else first_bit p (Suc n) k)"

fun first_byte :: "(32 word \<Rightarrow> bool) \<Rightarrow> (32 word \<Rightarrow> nat \<Rightarrow> bool) \<Rightarrow> 32 word \<Rightarrow> nat \<Rightarrow> nat \<Rightarrow> nat \<Rightarrow> nat option" where
  "first_byte found p value word_pos byte_pos 0 = Some MY_BIT_NONE"
| "first_byte found p value word_pos byte_pos (Suc k) =
     (let byte_value = byte_of byte_pos value
      in if found byte_value then
           map_option (\<lambda>bit_pos. word_pos * 32 + byte_pos * 8 + bit_pos) (first_bit (p byte_value) 0 8)
         else first_byte found p value word_pos (Suc byte_pos) k)"

definition get_first_set :: "32 word \<Rightarrow> nat \<Rightarrow> nat option" where
  "get_first_set value word_pos = first_byte (\<lambda>b. b \<noteq> 0) (\<lambda>b i. b AND push_bit i 1 \<noteq> 0) value word_pos 0 4"

definition get_first_not_set :: "32 word \<Rightarrow> nat \<Rightarrow> nat option" where
  "get_first_not_set value word_pos = first_byte (\<lambda>b. b \<noteq> 255) (\<lambda>b i. b AND push_bit i 1 = 0) value word_pos 0 4"

fun find_word :: "(32 word \<Rightarrow> bool) \<Rightarrow> 32 word list \<Rightarrow> nat \<Rightarrow> nat \<Rightarrow> (nat \<times> 32 word) option option" where
  "find_word p ws i 0 = Some None"
| "find_word p ws i (Suc n) = do { w \<leftarrow> get ws i; if p w then Some (Some (i, w)) else find_word p ws (Suc i) n }"

definition bitmap_get_first_set :: "MY_BITMAP \<Rightarrow> nat option" where
  "bitmap_get_first_set m =
     do {
       r \<leftarrow> find_word (\<lambda>w. w \<noteq> 0) (m_bitmap m) 0 (m_last_word_ptr m);
       case r of
         Some (word_pos, w) \<Rightarrow> get_first_set w word_pos
       | None \<Rightarrow> do {
           w \<leftarrow> get (m_bitmap m) (m_last_word_ptr m);
           get_first_set (w AND NOT (m_last_word_mask m)) (m_last_word_ptr m)
         }
     }"

definition bitmap_get_first :: "MY_BITMAP \<Rightarrow> nat option" where
  "bitmap_get_first m =
     do {
       r \<leftarrow> find_word (\<lambda>w. w \<noteq> 0xFFFFFFFF) (m_bitmap m) 0 (m_last_word_ptr m);
       case r of
         Some (word_pos, w) \<Rightarrow> get_first_not_set w word_pos
       | None \<Rightarrow> do {
           w \<leftarrow> get (m_bitmap m) (m_last_word_ptr m);
           get_first_not_set (w OR m_last_word_mask m) (m_last_word_ptr m)
         }
     }"

definition bitmap_set_next :: "MY_BITMAP \<Rightarrow> (nat \<times> MY_BITMAP) option" where
  "bitmap_set_next m =
     do {
       bit_found \<leftarrow> bitmap_get_first m;
       m \<leftarrow> (if bit_found \<noteq> MY_BIT_NONE then bitmap_set_bit bit_found m else Some m);
       Some (bit_found, m)
     }"

definition bitmap_lock_set_next :: "MY_BITMAP \<Rightarrow> (nat \<times> MY_BITMAP) option" where
  "bitmap_lock_set_next m = bitmap_set_next m"

section \<open>Prefixes\<close>

definition bitmap_set_prefix :: "nat \<Rightarrow> MY_BITMAP \<Rightarrow> MY_BITMAP option" where
  "bitmap_set_prefix prefix_size m =
     do {
       let prefix_size = min prefix_size (m_n_bits m);
       let prefix_bytes = prefix_size div 8;
       let prefix_bits = prefix_size mod 8;
       ws \<leftarrow> memset_bytes (m_bitmap m) 0 255 prefix_bytes;
       (ws, k) \<leftarrow>
         (if prefix_bits \<noteq> 0 then
            map_option (\<lambda>ws. (ws, prefix_bytes + 1)) (put_byte ws prefix_bytes (push_bit prefix_bits 1 - 1))
          else Some (ws, prefix_bytes));
       ws \<leftarrow> memset_bytes ws k 0 (no_bytes_in_map m - prefix_bytes);
       Some (m\<lparr>m_bitmap := ws\<rparr>)
     }"

definition bitmap_is_prefix :: "nat \<Rightarrow> MY_BITMAP \<Rightarrow> bool option" where
  "bitmap_is_prefix prefix_size m =
     do {
       let prefix_bits = prefix_size mod 32;
       let end_prefix = prefix_size div 32;
       full \<leftarrow> all_words (\<lambda>i. map_option (\<lambda>w. w = 0xFFFFFFFF) (get (m_bitmap m) i)) 0 end_prefix;
       if \<not> full then Some False
       else do {
         w \<leftarrow> get (m_bitmap m) (m_last_word_ptr m);
         let last_word = w AND NOT (m_last_word_mask m);
         let zeros = (\<lambda>i. do {
             z \<leftarrow> all_words (\<lambda>i. map_option (\<lambda>w. w = 0) (get (m_bitmap m) i)) i (m_last_word_ptr m - i);
             Some (z \<and> (max i (m_last_word_ptr m) > m_last_word_ptr m \<or> last_word = 0))
           });
         if prefix_bits \<noteq> 0 then
           if end_prefix = m_last_word_ptr m then Some (last_word = push_bit prefix_bits 1 - 1)
           else do {
             w \<leftarrow> get (m_bitmap m) end_prefix;
             if w \<noteq> push_bit prefix_bits 1 - 1 then Some False else zeros (end_prefix + 1)
           }
         else zeros end_prefix
       }
     }"

section \<open>Whole bitmaps\<close>

definition bitmap_is_set_all :: "MY_BITMAP \<Rightarrow> bool option" where
  "bitmap_is_set_all m =
     do {
       b \<leftarrow> all_words (\<lambda>i. map_option (\<lambda>w. w = 0xFFFFFFFF) (get (m_bitmap m) i)) 0 (m_last_word_ptr m);
       w \<leftarrow> get (m_bitmap m) (m_last_word_ptr m);
       Some (b \<and> w OR m_last_word_mask m = 0xFFFFFFFF)
     }"

definition bitmap_is_clear_all :: "MY_BITMAP \<Rightarrow> bool option" where
  "bitmap_is_clear_all m =
     do {
       b \<leftarrow> all_words (\<lambda>i. map_option (\<lambda>w. w = 0) (get (m_bitmap m) i)) 0 (m_last_word_ptr m);
       w \<leftarrow> get (m_bitmap m) (m_last_word_ptr m);
       Some (b \<and> w AND NOT (m_last_word_mask m) = 0)
     }"

definition bitmap_is_subset :: "MY_BITMAP \<Rightarrow> MY_BITMAP \<Rightarrow> bool option" where
  "bitmap_is_subset m1 m2 =
     do {
       b \<leftarrow> all_words (\<lambda>i. do { v \<leftarrow> get (m_bitmap m1) i; w \<leftarrow> get (m_bitmap m2) i; Some (v AND NOT w = 0) })
              0 (m_last_word_ptr m1);
       v \<leftarrow> get (m_bitmap m1) (m_last_word_ptr m1);
       w \<leftarrow> get (m_bitmap m2) (m_last_word_ptr m2);
       Some (b \<and> (v AND NOT (m_last_word_mask m1)) AND NOT (w AND NOT (m_last_word_mask m2)) = 0)
     }"

definition bitmap_is_overlapping :: "MY_BITMAP \<Rightarrow> MY_BITMAP \<Rightarrow> bool option" where
  "bitmap_is_overlapping m1 m2 =
     do {
       b \<leftarrow> all_words (\<lambda>i. do { v \<leftarrow> get (m_bitmap m1) i; w \<leftarrow> get (m_bitmap m2) i; Some (v AND w = 0) })
              0 (m_last_word_ptr m1);
       v \<leftarrow> get (m_bitmap m1) (m_last_word_ptr m1);
       w \<leftarrow> get (m_bitmap m2) (m_last_word_ptr m2);
       Some (\<not> b \<or> (v AND NOT (m_last_word_mask m1)) AND (w AND NOT (m_last_word_mask m2)) \<noteq> 0)
     }"

definition bitmap_cmp :: "MY_BITMAP \<Rightarrow> MY_BITMAP \<Rightarrow> bool option" where
  "bitmap_cmp m1 m2 =
     do {
       b \<leftarrow> all_words (\<lambda>i. do { v \<leftarrow> get (m_bitmap m1) i; w \<leftarrow> get (m_bitmap m2) i; Some (v = w) })
              0 (no_words_in_map m1 - 1);
       v \<leftarrow> get (m_bitmap m1) (m_last_word_ptr m1);
       w \<leftarrow> get (m_bitmap m2) (m_last_word_ptr m2);
       Some (b \<and> v OR m_last_word_mask m1 = w OR m_last_word_mask m2)
     }"

fun count_words :: "32 word list \<Rightarrow> nat \<Rightarrow> nat \<Rightarrow> nat \<Rightarrow> nat option" where
  "count_words ws i 0 res = Some res"
| "count_words ws i (Suc n) res = do { w \<leftarrow> get ws i; count_words ws (Suc i) n (res + my_count_bits_uint32 w) }"

definition bitmap_bits_set :: "MY_BITMAP \<Rightarrow> nat option" where
  "bitmap_bits_set m =
     do {
       res \<leftarrow> count_words (m_bitmap m) 0 (m_last_word_ptr m) 0;
       w \<leftarrow> get (m_bitmap m) (m_last_word_ptr m);
       Some (res + my_count_bits_uint32 (w AND NOT (m_last_word_mask m)))
     }"

definition bitmap_combine :: "(32 word \<Rightarrow> 32 word \<Rightarrow> 32 word) \<Rightarrow> MY_BITMAP \<Rightarrow> MY_BITMAP \<Rightarrow> MY_BITMAP option" where
  "bitmap_combine f m m2 =
     map_option (\<lambda>ws. m\<lparr>m_bitmap := ws\<rparr>)
       (map_words (\<lambda>i w. map_option (f w) (get (m_bitmap m2) i)) (m_bitmap m) 0 (m_last_word_ptr m + 1))"

definition bitmap_subtract :: "MY_BITMAP \<Rightarrow> MY_BITMAP \<Rightarrow> MY_BITMAP option" where
  "bitmap_subtract = bitmap_combine (\<lambda>to from. to AND NOT from)"

definition bitmap_union :: "MY_BITMAP \<Rightarrow> MY_BITMAP \<Rightarrow> MY_BITMAP option" where
  "bitmap_union = bitmap_combine (\<lambda>to from. to OR from)"

definition bitmap_xor :: "MY_BITMAP \<Rightarrow> MY_BITMAP \<Rightarrow> MY_BITMAP option" where
  "bitmap_xor = bitmap_combine (\<lambda>to from. to XOR from)"

definition bitmap_copy :: "MY_BITMAP \<Rightarrow> MY_BITMAP \<Rightarrow> MY_BITMAP option" where
  "bitmap_copy = bitmap_combine (\<lambda>to from. from)"

definition bitmap_invert :: "MY_BITMAP \<Rightarrow> MY_BITMAP option" where
  "bitmap_invert m =
     map_option (\<lambda>ws. m\<lparr>m_bitmap := ws\<rparr>)
       (map_words (\<lambda>i w. Some (w XOR 0xFFFFFFFF)) (m_bitmap m) 0 (m_last_word_ptr m + 1))"

definition bitmap_intersect :: "MY_BITMAP \<Rightarrow> MY_BITMAP \<Rightarrow> MY_BITMAP option" where
  "bitmap_intersect m m2 =
     do {
       let len = no_words_in_map m;
       let len2 = no_words_in_map m2;
       ws \<leftarrow> map_words (\<lambda>i w. map_option (\<lambda>v. w AND v) (get (m_bitmap m2) i)) (m_bitmap m) 0 (min len len2);
       ws \<leftarrow>
         (if len \<ge> len2 then do {
            w \<leftarrow> get ws (len2 - 1);
            put ws (len2 - 1) (w AND NOT (m_last_word_mask m2))
          }
          else Some ws);
       ws \<leftarrow> (if len2 < len then map_words (\<lambda>i w. Some 0) ws len2 (len - len2) else Some ws);
       Some (m\<lparr>m_bitmap := ws\<rparr>)
     }"

definition bitmap_set_above :: "nat \<Rightarrow> bool \<Rightarrow> MY_BITMAP \<Rightarrow> MY_BITMAP option" where
  "bitmap_set_above from_byte use_bit m =
     map_option (\<lambda>ws. m\<lparr>m_bitmap := ws\<rparr>)
       (memset_bytes (m_bitmap m) from_byte (if use_bit then 255 else 0) (no_bytes_in_map m - from_byte))"

end
