(* ===== verification/BitmapSets.thy ===== *)
theory BitmapSets
  imports Bitmap
begin

unbundle bit_operations_syntax

text \<open>
  The set of bit numbers a bitmap stands for, and the proofs that the operations of \<open>Bitmap\<close>
  implement the operations on such sets without leaving the buffer.
\<close>

section \<open>Bits of the buffer\<close>

definition wbit :: "32 word list \<Rightarrow> nat \<Rightarrow> bool" where
  "wbit ws i \<longleftrightarrow> bit (ws ! (i div 32)) (i mod 32)"

lemma div_32: "i div 32 = i div 8 div (4 :: nat)"
  by (simp add: div_mult2_eq [symmetric])

lemma mod_32_div_8: "i mod 32 div 8 = i div 8 mod (4 :: nat)"
  using mod_mult2_eq [of i 8 4] by simp

lemma mod_32_mod_8 [simp]: "i mod 32 mod 8 = i mod (8 :: nat)"
  by (rule mod_mod_cancel) simp

lemma bit_set_byte:
  assumes "k < 4" "i < 32"
  shows "bit (set_byte k b w) i \<longleftrightarrow> (if i div 8 = k then bit b (i mod 8) else bit w i)"
proof -
  have "i div 8 = k \<longleftrightarrow> 8 * k \<le> i \<and> i - 8 * k < 8" using assms by auto
  moreover have "i div 8 = k \<Longrightarrow> i - 8 * k = i mod 8" using minus_mult_div_eq_mod [of i 8] by simp
  ultimately show ?thesis
    using assms unfolding set_byte_def bit_or_iff bit_and_iff bit_not_iff bit_push_bit_iff bit_255
    by (auto simp: not_less)
qed

lemma bit_byte_of: "bit (byte_of k w) i \<longleftrightarrow> i < 8 \<and> bit w (8 * k + i)"
  unfolding byte_of_def bit_and_iff bit_255 bit_drop_bit_eq by (auto dest: bit_imp_le_length)

lemma put_byte_bits:
  assumes "k < 4 * length ws"
  shows "\<exists>ws'. put_byte ws k b = Some ws' \<and> length ws' = length ws \<and>
    (\<forall>i < 32 * length ws. wbit ws' i \<longleftrightarrow> (if i div 8 = k then bit b (i mod 8) else wbit ws i))"
proof -
  have k: "k div 4 < length ws" "k mod 4 < 4" using assms by auto
  have "wbit (ws[k div 4 := set_byte (k mod 4) b (ws ! (k div 4))]) i \<longleftrightarrow> (if i div 8 = k then bit b (i mod 8) else wbit ws i)"
    if "i < 32 * length ws" for i
  proof (cases "i div 32 = k div 4")
    case True
    have "i div 8 = k \<longleftrightarrow> i mod 32 div 8 = k mod 4"
      using True mod_mult_div_eq [of k 4] mod_mult_div_eq [of "i div 8" 4] by (auto simp: div_32 mod_32_div_8)
    then show ?thesis using True k by (simp add: wbit_def bit_set_byte)
  next
    case False
    then have "i div 8 \<noteq> k" by (auto simp: div_32)
    then show ?thesis using False by (simp add: wbit_def)
  qed
  then show ?thesis using k by (simp add: put_byte_def get_def put_def)
qed

lemma put_byte_outside: "4 * length ws \<le> k \<Longrightarrow> put_byte ws k b = None"
  by (auto simp: put_byte_def get_def)

lemma memset_bytes_bits:
  "k + n \<le> 4 * length ws \<Longrightarrow> \<exists>ws'. memset_bytes ws k b n = Some ws' \<and> length ws' = length ws \<and>
    (\<forall>i < 32 * length ws. wbit ws' i \<longleftrightarrow> (if k \<le> i div 8 \<and> i div 8 < k + n then bit b (i mod 8) else wbit ws i))"
proof (induction n arbitrary: k ws)
  case (Suc n)
  obtain ws1 where 1: "put_byte ws k b = Some ws1" "length ws1 = length ws"
      "\<forall>i < 32 * length ws. wbit ws1 i \<longleftrightarrow> (if i div 8 = k then bit b (i mod 8) else wbit ws i)"
    using put_byte_bits [of k ws b] Suc.prems by auto
  obtain ws2 where 2: "memset_bytes ws1 (Suc k) b n = Some ws2" "length ws2 = length ws"
      "\<forall>i < 32 * length ws. wbit ws2 i \<longleftrightarrow> (if Suc k \<le> i div 8 \<and> i div 8 < Suc k + n then bit b (i mod 8) else wbit ws1 i)"
    using Suc.IH [of "Suc k" ws1] Suc.prems 1(2) by auto
  show ?case using 1 2 by auto
qed auto

lemma memset_bytes_outside: "4 * length ws < k + n \<Longrightarrow> 0 < n \<Longrightarrow> memset_bytes ws k b n = None"
proof (induction n arbitrary: k ws)
  case (Suc n)
  show ?case
  proof (cases "k < 4 * length ws")
    case True
    then obtain ws1 where "put_byte ws k b = Some ws1" "length ws1 = length ws" using put_byte_bits by blast
    moreover have "0 < n" using True Suc.prems by simp
    ultimately show ?thesis using Suc.IH [of ws1 "Suc k"] Suc.prems by simp
  qed (simp add: put_byte_outside)
qed simp

section \<open>Loops\<close>

lemma all_words_eq:
  "(\<And>j. i \<le> j \<Longrightarrow> j < i + n \<Longrightarrow> P j = Some (p j)) \<Longrightarrow> all_words P i n = Some (\<forall>j\<in>{i..<i + n}. p j)"
proof (induction n arbitrary: i)
  case (Suc n)
  have "{i..<i + Suc n} = insert i {Suc i..<Suc i + n}" by auto
  then show ?case using Suc.prems [of i] Suc.IH [of "Suc i"] Suc.prems by auto
qed simp

lemma map_words_eq:
  "i + n \<le> length ws \<Longrightarrow> (\<And>j w. i \<le> j \<Longrightarrow> j < i + n \<Longrightarrow> f j w = Some (g j w)) \<Longrightarrow>
   \<exists>ws'. map_words f ws i n = Some ws' \<and> length ws' = length ws \<and>
     (\<forall>j < length ws. ws' ! j = (if i \<le> j \<and> j < i + n then g j (ws ! j) else ws ! j))"
proof (induction n arbitrary: i ws)
  case (Suc n)
  define ws1 where "ws1 = ws[i := g i (ws ! i)]"
  obtain ws2 where 2: "map_words f ws1 (Suc i) n = Some ws2" "length ws2 = length ws"
      "\<forall>j < length ws. ws2 ! j = (if Suc i \<le> j \<and> j < Suc i + n then g j (ws1 ! j) else ws1 ! j)"
    using Suc.IH [of "Suc i" ws1] Suc.prems by (auto simp: ws1_def)
  have "map_words f ws i (Suc n) = Some ws2"
    using Suc.prems 2(1) by (simp add: get_def put_def ws1_def)
  moreover have "ws2 ! j = (if i \<le> j \<and> j < i + Suc n then g j (ws ! j) else ws ! j)" if "j < length ws" for j
    using 2(3) that by (cases "j = i") (auto simp: ws1_def)
  ultimately show ?case using 2(2) by auto
qed auto

section \<open>Well-formed bitmaps\<close>

definition bitmap_ok :: "MY_BITMAP \<Rightarrow> bool" where
  "bitmap_ok m \<longleftrightarrow> 0 < m_n_bits m \<and> m_n_bits m + 31 < 2 ^ 32 \<and> m_last_word_ptr m = (m_n_bits m - 1) div 32 \<and>
     length (m_bitmap m) = Suc (m_last_word_ptr m) \<and>
     (\<forall>i < 32. bit (m_last_word_mask m) i \<longleftrightarrow> (m_n_bits m - 1) mod 32 < i)"

definition bits_of :: "MY_BITMAP \<Rightarrow> nat set" where
  "bits_of m = {i. i < m_n_bits m \<and> wbit (m_bitmap m) i}"

text \<open>The word as the code sees it, with the unused bits of the last word cleared.\<close>

definition used_word :: "MY_BITMAP \<Rightarrow> nat \<Rightarrow> 32 word" where
  "used_word m j = (if j < m_last_word_ptr m then m_bitmap m ! j else m_bitmap m ! j AND NOT (m_last_word_mask m))"

lemma less_iff_div_mod: "0 < (n :: nat) \<Longrightarrow> i < n \<longleftrightarrow> i div 32 < (n - 1) div 32 \<or> i div 32 = (n - 1) div 32 \<and> i mod 32 \<le> (n - 1) mod 32"
proof -
  assume "0 < n"
  then have "i < n \<longleftrightarrow> i \<le> n - 1" by auto
  moreover have "i = 32 * (i div 32) + i mod 32" "n - 1 = 32 * ((n - 1) div 32) + (n - 1) mod 32" by simp_all
  moreover have "i mod 32 < 32" "(n - 1) mod 32 < 32" by simp_all
  ultimately show ?thesis by linarith
qed

lemma bit_used_word:
  assumes "bitmap_ok m" "j \<le> m_last_word_ptr m" "b < 32"
  shows "bit (used_word m j) b \<longleftrightarrow> 32 * j + b \<in> bits_of m"
proof -
  have d: "(32 * j + b) div 32 = j" "(32 * j + b) mod 32 = b" using assms(3) by simp_all
  have "32 * j + b < m_n_bits m \<longleftrightarrow> j < m_last_word_ptr m \<or> j = m_last_word_ptr m \<and> \<not> bit (m_last_word_mask m) b"
    using assms d by (simp add: bitmap_ok_def less_iff_div_mod [of "m_n_bits m"] not_less)
  then show ?thesis
    using assms(2,3) by (auto simp: used_word_def bits_of_def wbit_def d bit_and_iff bit_not_iff)
qed

lemma bits_of_used:
  assumes "bitmap_ok m"
  shows "i \<in> bits_of m \<longleftrightarrow> i div 32 \<le> m_last_word_ptr m \<and> bit (used_word m (i div 32)) (i mod 32)"
proof -
  have "i \<in> bits_of m \<Longrightarrow> i div 32 \<le> m_last_word_ptr m"
    using assms less_iff_div_mod [of "m_n_bits m" i] by (auto simp: bits_of_def bitmap_ok_def)
  then show ?thesis using bit_used_word [OF assms, of "i div 32" "i mod 32"] by auto
qed

lemma bitmap_ok_words:
  assumes "bitmap_ok m"
  shows "no_words_in_map m = Suc (m_last_word_ptr m)" and "no_bytes_in_map m = (m_n_bits m - 1) div 8 + 1"
proof -
  have n: "m_n_bits m = (m_n_bits m - 1) + 1" "m_n_bits m + 31 < 2 ^ 32" using assms by (auto simp: bitmap_ok_def)
  have "u32 (int (m_n_bits m) + 31) = m_n_bits m + 31" "u32 (int (m_n_bits m) + 7) = m_n_bits m + 7"
    using n(2) by (simp_all add: u32_id nat_add_distrib)
  moreover have "(m_n_bits m + 31) div 32 = (m_n_bits m - 1 + 1 * 32) div 32" "(m_n_bits m + 7) div 8 = (m_n_bits m - 1 + 1 * 8) div 8"
    using n(1) by (simp_all add: add.commute)
  ultimately show "no_words_in_map m = Suc (m_last_word_ptr m)" "no_bytes_in_map m = (m_n_bits m - 1) div 8 + 1"
    using assms by (simp_all only: no_words_in_map_def no_bytes_in_map_def bitmap_ok_def div_mult_self1)
qed

lemma bits_of_range: "bitmap_ok m \<Longrightarrow> i \<in> bits_of m \<Longrightarrow> i div 32 \<le> m_last_word_ptr m"
  by (simp add: bits_of_used)

lemma ok_update:
  assumes "bitmap_ok m" "length ws = length (m_bitmap m)"
  shows "bitmap_ok (m\<lparr>m_bitmap := ws\<rparr>)" and "bits_of (m\<lparr>m_bitmap := ws\<rparr>) = {i. i < m_n_bits m \<and> wbit ws i}"
  using assms by (simp_all add: bitmap_ok_def bits_of_def)

lemma in_buffer: "bitmap_ok m \<Longrightarrow> i < m_n_bits m \<Longrightarrow> i div 32 < length (m_bitmap m) \<and> i < 32 * length (m_bitmap m)"
proof -
  assume m: "bitmap_ok m" "i < m_n_bits m"
  then have "i div 32 < length (m_bitmap m)"
    using less_iff_div_mod [of "m_n_bits m" i] by (auto simp: bitmap_ok_def)
  then show ?thesis using mod_less_divisor [of 32 i] mult_div_mod_eq [of 32 i] by linarith
qed

lemma in_words: "bitmap_ok m \<Longrightarrow> i < m_n_bits m \<Longrightarrow> i div 32 \<le> m_last_word_ptr m"
  using in_buffer by (simp add: bitmap_ok_def)

section \<open>Set algebra\<close>

lemma combine_bits:
  assumes "bitmap_ok m" "bitmap_ok m2" "m_n_bits m2 = m_n_bits m"
    and f: "\<And>v w b. b < 32 \<Longrightarrow> bit (f v w) b \<longleftrightarrow> F (bit v b) (bit w b)"
  shows "\<exists>m'. bitmap_combine f m m2 = Some m' \<and> bitmap_ok m' \<and> m_n_bits m' = m_n_bits m \<and>
    bits_of m' = {i. i < m_n_bits m \<and> F (i \<in> bits_of m) (i \<in> bits_of m2)}"
proof -
  have l: "length (m_bitmap m) = Suc (m_last_word_ptr m)" "length (m_bitmap m2) = Suc (m_last_word_ptr m)"
    using assms(1-3) by (auto simp: bitmap_ok_def)
  obtain ws where ws: "map_words (\<lambda>i w. map_option (f w) (get (m_bitmap m2) i)) (m_bitmap m) 0 (m_last_word_ptr m + 1) = Some ws"
      "length ws = length (m_bitmap m)" "\<forall>j < length (m_bitmap m). ws ! j = f (m_bitmap m ! j) (m_bitmap m2 ! j)"
    using map_words_eq [of 0 "m_last_word_ptr m + 1" "m_bitmap m" "\<lambda>i w. map_option (f w) (get (m_bitmap m2) i)"
        "\<lambda>i w. f w (m_bitmap m2 ! i)"] l by (auto simp: get_def)
  have "wbit ws i \<longleftrightarrow> F (wbit (m_bitmap m) i) (wbit (m_bitmap m2) i)" if "i < m_n_bits m" for i
    using ws(3) in_buffer [OF assms(1) that] f by (simp add: wbit_def)
  then have "{i. i < m_n_bits m \<and> wbit ws i} = {i. i < m_n_bits m \<and> F (i \<in> bits_of m) (i \<in> bits_of m2)}"
    using assms(3) by (auto simp: bits_of_def)
  then show ?thesis using ws(1) ok_update [OF assms(1) ws(2)] by (simp add: bitmap_combine_def)
qed

lemma all_ones: "(w :: 32 word) = 0xFFFFFFFF \<longleftrightarrow> (\<forall>b<32. bit w b)"
proof -
  have "(0xFFFFFFFF :: 32 word) = - 1" by simp
  then have "w = 0xFFFFFFFF \<longleftrightarrow> w = - 1" by (simp only:)
  also have "\<dots> \<longleftrightarrow> (\<forall>b<32. bit w b)" by (auto simp: bit_eq_iff [of w "- 1"])
  finally show ?thesis .
qed

lemma all_zeros: "(w :: 32 word) = 0 \<longleftrightarrow> (\<forall>b<32. \<not> bit w b)"
  by (auto simp: bit_eq_iff [of w 0] dest: bit_imp_le_length)

lemma bitmap_invert_bits:
  assumes "bitmap_ok m"
  shows "\<exists>m'. bitmap_invert m = Some m' \<and> bitmap_ok m' \<and> m_n_bits m' = m_n_bits m \<and> bits_of m' = {..<m_n_bits m} - bits_of m"
proof -
  have b: "b < 32 \<Longrightarrow> bit (w XOR 0xFFFFFFFF) b \<longleftrightarrow> \<not> bit w b" for w :: "32 word" and b
    using all_ones [of "0xFFFFFFFF"] by (simp only: bit_xor_iff) auto
  have l: "length (m_bitmap m) = Suc (m_last_word_ptr m)" using assms by (auto simp: bitmap_ok_def)
  obtain ws where ws: "map_words (\<lambda>i w. Some (w XOR 0xFFFFFFFF)) (m_bitmap m) 0 (m_last_word_ptr m + 1) = Some ws"
      "length ws = length (m_bitmap m)" "\<forall>j < length (m_bitmap m). ws ! j = m_bitmap m ! j XOR 0xFFFFFFFF"
    using map_words_eq [of 0 "m_last_word_ptr m + 1" "m_bitmap m" "\<lambda>i w. Some (w XOR 0xFFFFFFFF)" "\<lambda>i w. w XOR 0xFFFFFFFF"] l
    by auto
  have "wbit ws i \<longleftrightarrow> \<not> wbit (m_bitmap m) i" if "i < m_n_bits m" for i
    using ws(3) in_buffer [OF assms(1) that] b by (simp add: wbit_def)
  then have "{i. i < m_n_bits m \<and> wbit ws i} = {..<m_n_bits m} - bits_of m" by (auto simp: bits_of_def)
  then show ?thesis using ws(1) ok_update [OF assms(1) ws(2)] by (simp add: bitmap_invert_def)
qed

lemma bitmap_intersect_bits:
  assumes "bitmap_ok m" "bitmap_ok m2"
  shows "\<exists>m'. bitmap_intersect m m2 = Some m' \<and> bitmap_ok m' \<and> m_n_bits m' = m_n_bits m \<and> bits_of m' = bits_of m \<inter> bits_of m2"
proof -
  define len where "len = Suc (m_last_word_ptr m)"
  define len2 where "len2 = Suc (m_last_word_ptr m2)"
  have l: "length (m_bitmap m) = len" "length (m_bitmap m2) = len2" using assms by (auto simp: bitmap_ok_def len_def len2_def)
  obtain ws1 where 1: "map_words (\<lambda>i w. map_option (\<lambda>v. w AND v) (get (m_bitmap m2) i)) (m_bitmap m) 0 (min len len2) = Some ws1"
      "length ws1 = len" "\<forall>j < len. ws1 ! j = (if j < len2 then m_bitmap m ! j AND m_bitmap m2 ! j else m_bitmap m ! j)"
    using map_words_eq [of 0 "min len len2" "m_bitmap m" "\<lambda>i w. map_option (\<lambda>v. w AND v) (get (m_bitmap m2) i)"
        "\<lambda>i w. w AND m_bitmap m2 ! i"] l by (auto simp: get_def)
  define ws2 where "ws2 = (if len2 \<le> len then ws1[len2 - 1 := ws1 ! (len2 - 1) AND NOT (m_last_word_mask m2)] else ws1)"
  have l2: "length ws2 = len" using 1(2) by (simp add: ws2_def)
  obtain ws3 where 3: "(if len2 < len then map_words (\<lambda>i w. Some 0) ws2 len2 (len - len2) else Some ws2) = Some ws3"
      "length ws3 = len" "\<forall>j < len. ws3 ! j = (if len2 \<le> j then 0 else ws2 ! j)"
    using map_words_eq [of len2 "len - len2" ws2 "\<lambda>i w. Some 0" "\<lambda>i w. 0"] l2 by (cases "len2 < len") auto
  have "(if len2 \<le> len then do { w \<leftarrow> get ws1 (len2 - 1); put ws1 (len2 - 1) (w AND NOT (m_last_word_mask m2)) } else Some ws1) = Some ws2"
    using 1(2) by (auto simp: ws2_def get_def put_def len2_def)
  then have "bitmap_intersect m m2 = Some (m\<lparr>m_bitmap := ws3\<rparr>)"
    using 1(1) 3(1) by (simp add: bitmap_intersect_def Let_def bitmap_ok_words [OF assms(1)] bitmap_ok_words [OF assms(2)]
        len_def [symmetric] len2_def [symmetric])
  moreover have "wbit ws3 i \<longleftrightarrow> wbit (m_bitmap m) i \<and> i \<in> bits_of m2" if i: "i < m_n_bits m" for i
  proof -
    have j: "i div 32 < len" using in_buffer [OF assms(1) i] l by simp
    show ?thesis
    proof (cases "len2 \<le> i div 32")
      case True
      then show ?thesis using 3(3) j bits_of_range [OF assms(2), of i] by (auto simp: wbit_def len2_def)
    next
      case False
      then have "bit (ws2 ! (i div 32)) (i mod 32) \<longleftrightarrow> bit (m_bitmap m ! (i div 32)) (i mod 32) \<and> bit (used_word m2 (i div 32)) (i mod 32)"
        using 1(2,3) j by (cases "i div 32 = len2 - 1")
          (auto simp: ws2_def used_word_def bit_and_iff bit_not_iff len2_def)
      then show ?thesis using False 3(3) j bits_of_used [OF assms(2), of i] by (auto simp: wbit_def len2_def)
    qed
  qed
  then have "{i. i < m_n_bits m \<and> wbit ws3 i} = bits_of m \<inter> bits_of m2" by (auto simp: bits_of_def)
  ultimately show ?thesis using ok_update [OF assms(1), of ws3] 3(2) l by simp
qed

section \<open>Tests\<close>

lemma range_all:
  "(\<forall>j\<in>{0..<n}. \<forall>b<32. Q (32 * j + b)) \<and> (\<forall>b<32. Q (32 * n + b)) \<longleftrightarrow> (\<forall>i. i div 32 \<le> n \<longrightarrow> Q i)" for n :: nat
proof (intro iffI conjI ballI allI impI)
  fix i assume q: "(\<forall>j\<in>{0..<n}. \<forall>b<32. Q (32 * j + b)) \<and> (\<forall>b<32. Q (32 * n + b))" and "i div 32 \<le> n"
  moreover have "i = 32 * (i div 32) + i mod 32" "i mod 32 < 32" by simp_all
  ultimately show "Q i" by (metis atLeast0LessThan le_neq_implies_less lessThan_iff)
qed auto

lemma mask_bit:
  assumes "bitmap_ok m" "b < 32"
  shows "bit (m_last_word_mask m) b \<longleftrightarrow> m_n_bits m \<le> 32 * m_last_word_ptr m + b"
  using assms less_iff_div_mod [of "m_n_bits m" "32 * m_last_word_ptr m + b"] by (auto simp: bitmap_ok_def not_less)

lemma last_in_buffer: "bitmap_ok m \<Longrightarrow> j \<le> m_last_word_ptr m \<Longrightarrow> get (m_bitmap m) j = Some (m_bitmap m ! j)"
  by (simp add: get_def bitmap_ok_def)

text \<open>A loop over two bitmaps of the same size tests a condition on all bits.\<close>

lemma test_bits:
  assumes "bitmap_ok m1" "bitmap_ok m2" "m_n_bits m1 = m_n_bits m2"
    and R: "\<And>v w. R v w \<longleftrightarrow> (\<forall>b<32. P (bit v b) (bit w b))"
  shows "(\<forall>j\<in>{0..<m_last_word_ptr m1}. R (m_bitmap m1 ! j) (m_bitmap m2 ! j)) \<and>
    R (m_bitmap m1 ! m_last_word_ptr m1 AND NOT (m_last_word_mask m1)) (m_bitmap m2 ! m_last_word_ptr m2 AND NOT (m_last_word_mask m2)) \<longleftrightarrow>
    (\<forall>i. i div 32 \<le> m_last_word_ptr m1 \<longrightarrow> P (i \<in> bits_of m1) (i \<in> bits_of m2))"
proof -
  have e: "m_last_word_ptr m2 = m_last_word_ptr m1" using assms(1-3) by (simp add: bitmap_ok_def)
  have b: "R (used_word m1 j) (used_word m2 j) \<longleftrightarrow> (\<forall>b<32. P (32 * j + b \<in> bits_of m1) (32 * j + b \<in> bits_of m2))"
    if "j \<le> m_last_word_ptr m1" for j using that R bit_used_word assms(1,2) e by simp
  have "(\<forall>j\<in>{0..<m_last_word_ptr m1}. R (m_bitmap m1 ! j) (m_bitmap m2 ! j)) \<longleftrightarrow>
      (\<forall>j\<in>{0..<m_last_word_ptr m1}. \<forall>b<32. P (32 * j + b \<in> bits_of m1) (32 * j + b \<in> bits_of m2))"
    by (rule ball_cong [OF refl]) (simp add: b [symmetric], simp add: used_word_def e)
  moreover have "R (m_bitmap m1 ! m_last_word_ptr m1 AND NOT (m_last_word_mask m1)) (m_bitmap m2 ! m_last_word_ptr m2 AND NOT (m_last_word_mask m2)) \<longleftrightarrow>
      (\<forall>b<32. P (32 * m_last_word_ptr m1 + b \<in> bits_of m1) (32 * m_last_word_ptr m1 + b \<in> bits_of m2))"
    using b [of "m_last_word_ptr m1"] by (simp add: used_word_def e)
  ultimately show ?thesis
    using range_all [of "m_last_word_ptr m1" "\<lambda>i. P (i \<in> bits_of m1) (i \<in> bits_of m2)"] by simp
qed

lemma bitmap_is_subset_iff:
  assumes "bitmap_ok m1" "bitmap_ok m2" "m_n_bits m1 = m_n_bits m2"
  shows "bitmap_is_subset m1 m2 = Some (bits_of m1 \<subseteq> bits_of m2)"
proof -
  have e: "m_last_word_ptr m2 = m_last_word_ptr m1" using assms(1-3) by (simp add: bitmap_ok_def)
  have R: "v AND NOT w = 0 \<longleftrightarrow> (\<forall>b<32. bit v b \<longrightarrow> bit w b)" for v w :: "32 word"
    by (auto simp: all_zeros bit_and_iff bit_not_iff)
  have "all_words (\<lambda>i. do { v \<leftarrow> get (m_bitmap m1) i; w \<leftarrow> get (m_bitmap m2) i; Some (v AND NOT w = 0) }) 0 (m_last_word_ptr m1) =
      Some (\<forall>j\<in>{0..<0 + m_last_word_ptr m1}. m_bitmap m1 ! j AND NOT (m_bitmap m2 ! j) = 0)"
    using last_in_buffer [OF assms(1)] last_in_buffer [OF assms(2)] e by (intro all_words_eq) simp
  then show ?thesis
    using test_bits [OF assms, of "\<lambda>v w. v AND NOT w = 0" "(\<longrightarrow>)"] R last_in_buffer [OF assms(1)] last_in_buffer [OF assms(2)]
      bits_of_range [OF assms(1)] e
    by (auto simp: bitmap_is_subset_def)
qed

lemma bitmap_is_overlapping_iff:
  assumes "bitmap_ok m1" "bitmap_ok m2" "m_n_bits m1 = m_n_bits m2"
  shows "bitmap_is_overlapping m1 m2 = Some (bits_of m1 \<inter> bits_of m2 \<noteq> {})"
proof -
  have e: "m_last_word_ptr m2 = m_last_word_ptr m1" using assms(1-3) by (simp add: bitmap_ok_def)
  have R: "v AND w = 0 \<longleftrightarrow> (\<forall>b<32. \<not> (bit v b \<and> bit w b))" for v w :: "32 word"
    by (auto simp: all_zeros bit_and_iff)
  have "all_words (\<lambda>i. do { v \<leftarrow> get (m_bitmap m1) i; w \<leftarrow> get (m_bitmap m2) i; Some (v AND w = 0) }) 0 (m_last_word_ptr m1) =
      Some (\<forall>j\<in>{0..<0 + m_last_word_ptr m1}. m_bitmap m1 ! j AND m_bitmap m2 ! j = 0)"
    using last_in_buffer [OF assms(1)] last_in_buffer [OF assms(2)] e by (intro all_words_eq) simp
  then show ?thesis
    using test_bits [OF assms, of "\<lambda>v w. v AND w = 0" "\<lambda>a b. \<not> (a \<and> b)"] R last_in_buffer [OF assms(1)]
      last_in_buffer [OF assms(2)] bits_of_range [OF assms(1)] e
    by (auto simp: bitmap_is_overlapping_def)
qed

lemma bitmap_is_clear_all_iff:
  assumes "bitmap_ok m"
  shows "bitmap_is_clear_all m = Some (bits_of m = {})"
proof -
  have "all_words (\<lambda>i. map_option (\<lambda>w. w = 0) (get (m_bitmap m) i)) 0 (m_last_word_ptr m) =
      Some (\<forall>j\<in>{0..<0 + m_last_word_ptr m}. m_bitmap m ! j = 0)"
    using last_in_buffer [OF assms] by (intro all_words_eq) simp
  moreover have "(\<forall>j\<in>{0..<m_last_word_ptr m}. m_bitmap m ! j = 0) \<and>
      m_bitmap m ! m_last_word_ptr m AND NOT (m_last_word_mask m) = 0 \<longleftrightarrow> bits_of m = {}"
    using test_bits [OF assms assms refl, of "\<lambda>v w. v = 0" "\<lambda>a b. \<not> a", OF all_zeros] bits_of_range [OF assms] by blast
  ultimately show ?thesis using last_in_buffer [OF assms] by (simp add: bitmap_is_clear_all_def)
qed

text \<open>For the tests that set the unused bits instead of clearing them.\<close>

lemma or_mask_last:
  assumes "bitmap_ok m" "b < 32"
  shows "bit (w OR m_last_word_mask m) b \<longleftrightarrow> (32 * m_last_word_ptr m + b < m_n_bits m \<longrightarrow> bit w b)"
  using mask_bit [OF assms] by (auto simp: bit_or_iff)

lemma bits_of_word:
  assumes "bitmap_ok m" "b < 32" "32 * j + b < m_n_bits m"
  shows "32 * j + b \<in> bits_of m \<longleftrightarrow> bit (m_bitmap m ! j) b"
  using assms by (simp add: bits_of_def wbit_def)

lemma inner_word:
  assumes "bitmap_ok m" "j < m_last_word_ptr m" "b < 32"
  shows "32 * j + b < m_n_bits m"
  using assms less_iff_div_mod [of "m_n_bits m" "32 * j + b"] by (simp add: bitmap_ok_def)

lemma bitmap_is_set_all_iff:
  assumes "bitmap_ok m"
  shows "bitmap_is_set_all m = Some (bits_of m = {..<m_n_bits m})"
proof -
  let ?Q = "\<lambda>i. i < m_n_bits m \<longrightarrow> i \<in> bits_of m"
  have "all_words (\<lambda>i. map_option (\<lambda>w. w = 0xFFFFFFFF) (get (m_bitmap m) i)) 0 (m_last_word_ptr m) =
      Some (\<forall>j\<in>{0..<0 + m_last_word_ptr m}. m_bitmap m ! j = 0xFFFFFFFF)"
    using last_in_buffer [OF assms] by (intro all_words_eq) simp
  moreover have "(\<forall>j\<in>{0..<m_last_word_ptr m}. m_bitmap m ! j = 0xFFFFFFFF) \<longleftrightarrow>
      (\<forall>j\<in>{0..<m_last_word_ptr m}. \<forall>b<32. ?Q (32 * j + b))"
    by (rule ball_cong [OF refl]) (simp add: all_ones inner_word [OF assms] bits_of_word [OF assms])
  moreover have "m_bitmap m ! m_last_word_ptr m OR m_last_word_mask m = 0xFFFFFFFF \<longleftrightarrow> (\<forall>b<32. ?Q (32 * m_last_word_ptr m + b))"
    by (auto simp: all_ones or_mask_last [OF assms] bits_of_word [OF assms])
  moreover have "(\<forall>i. i div 32 \<le> m_last_word_ptr m \<longrightarrow> ?Q i) \<longleftrightarrow> bits_of m = {..<m_n_bits m}"
    using in_words [OF assms] by (auto simp: bits_of_def)
  ultimately show ?thesis
    using range_all [of "m_last_word_ptr m" ?Q] last_in_buffer [OF assms] by (simp add: bitmap_is_set_all_def)
qed

lemma bitmap_cmp_iff:
  assumes "bitmap_ok m1" "bitmap_ok m2" "m_n_bits m1 = m_n_bits m2"
  shows "bitmap_cmp m1 m2 = Some (bits_of m1 = bits_of m2)"
proof -
  let ?Q = "\<lambda>i. i < m_n_bits m1 \<longrightarrow> (i \<in> bits_of m1 \<longleftrightarrow> i \<in> bits_of m2)"
  have e: "m_last_word_ptr m2 = m_last_word_ptr m1" using assms(1-3) by (simp add: bitmap_ok_def)
  have eq: "v = w \<longleftrightarrow> (\<forall>b<32. bit v b \<longleftrightarrow> bit w b)" for v w :: "32 word"
    by (auto simp: bit_eq_iff [of v] dest: bit_imp_le_length)
  have "all_words (\<lambda>i. do { v \<leftarrow> get (m_bitmap m1) i; w \<leftarrow> get (m_bitmap m2) i; Some (v = w) }) 0 (m_last_word_ptr m1) =
      Some (\<forall>j\<in>{0..<0 + m_last_word_ptr m1}. m_bitmap m1 ! j = m_bitmap m2 ! j)"
    using last_in_buffer [OF assms(1)] last_in_buffer [OF assms(2)] e by (intro all_words_eq) simp
  moreover have w: "m_bitmap m1 ! j = m_bitmap m2 ! j \<longleftrightarrow> (\<forall>b<32. ?Q (32 * j + b))" if "j < m_last_word_ptr m1" for j
  proof -
    have "b < 32 \<Longrightarrow> (bit (m_bitmap m1 ! j) b \<longleftrightarrow> bit (m_bitmap m2 ! j) b) \<longleftrightarrow> ?Q (32 * j + b)" for b
      using inner_word [OF assms(1) that, of b] bits_of_word [OF assms(1), of b j] bits_of_word [OF assms(2), of b j] assms(3) by simp
    then show ?thesis unfolding eq [of "m_bitmap m1 ! j"] by blast
  qed
  have "(\<forall>j\<in>{0..<m_last_word_ptr m1}. m_bitmap m1 ! j = m_bitmap m2 ! j) \<longleftrightarrow>
      (\<forall>j\<in>{0..<m_last_word_ptr m1}. \<forall>b<32. ?Q (32 * j + b))"
    by (rule ball_cong [OF refl]) (simp add: w)
  moreover have "m_bitmap m1 ! m_last_word_ptr m1 OR m_last_word_mask m1 = m_bitmap m2 ! m_last_word_ptr m2 OR m_last_word_mask m2 \<longleftrightarrow>
      (\<forall>b<32. ?Q (32 * m_last_word_ptr m1 + b))"
  proof -
    have "b < 32 \<Longrightarrow> (bit (m_bitmap m1 ! m_last_word_ptr m1 OR m_last_word_mask m1) b \<longleftrightarrow>
        bit (m_bitmap m2 ! m_last_word_ptr m2 OR m_last_word_mask m2) b) \<longleftrightarrow> ?Q (32 * m_last_word_ptr m1 + b)" for b
      using assms(3) e bits_of_word [OF assms(1), of b] bits_of_word [OF assms(2), of b]
      by (auto simp: or_mask_last [OF assms(1)] or_mask_last [OF assms(2)])
    then show ?thesis unfolding eq [of "_ OR _"] by blast
  qed
  moreover have "(\<forall>i. i div 32 \<le> m_last_word_ptr m1 \<longrightarrow> ?Q i) \<longleftrightarrow> bits_of m1 = bits_of m2"
    using in_words [OF assms(1)] assms(3) by (auto simp: bits_of_def)
  ultimately show ?thesis
    using range_all [of "m_last_word_ptr m1" ?Q] last_in_buffer [OF assms(1)] last_in_buffer [OF assms(2)] bitmap_ok_words(1) [OF assms(1)]
    by (simp add: bitmap_cmp_def)
qed

section \<open>Single bits\<close>

lemma bit_mask_test: "k < 32 \<Longrightarrow> (b :: 32 word) AND push_bit k 1 = 0 \<longleftrightarrow> \<not> bit b k"
  by (auto simp: all_zeros bit_and_iff bit_exp_iff)

lemma get_byte_bit:
  assumes "i < 32 * length ws"
  shows "\<exists>b. get_byte ws (i div 8) = Some b \<and> (\<forall>j. j div 8 = i div 8 \<longrightarrow> bit b (j mod 8) = wbit ws j)"
proof -
  have "i div 32 < length ws" using assms by (simp add: less_mult_imp_div_less mult.commute)
  then have "get_byte ws (i div 8) = Some (byte_of (i div 8 mod 4) (ws ! (i div 32)))"
    by (simp add: get_byte_def get_def div_32)
  moreover have "bit (byte_of (i div 8 mod 4) (ws ! (i div 32))) (j mod 8) = wbit ws j" if "j div 8 = i div 8" for j
  proof -
    have "8 * (i div 8 mod 4) + j mod 8 = j mod 32" using mod_mult2_eq [of j 8 4] that by simp
    moreover have "j div 32 = i div 32" using that by (simp add: div_32)
    ultimately show ?thesis by (simp add: bit_byte_of wbit_def)
  qed
  ultimately show ?thesis by blast
qed

lemma same_byte: "j div 8 = i div 8 \<Longrightarrow> j mod 8 = i mod 8 \<longleftrightarrow> j = (i :: nat)"
  by (metis mult_div_mod_eq)

lemma bit_bit_byte_mask: "k < 8 \<Longrightarrow> bit (bit_byte_mask i) k \<longleftrightarrow> k = i mod 8"
  by (auto simp: bit_byte_mask_def bit_exp_iff)

text \<open>Replacing one byte by a function of its value and the mask changes only the bit addressed.\<close>

lemma update_bit:
  assumes "bitmap_ok m" "i < m_n_bits m"
    and f: "\<And>b k. k < 8 \<Longrightarrow> bit (f b (bit_byte_mask i)) k \<longleftrightarrow> (if k = i mod 8 then F (bit b k) else bit b k)"
  shows "\<exists>b ws. get_byte (m_bitmap m) (i div 8) = Some b \<and> (b AND bit_byte_mask i \<noteq> 0 \<longleftrightarrow> i \<in> bits_of m) \<and>
    put_byte (m_bitmap m) (i div 8) (f b (bit_byte_mask i)) = Some ws \<and> bitmap_ok (m\<lparr>m_bitmap := ws\<rparr>) \<and>
    bits_of (m\<lparr>m_bitmap := ws\<rparr>) = (if F (i \<in> bits_of m) then insert i (bits_of m) else bits_of m - {i})"
proof -
  have i: "i < 32 * length (m_bitmap m)" using in_buffer [OF assms(1,2)] by simp
  obtain b where b: "get_byte (m_bitmap m) (i div 8) = Some b" "\<And>j. j div 8 = i div 8 \<Longrightarrow> bit b (j mod 8) = wbit (m_bitmap m) j"
    using get_byte_bit [OF i] by blast
  have "i div 8 < 4 * length (m_bitmap m)" using i by (simp add: less_mult_imp_div_less)
  then obtain ws where ws: "put_byte (m_bitmap m) (i div 8) (f b (bit_byte_mask i)) = Some ws" "length ws = length (m_bitmap m)"
      "\<forall>j < 32 * length (m_bitmap m). wbit ws j \<longleftrightarrow> (if j div 8 = i div 8 then bit (f b (bit_byte_mask i)) (j mod 8) else wbit (m_bitmap m) j)"
    using put_byte_bits by blast
  have w: "wbit ws j \<longleftrightarrow> (if j = i then F (wbit (m_bitmap m) i) else wbit (m_bitmap m) j)" if "j < m_n_bits m" for j
  proof (cases "j div 8 = i div 8")
    case True
    then show ?thesis using ws(3) in_buffer [OF assms(1) that] f [of "j mod 8" b] b(2) [OF True] same_byte [OF True] by auto
  next
    case False
    then show ?thesis using ws(3) in_buffer [OF assms(1) that] by auto
  qed
  have "b AND bit_byte_mask i \<noteq> 0 \<longleftrightarrow> i \<in> bits_of m"
    unfolding bit_byte_mask_def using b(2) [of i] assms(2) bit_mask_test [of "i mod 8" b] by (simp add: bits_of_def)
  moreover have "bits_of (m\<lparr>m_bitmap := ws\<rparr>) = (if F (i \<in> bits_of m) then insert i (bits_of m) else bits_of m - {i})"
    unfolding ok_update(2) [OF assms(1) ws(2)] using w assms(2) by (auto simp: bits_of_def split: if_splits)
  ultimately show ?thesis using b(1) ws(1) ok_update(1) [OF assms(1) ws(2)] by blast
qed

lemma byte_ops:
  assumes "k < 8"
  shows "bit (b OR bit_byte_mask i) k \<longleftrightarrow> (if k = i mod 8 then True else bit b k)"
    and "bit (b AND NOT (bit_byte_mask i)) k \<longleftrightarrow> (if k = i mod 8 then False else bit b k)"
    and "bit (b XOR bit_byte_mask i) k \<longleftrightarrow> (if k = i mod 8 then \<not> bit b k else bit b k)"
  using assms by (auto simp: bit_or_iff bit_and_iff bit_not_iff bit_xor_iff bit_bit_byte_mask)

lemma bitmap_set_bit_bits:
  assumes "bitmap_ok m" "i < m_n_bits m"
  shows "\<exists>m'. bitmap_set_bit i m = Some m' \<and> bitmap_ok m' \<and> m_n_bits m' = m_n_bits m \<and> bits_of m' = insert i (bits_of m)"
  using update_bit [OF assms, of "(OR)" "\<lambda>_. True", OF byte_ops(1)] by (auto simp: bitmap_set_bit_def)

lemma bitmap_clear_bit_bits:
  assumes "bitmap_ok m" "i < m_n_bits m"
  shows "\<exists>m'. bitmap_clear_bit i m = Some m' \<and> bitmap_ok m' \<and> m_n_bits m' = m_n_bits m \<and> bits_of m' = bits_of m - {i}"
  using update_bit [OF assms, of "\<lambda>b k. b AND NOT k" "\<lambda>_. False", OF byte_ops(2)]
  by (auto simp: bitmap_clear_bit_def)

lemma bitmap_flip_bit_bits:
  assumes "bitmap_ok m" "i < m_n_bits m"
  shows "\<exists>m'. bitmap_flip_bit i m = Some m' \<and> bitmap_ok m' \<and> m_n_bits m' = m_n_bits m \<and>
    bits_of m' = (if i \<in> bits_of m then bits_of m - {i} else insert i (bits_of m))"
  using update_bit [OF assms, of "(XOR)" Not, OF byte_ops(3)] by (auto simp: bitmap_flip_bit_def)

lemma bitmap_is_set_bits: "bitmap_ok m \<Longrightarrow> i < m_n_bits m \<Longrightarrow> bitmap_is_set i m = Some (i \<in> bits_of m)"
  using update_bit [of m i "(OR)" "\<lambda>_. True", OF _ _ byte_ops(1)] by (auto simp: bitmap_is_set_def)

lemma bitmap_test_and_set_bits:
  assumes "bitmap_ok m" "i < m_n_bits m"
  shows "\<exists>m'. bitmap_test_and_set i m = Some (i \<in> bits_of m, m') \<and> bitmap_ok m' \<and> bits_of m' = insert i (bits_of m)"
  using update_bit [OF assms, of "(OR)" "\<lambda>_. True", OF byte_ops(1)]
  by (auto simp: bitmap_test_and_set_def bitmap_fast_test_and_set_def)

lemma bitmap_test_and_clear_bits:
  assumes "bitmap_ok m" "i < m_n_bits m"
  shows "\<exists>m'. bitmap_test_and_clear i m = Some (i \<in> bits_of m, m') \<and> bitmap_ok m' \<and> bits_of m' = bits_of m - {i}"
  using update_bit [OF assms, of "\<lambda>b k. b AND NOT k" "\<lambda>_. False", OF byte_ops(2)]
  by (auto simp: bitmap_test_and_clear_def bitmap_fast_test_and_clear_def)

section \<open>Set-up\<close>

lemma last_byte_mask:
  assumes "used \<le> 8" "b < 8"
  shows "bit (NOT (push_bit used 1 - 1) AND 255 :: 32 word) b \<longleftrightarrow> used \<le> b"
proof -
  have "push_bit used 1 - 1 = (mask used :: 32 word)" by (simp add: mask_eq_exp_minus_1)
  then have "bit (push_bit used 1 - 1 :: 32 word) b \<longleftrightarrow> b < used" using assms by (simp only: bit_mask_iff) simp
  then show ?thesis using assms unfolding bit_and_iff bit_not_iff bit_255 by (auto simp: not_less)
qed

lemma create_last_word_mask_bits:
  assumes "0 < m_n_bits m" "m_n_bits m + 31 < 2 ^ 32" "i < 32"
  shows "bit (m_last_word_mask (create_last_word_mask m)) i \<longleftrightarrow> (m_n_bits m - 1) mod 32 < i"
proof -
  define p where "p = m_n_bits m - 1"
  define mask :: "32 word" where "mask = NOT (push_bit (1 + p mod 8) 1 - 1) AND 255"
  have n: "m_n_bits m = Suc p" using assms(1) by (simp add: p_def)
  have u: "u32 (int (m_n_bits m) - 1) = p" "u32 (int (m_n_bits m) + 7) = p + 1 * 8"
    using assms(2) by (simp_all add: n u32_id nat_add_distrib)
  have c: "no_bytes_in_map m mod 4 = Suc (p div 8 mod 4) mod 4"
  proof -
    have "(p + 1 * 8) div 8 = Suc (p div 8)" by simp
    then show ?thesis by (simp only: no_bytes_in_map_def u(2) mod_Suc_eq)
  qed
  have mk: "b < 8 \<Longrightarrow> bit mask b \<longleftrightarrow> p mod 8 < b" for b
    unfolding mask_def using last_byte_mask [of "1 + p mod 8" b] mod_less_divisor [of 8 p] by (simp add: Suc_le_eq)
  define q where "q = p div 8 mod 4"
  have m32: "p mod 32 = 8 * q + p mod 8" using mod_mult2_eq [of p 8 4] by (simp add: q_def)
  have ii: "i = 8 * (i div 8) + i mod 8" "i mod 8 < 8" "p mod 8 < 8" by simp_all
  have lex: "p mod 32 < i \<longleftrightarrow> q < i div 8 \<or> q = i div 8 \<and> p mod 8 < i mod 8"
    unfolding m32 using ii by (cases "q < i div 8"; cases "q = i div 8") linarith+
  have d: "i div 8 < 4" using assms(3) by auto
  have z: "\<not> bit (0 :: 32 word) b" "b < 8 \<Longrightarrow> bit (NOT 0 :: 32 word) b" "b < 32 \<Longrightarrow> bit (NOT 0 :: 32 word) b" for b
    by (simp_all add: bit_not_iff)
  have nb: "no_bytes_in_map (m\<lparr>m_last_word_ptr := k\<rparr>) = no_bytes_in_map m" for k by (simp add: no_bytes_in_map_def)
  have M: "m_last_word_mask (create_last_word_mask m) =
      (if Suc q mod 4 = 1 then set_byte 0 mask (NOT 0) else if Suc q mod 4 = 2 then set_byte 1 mask (set_byte 0 0 (NOT 0))
       else if Suc q mod 4 = 3 then set_byte 3 255 (set_byte 2 mask 0) else set_byte 3 mask 0)"
    unfolding create_last_word_mask_def Let_def u(1) mask_def [symmetric] nb c q_def [symmetric] by simp
  have f: "b < 8 \<Longrightarrow> bit (255 :: 32 word) b" for b unfolding bit_255 by simp
  have "q < 4" by (simp add: q_def)
  then consider "q = 0" | "q = 1" | "q = 2" | "q = 3" by linarith
  then show ?thesis
  proof cases
    case 1
    then show ?thesis unfolding p_def [symmetric] lex using ii(2) assms(3) by (auto simp: M bit_set_byte mk z)
  next
    case 2
    then show ?thesis unfolding p_def [symmetric] lex using ii(2) assms(3) by (auto simp: M bit_set_byte mk z)
  next
    case 3
    then show ?thesis unfolding p_def [symmetric] lex using ii(2) assms(3) d f by (auto simp: M bit_set_byte mk z)
  next
    case 4
    then show ?thesis unfolding p_def [symmetric] lex using ii(2) assms(3) d by (auto simp: M bit_set_byte mk z)
  qed
qed

lemma memset_all:
  assumes "bitmap_ok m"
  shows "\<exists>ws. memset_bytes (m_bitmap m) 0 v (4 * no_words_in_map m) = Some ws \<and> bitmap_ok (m\<lparr>m_bitmap := ws\<rparr>) \<and>
    bits_of (m\<lparr>m_bitmap := ws\<rparr>) = {i. i < m_n_bits m \<and> bit v (i mod 8)}"
proof -
  have l: "4 * no_words_in_map m = 4 * length (m_bitmap m)" using assms bitmap_ok_words(1) [OF assms] by (simp add: bitmap_ok_def)
  obtain ws where ws: "memset_bytes (m_bitmap m) 0 v (4 * no_words_in_map m) = Some ws" "length ws = length (m_bitmap m)"
      "\<forall>i < 32 * length (m_bitmap m). wbit ws i \<longleftrightarrow> (if i div 8 < 4 * length (m_bitmap m) then bit v (i mod 8) else wbit (m_bitmap m) i)"
    using memset_bytes_bits [of 0 "4 * no_words_in_map m" "m_bitmap m" v] by (auto simp: l)
  have "wbit ws i \<longleftrightarrow> bit v (i mod 8)" if "i < m_n_bits m" for i
    using ws(3) in_buffer [OF assms that] by (simp add: less_mult_imp_div_less)
  then show ?thesis using ws(1) ok_update [OF assms ws(2)] by auto
qed

lemma bitmap_clear_all_bits:
  assumes "bitmap_ok m"
  shows "\<exists>m'. bitmap_clear_all m = Some m' \<and> bitmap_ok m' \<and> m_n_bits m' = m_n_bits m \<and> bits_of m' = {}"
  using memset_all [OF assms, of 0] by (auto simp: bitmap_clear_all_def)

lemma bitmap_set_all_bits:
  assumes "bitmap_ok m"
  shows "\<exists>m'. bitmap_set_all m = Some m' \<and> bitmap_ok m' \<and> m_n_bits m' = m_n_bits m \<and> bits_of m' = {..<m_n_bits m}"
proof -
  have "bit (255 :: 32 word) (i mod 8)" for i unfolding bit_255 by simp
  then show ?thesis using memset_all [OF assms, of 255] by (auto simp: bitmap_set_all_def simp del: bit_numeral_simps)
qed

lemma bitmap_init_buffer:
  assumes "0 < n" "n + 31 < 2 ^ 32" "length buf = bitmap_buffer_size n div 4"
  shows "bitmap_ok (create_last_word_mask (m\<lparr>m_bitmap := buf, m_n_bits := n\<rparr>))"
proof -
  let ?m = "m\<lparr>m_bitmap := buf, m_n_bits := n\<rparr>"
  have "u32 (int n + 31) = n - 1 + 1 * 32" using assms(1,2) by (simp add: u32_id nat_add_distrib)
  then have w: "u32 (int n + 31) div 32 = Suc ((n - 1) div 32)" by simp
  have "m_last_word_ptr (create_last_word_mask ?m) = (n - 1) div 32" "m_bitmap (create_last_word_mask ?m) = buf"
    "m_n_bits (create_last_word_mask ?m) = n"
    by (simp_all add: create_last_word_mask_def Let_def no_words_in_map_def w)
  moreover have "length buf = Suc ((n - 1) div 32)" using assms(3) by (simp add: bitmap_buffer_size_def w)
  ultimately show ?thesis
    using assms(1,2) create_last_word_mask_bits [of ?m] by (simp add: bitmap_ok_def)
qed

end
