(* ===== verification/BitmapSpec.thy ===== *)
theory BitmapSpec
  imports BitmapSets
begin

unbundle bit_operations_syntax

text \<open>
  Counting, searches and prefixes of \<open>Bitmap\<close> as operations on sets of bit numbers, the contract of
  the bitmaps as a locale, and the properties of the component.
\<close>

section \<open>Counting\<close>

lemma count_words_sum:
  "i + n \<le> length ws \<Longrightarrow> count_words ws i n res = Some (res + (\<Sum>j\<in>{i..<i + n}. card {b. bit (ws ! j) b}))"
proof (induction n arbitrary: i res)
  case (Suc n)
  have "{i..<i + Suc n} = insert i {Suc i..<Suc i + n}" by auto
  then show ?case using Suc by (simp add: get_def my_count_bits_uint32_card)
qed simp

lemma card_bits_of:
  assumes "bitmap_ok m"
  shows "card (bits_of m) = (\<Sum>j\<in>{..m_last_word_ptr m}. card {b. bit (used_word m j) b})"
proof -
  let ?B = "\<lambda>j. (\<lambda>b. 32 * j + b) ` {b. bit (used_word m j) b}"
  have b32: "bit (w :: 32 word) b \<Longrightarrow> b < 32" for w b using bit_imp_le_length [of w b] by simp
  have u: "bits_of m = (\<Union>j\<in>{..m_last_word_ptr m}. ?B j)"
  proof (intro set_eqI iffI)
    fix i assume "i \<in> bits_of m"
    then have "i div 32 \<le> m_last_word_ptr m" "bit (used_word m (i div 32)) (i mod 32)" using bits_of_used [OF assms] by auto
    moreover have "i = 32 * (i div 32) + i mod 32" by simp
    ultimately show "i \<in> (\<Union>j\<in>{..m_last_word_ptr m}. ?B j)" by blast
  next
    fix i assume "i \<in> (\<Union>j\<in>{..m_last_word_ptr m}. ?B j)"
    then show "i \<in> bits_of m" using bit_used_word [OF assms] b32 by auto
  qed
  have "finite {b. bit (w :: 32 word) b}" for w by (rule finite_subset [of _ "{..<32}"]) (auto dest: b32)
  moreover have "?B j \<inter> ?B k = {}" if "j \<noteq> k" for j k using that by (auto dest!: b32)
  ultimately have "card (\<Union>j\<in>{..m_last_word_ptr m}. ?B j) = (\<Sum>j\<in>{..m_last_word_ptr m}. card (?B j))"
    by (intro card_UN_disjoint) auto
  then show ?thesis by (simp add: u card_image)
qed

lemma bitmap_bits_set_card:
  assumes "bitmap_ok m"
  shows "bitmap_bits_set m = Some (card (bits_of m))"
proof -
  have "(\<Sum>j\<in>{0..<m_last_word_ptr m}. card {b. bit (m_bitmap m ! j) b}) = (\<Sum>j\<in>{..<m_last_word_ptr m}. card {b. bit (used_word m j) b})"
    by (rule sum.cong) (auto simp: used_word_def)
  moreover have "{..m_last_word_ptr m} = insert (m_last_word_ptr m) {..<m_last_word_ptr m}" by auto
  moreover have "m_last_word_ptr m \<le> length (m_bitmap m)" using assms by (simp add: bitmap_ok_def)
  ultimately show ?thesis
    using count_words_sum [of 0 "m_last_word_ptr m" "m_bitmap m" 0] last_in_buffer [OF assms]
    by (simp add: bitmap_bits_set_def card_bits_of [OF assms] my_count_bits_uint32_card) (simp add: used_word_def)
qed

section \<open>Searching\<close>

lemma first_bit_least:
  "\<exists>j. i \<le> j \<and> j < i + k \<and> p j \<Longrightarrow> \<exists>r. first_bit p i k = Some r \<and> i \<le> r \<and> r < i + k \<and> p r \<and> (\<forall>j. i \<le> j \<and> j < r \<longrightarrow> \<not> p j)"
proof (induction k arbitrary: i)
  case (Suc k)
  show ?case
  proof (cases "p i")
    case False
    then have "\<exists>j. Suc i \<le> j \<and> j < Suc i + k \<and> p j" using Suc.prems by (metis Suc_leI add_Suc_shift le_neq_implies_less)
    then obtain r where "first_bit p (Suc i) k = Some r" "Suc i \<le> r" "r < Suc i + k" "p r" "\<forall>j. Suc i \<le> j \<and> j < r \<longrightarrow> \<not> p j"
      using Suc.IH by blast
    moreover then have "\<forall>j. i \<le> j \<and> j < r \<longrightarrow> \<not> p j" using False by (metis Suc_leI le_neq_implies_less)
    ultimately show ?thesis using False by auto
  qed auto
qed auto

text \<open>\<open>pv\<close> says which bits of the word count; the byte loop finds the first one from byte \<open>k\<close> on.\<close>

lemma first_byte_least:
  assumes p: "\<And>k i. k < 4 \<Longrightarrow> i < 8 \<Longrightarrow> p (byte_of k v) i \<longleftrightarrow> pv (8 * k + i)"
    and f: "\<And>k. k < 4 \<Longrightarrow> found (byte_of k v) \<longleftrightarrow> (\<exists>i<8. pv (8 * k + i))"
  shows "k + n = 4 \<Longrightarrow> (\<forall>b < 8 * k. \<not> pv b) \<Longrightarrow>
    first_byte found p v word_pos k n =
      Some (if \<exists>b<32. pv b then word_pos * 32 + (LEAST b. pv b) else MY_BIT_NONE)"
proof (induction n arbitrary: k)
  case 0
  then show ?case by auto
next
  case (Suc n)
  have k: "k < 4" using Suc.prems(1) by simp
  show ?case
  proof (cases "\<exists>i<8. pv (8 * k + i)")
    case False
    then have "\<not> pv b" if "b < 8 * Suc k" for b
      using that Suc.prems(2) by (cases "b < 8 * k") (auto dest: spec [of _ "b - 8 * k"])
    moreover have "\<not> found (byte_of k v)" using False f [OF k] by simp
    ultimately show ?thesis using Suc.IH [of "Suc k"] Suc.prems(1) by (simp add: Let_def)
  next
    case True
    then obtain r where r: "first_bit (p (byte_of k v)) 0 8 = Some r" "r < 8" "pv (8 * k + r)" "\<forall>j<r. \<not> pv (8 * k + j)"
    proof -
      have "\<exists>j. 0 \<le> j \<and> j < 0 + 8 \<and> p (byte_of k v) j" using True p [OF k] by auto
      then obtain r where "first_bit (p (byte_of k v)) 0 8 = Some r" "r < 8" "p (byte_of k v) r" "\<forall>j<r. \<not> p (byte_of k v) j"
        using first_bit_least [of 0 8 "p (byte_of k v)"] by auto
      then show ?thesis using that [of r] p [OF k] by auto
    qed
    have "(LEAST b. pv b) = 8 * k + r"
    proof (rule Least_equality)
      fix b assume b: "pv b"
      show "8 * k + r \<le> b"
      proof (rule ccontr)
        assume "\<not> 8 * k + r \<le> b"
        moreover have "8 * k \<le> b" using b Suc.prems(2) by (meson not_less)
        ultimately have "b - 8 * k < r" "8 * k + (b - 8 * k) = b" by auto
        then show False using r(4) b by metis
      qed
    qed (rule r(3))
    moreover have "8 * k + r < 32" using r(2) k by simp
    ultimately show ?thesis using r True f [OF k] by (auto simp: Let_def)
  qed
qed

lemma get_first_set_least:
  "get_first_set v word_pos = Some (if v \<noteq> 0 then word_pos * 32 + (LEAST b. bit v b) else MY_BIT_NONE)"
proof -
  have t: "i < 8 \<Longrightarrow> (byte_of k v AND push_bit i 1 \<noteq> 0) \<longleftrightarrow> bit v (8 * k + i)" for k i
    using bit_mask_test [of i "byte_of k v"] by (simp only: bit_byte_of) simp
  have n: "byte_of k v \<noteq> 0 \<longleftrightarrow> (\<exists>i<8. bit v (8 * k + i))" for k
    unfolding all_zeros bit_byte_of by (meson less_trans numeral_less_iff semiring_norm(76,78,79,80))
  show ?thesis
    using first_byte_least [of "\<lambda>b i. b AND push_bit i 1 \<noteq> 0" v "bit v" "\<lambda>b. b \<noteq> 0" 0 4 word_pos] t n all_zeros [of v]
    by (simp add: get_first_set_def)
qed

lemma get_first_not_set_least:
  "get_first_not_set v word_pos = Some (if v \<noteq> 0xFFFFFFFF then word_pos * 32 + (LEAST b. \<not> bit v b) else MY_BIT_NONE)"
proof -
  have t: "i < 8 \<Longrightarrow> (byte_of k v AND push_bit i 1 = 0) \<longleftrightarrow> \<not> bit v (8 * k + i)" for k i
    using bit_mask_test [of i "byte_of k v"] by (simp only: bit_byte_of) simp
  have n: "byte_of k v \<noteq> 255 \<longleftrightarrow> (\<exists>i<8. \<not> bit v (8 * k + i))" for k
  proof -
    have e: "(bit (byte_of k v) b \<longleftrightarrow> bit (255 :: 32 word) b) \<longleftrightarrow> (b < 8 \<longrightarrow> bit v (8 * k + b))" for b
      unfolding bit_byte_of bit_255 by (cases "b < 8") simp_all
    have "byte_of k v = 255 \<longleftrightarrow> (\<forall>b. bit (byte_of k v) b \<longleftrightarrow> bit (255 :: 32 word) b)"
    proof
      assume "\<forall>b. bit (byte_of k v) b \<longleftrightarrow> bit (255 :: 32 word) b"
      then show "byte_of k v = 255" by (intro bit_word_eqI) blast
    qed (simp only: simp_thms)
    then show ?thesis unfolding e by blast
  qed
  have a: "v \<noteq> 0xFFFFFFFF \<longleftrightarrow> (\<exists>b<32. \<not> bit v b)" unfolding all_ones by blast
  show ?thesis unfolding a
    using first_byte_least [of "\<lambda>b i. b AND push_bit i 1 = 0" v "\<lambda>b. \<not> bit v b" "\<lambda>b. b \<noteq> 255" 0 4 word_pos] t n
    by (simp add: get_first_not_set_def)
qed

lemma find_word_first:
  "i + n \<le> length ws \<Longrightarrow>
   (find_word p ws i n = Some None \<and> (\<forall>j. i \<le> j \<and> j < i + n \<longrightarrow> \<not> p (ws ! j))) \<or>
   (\<exists>j. i \<le> j \<and> j < i + n \<and> find_word p ws i n = Some (Some (j, ws ! j)) \<and> p (ws ! j) \<and> (\<forall>k. i \<le> k \<and> k < j \<longrightarrow> \<not> p (ws ! k)))"
proof (induction n arbitrary: i)
  case (Suc n)
  show ?case
  proof (cases "p (ws ! i)")
    case False
    have step: "find_word p ws i (Suc n) = find_word p ws (Suc i) n" using False Suc.prems by (simp add: get_def)
    have up: "i \<le> k \<Longrightarrow> k = i \<or> Suc i \<le> k" for k by linarith
    from Suc.IH [of "Suc i"] Suc.prems show ?thesis unfolding step using False up by (metis Suc_leD add_Suc_right add_Suc)
  next
    case True
    then show ?thesis using Suc.prems by (intro disjI2 exI [of _ i]) (auto simp: get_def)
  qed
qed auto

lemma least_in_word:
  fixes S :: "nat set"
  assumes before: "\<And>i. i \<in> S \<Longrightarrow> j \<le> i div 32" and q: "\<And>b. b < 32 \<Longrightarrow> q b \<longleftrightarrow> 32 * j + b \<in> S" and ex: "\<exists>b<32. q b"
  shows "(LEAST i. i \<in> S) = j * 32 + (LEAST b. q b)" and "S \<noteq> {}"
proof -
  define r where "r = (LEAST b. q b)"
  obtain b where b: "b < 32" "q b" using ex by blast
  have r: "q r" "\<And>c. q c \<Longrightarrow> r \<le> c" unfolding r_def using b(2) by (auto intro: LeastI Least_le)
  have "r < 32" using r(2) [OF b(2)] b(1) by simp
  have "(LEAST i. i \<in> S) = j * 32 + r"
  proof (rule Least_equality)
    show "j * 32 + r \<in> S" using q [OF \<open>r < 32\<close>] r(1) by (simp add: mult.commute)
    fix i assume i: "i \<in> S"
    have e: "i = 32 * (i div 32) + i mod 32" "i mod 32 < 32" by simp_all
    show "j * 32 + r \<le> i"
    proof (cases "i div 32 = j")
      case True
      then have "q (i mod 32)" using q [OF e(2)] i e(1) by simp
      then show ?thesis using r(2) e(1) True by (metis add_left_mono mult.commute)
    next
      case False
      then have "j + 1 \<le> i div 32" using before [OF i] by simp
      then show ?thesis using e(1) \<open>r < 32\<close> by linarith
    qed
  qed
  then show "(LEAST i. i \<in> S) = j * 32 + (LEAST b. q b)" by (simp add: r_def)
  show "S \<noteq> {}" using q [OF b(1)] b(2) by blast
qed

text \<open>The shape of the two searches: the words before the last one are tested as they are, the last
  one after the unused bits have been cleared or set by \<open>fix\<close>.\<close>

lemma search_least:
  assumes m: "bitmap_ok m" and S: "\<And>i. i \<in> S \<Longrightarrow> i div 32 \<le> m_last_word_ptr m"
    and q: "\<And>j b. j < m_last_word_ptr m \<Longrightarrow> b < 32 \<Longrightarrow> q (m_bitmap m ! j) b \<longleftrightarrow> 32 * j + b \<in> S"
    and ql: "\<And>b. b < 32 \<Longrightarrow> q (fix (m_bitmap m ! m_last_word_ptr m)) b \<longleftrightarrow> 32 * m_last_word_ptr m + b \<in> S"
    and p: "\<And>w. p w \<longleftrightarrow> (\<exists>b<32. q w b)"
    and g: "\<And>w pos. g w pos = Some (if p w then pos * 32 + (LEAST b. q w b) else MY_BIT_NONE)"
  shows "do { r \<leftarrow> find_word p (m_bitmap m) 0 (m_last_word_ptr m);
           case r of Some (pos, w) \<Rightarrow> g w pos
           | None \<Rightarrow> do { w \<leftarrow> get (m_bitmap m) (m_last_word_ptr m); g (fix w) (m_last_word_ptr m) } } =
    Some (if S = {} then MY_BIT_NONE else LEAST i. i \<in> S)"
proof -
  let ?l = "m_last_word_ptr m"
  have len: "0 + ?l \<le> length (m_bitmap m)" using m by (simp add: bitmap_ok_def)
  have none: "32 * j + b \<notin> S" if "j < ?l" "\<not> p (m_bitmap m ! j)" "b < 32" for j b using q p that by blast
  have word: "i \<in> S \<Longrightarrow> p (m_bitmap m ! (i div 32)) \<or> i div 32 = ?l" for i
    using none [of "i div 32" "i mod 32"] S [of i] by force
  consider "find_word p (m_bitmap m) 0 ?l = Some None" "\<forall>j<?l. \<not> p (m_bitmap m ! j)"
    | j where "j < ?l" "find_word p (m_bitmap m) 0 ?l = Some (Some (j, m_bitmap m ! j))" "p (m_bitmap m ! j)" "\<forall>k<j. \<not> p (m_bitmap m ! k)"
    using find_word_first [OF len, of p] by auto
  then show ?thesis
  proof cases
    case 1
    have last: "i div 32 = ?l" if "i \<in> S" for i using word [OF that] S [OF that] 1(2) by (metis le_neq_implies_less)
    show ?thesis
    proof (cases "p (fix (m_bitmap m ! ?l))")
      case True
      then show ?thesis
        using least_in_word [of S ?l "q (fix (m_bitmap m ! ?l))"] last ql p 1(1) last_in_buffer [OF m] g by simp
    next
      case False
      have "S = {}"
      proof (rule ccontr)
        assume "S \<noteq> {}"
        then obtain i where "i \<in> S" by blast
        then have "q (fix (m_bitmap m ! ?l)) (i mod 32)" using ql [of "i mod 32"] last [of i] mult_div_mod_eq [of 32 i] by simp
        then show False using False p mod_less_divisor [of 32 i] by (meson zero_less_numeral)
      qed
      then show ?thesis using 1(1) last_in_buffer [OF m] g False by simp
    qed
  next
    case (2 j)
    have "j \<le> i div 32" if "i \<in> S" for i
    proof (rule ccontr)
      assume "\<not> j \<le> i div 32"
      then have "i div 32 < j" by simp
      then show False using word [OF that] 2(1,4) by auto
    qed
    then show ?thesis using least_in_word [of S j "q (m_bitmap m ! j)"] q [OF 2(1)] p 2(2,3) g by simp
  qed
qed

lemma bitmap_get_first_set_least:
  assumes "bitmap_ok m"
  shows "bitmap_get_first_set m = Some (if bits_of m = {} then MY_BIT_NONE else LEAST i. i \<in> bits_of m)"
  unfolding bitmap_get_first_set_def
proof (rule search_least [OF assms, where q = bit])
  show "(w \<noteq> 0) \<longleftrightarrow> (\<exists>b<32. bit w b)" for w :: "32 word" by (auto simp: all_zeros)
  show "bit (m_bitmap m ! j) b \<longleftrightarrow> 32 * j + b \<in> bits_of m" if "j < m_last_word_ptr m" "b < 32" for j b
    using bit_used_word [OF assms, of j b] that by (simp add: used_word_def)
  show "bit (m_bitmap m ! m_last_word_ptr m AND NOT (m_last_word_mask m)) b \<longleftrightarrow> 32 * m_last_word_ptr m + b \<in> bits_of m" if "b < 32" for b
    using bit_used_word [OF assms, of "m_last_word_ptr m" b] that by (simp add: used_word_def)
qed (simp_all add: bits_of_range [OF assms] get_first_set_least)

lemma bitmap_get_first_least:
  assumes "bitmap_ok m"
  shows "bitmap_get_first m = Some (if bits_of m = {..<m_n_bits m} then MY_BIT_NONE else LEAST i. i < m_n_bits m \<and> i \<notin> bits_of m)"
proof -
  have e: "{..<m_n_bits m} - bits_of m = {} \<longleftrightarrow> bits_of m = {..<m_n_bits m}" by (auto simp: bits_of_def)
  have "bitmap_get_first m = Some (if {..<m_n_bits m} - bits_of m = {} then MY_BIT_NONE else LEAST i. i \<in> {..<m_n_bits m} - bits_of m)"
    unfolding bitmap_get_first_def
  proof (rule search_least [OF assms, where q = "\<lambda>w b. \<not> bit w b"])
    show "(w \<noteq> 0xFFFFFFFF) \<longleftrightarrow> (\<exists>b<32. \<not> bit w b)" for w :: "32 word" unfolding all_ones by blast
    show "\<not> bit (m_bitmap m ! j) b \<longleftrightarrow> 32 * j + b \<in> {..<m_n_bits m} - bits_of m" if "j < m_last_word_ptr m" "b < 32" for j b
      using bit_used_word [OF assms, of j b] inner_word [OF assms that] that by (simp add: used_word_def)
    show "\<not> bit (m_bitmap m ! m_last_word_ptr m OR m_last_word_mask m) b \<longleftrightarrow> 32 * m_last_word_ptr m + b \<in> {..<m_n_bits m} - bits_of m"
      if "b < 32" for b
      using or_mask_last [OF assms that] bits_of_word [OF assms that, of "m_last_word_ptr m"] by auto
  qed (auto simp: in_words [OF assms] get_first_not_set_least)
  then show ?thesis unfolding e by simp
qed

section \<open>Prefixes\<close>

lemma low_mask: "(push_bit k 1 - 1 :: 32 word) = mask k"
  by (simp add: mask_eq_exp_minus_1)

lemma bytes_in_buffer: "bitmap_ok m \<Longrightarrow> no_bytes_in_map m \<le> 4 * length (m_bitmap m)"
  using bitmap_ok_words(2) [of m] div_32 [of "m_n_bits m - 1"] by (simp add: bitmap_ok_def) linarith

lemma prefix_bytes:
  assumes "bitmap_ok m" "p \<le> m_n_bits m"
  shows "p div 8 \<le> no_bytes_in_map m" and "p mod 8 \<noteq> 0 \<Longrightarrow> p div 8 < no_bytes_in_map m"
proof -
  have "(p - 1) div 8 \<le> (m_n_bits m - 1) div 8" using assms(2) by (intro div_le_mono) simp
  then show "p div 8 \<le> no_bytes_in_map m" "p mod 8 \<noteq> 0 \<Longrightarrow> p div 8 < no_bytes_in_map m"
    unfolding bitmap_ok_words(2) [OF assms(1)]
    using div_mod_decomp [of p 8] div_mod_decomp [of "p - 1" 8] mod_less_divisor [of 8 p] mod_less_divisor [of 8 "p - 1"] by linarith+
qed

lemma used_byte:
  assumes "bitmap_ok m" "i < m_n_bits m"
  shows "i div 8 < no_bytes_in_map m"
proof -
  have "i div 8 \<le> (m_n_bits m - 1) div 8" using assms(2) by (intro div_le_mono) simp
  then show ?thesis by (simp add: bitmap_ok_words(2) [OF assms(1)])
qed

text \<open>The bytes before the prefix ends, and the rest of a prefix that ends at a byte.\<close>

lemma prefix_fill:
  assumes "bitmap_ok m" "p \<le> m_n_bits m"
  shows "\<exists>ws. memset_bytes (m_bitmap m) 0 255 (p div 8) = Some ws \<and> length ws = length (m_bitmap m) \<and>
    (\<forall>i < m_n_bits m. i div 8 < p div 8 \<longrightarrow> wbit ws i)"
proof -
  have f: "bit (255 :: 32 word) (i mod 8)" for i unfolding bit_255 by simp
  show ?thesis
    using memset_bytes_bits [of 0 "p div 8" "m_bitmap m" 255] prefix_bytes(1) [OF assms] bytes_in_buffer [OF assms(1)]
      in_buffer [OF assms(1)] f by (auto simp del: bit_numeral_simps)
qed

lemma less_by_bytes: "i < p \<longleftrightarrow> i div 8 < p div 8 \<or> i div 8 = p div 8 \<and> i mod 8 < p mod (8 :: nat)"
  using div_mod_decomp [of p 8] div_mod_decomp [of i 8] mod_less_divisor [of 8 i] mod_less_divisor [of 8 p] by linarith

lemma set_prefix_aligned:
  assumes "bitmap_ok m" "p = min k (m_n_bits m)" "p mod 8 = 0"
  shows "\<exists>m'. bitmap_set_prefix k m = Some m' \<and> bitmap_ok m' \<and> m_n_bits m' = m_n_bits m \<and> bits_of m' = {..<p}"
proof -
  have p: "p \<le> m_n_bits m" using assms(2) by simp
  obtain ws1 where 1: "memset_bytes (m_bitmap m) 0 255 (p div 8) = Some ws1" "length ws1 = length (m_bitmap m)"
      "\<forall>i < m_n_bits m. i div 8 < p div 8 \<longrightarrow> wbit ws1 i"
    using prefix_fill [OF assms(1) p] by blast
  obtain ws2 where 2: "memset_bytes ws1 (p div 8) 0 (no_bytes_in_map m - p div 8) = Some ws2" "length ws2 = length (m_bitmap m)"
      "\<forall>i < 32 * length (m_bitmap m). wbit ws2 i \<longleftrightarrow>
        (if p div 8 \<le> i div 8 \<and> i div 8 < no_bytes_in_map m then bit (0 :: 32 word) (i mod 8) else wbit ws1 i)"
    using memset_bytes_bits [of "p div 8" "no_bytes_in_map m - p div 8" ws1 0] prefix_bytes(1) [OF assms(1) p]
      bytes_in_buffer [OF assms(1)] 1(2) by auto
  have "wbit ws2 i \<longleftrightarrow> i < p" if "i < m_n_bits m" for i
    using 1(3) 2(3) in_buffer [OF assms(1) that] used_byte [OF assms(1) that] assms(3) that by (auto simp: less_by_bytes [of i p])
  then have "{i. i < m_n_bits m \<and> wbit ws2 i} = {..<p}" using p by auto
  moreover have "bitmap_set_prefix k m = Some (m\<lparr>m_bitmap := ws2\<rparr>)"
    using 1(1) 2(1) assms(3) by (simp add: bitmap_set_prefix_def Let_def assms(2) [symmetric])
  ultimately show ?thesis using ok_update [OF assms(1) 2(2)] by simp
qed

text \<open>A prefix that ends inside a byte clears one byte more than the bitmap has.\<close>

lemma set_prefix_unaligned:
  assumes "bitmap_ok m" "p = min k (m_n_bits m)" "p mod 8 \<noteq> 0"
  shows "\<exists>ws. bitmap_set_prefix k m = map_option (\<lambda>ws. m\<lparr>m_bitmap := ws\<rparr>)
      (memset_bytes ws (Suc (p div 8)) 0 (no_bytes_in_map m - p div 8)) \<and> length ws = length (m_bitmap m) \<and>
    (\<forall>i < m_n_bits m. i div 8 \<le> p div 8 \<longrightarrow> wbit ws i = (i < p))"
proof -
  have p: "p \<le> m_n_bits m" using assms(2) by simp
  obtain ws1 where 1: "memset_bytes (m_bitmap m) 0 255 (p div 8) = Some ws1" "length ws1 = length (m_bitmap m)"
      "\<forall>i < m_n_bits m. i div 8 < p div 8 \<longrightarrow> wbit ws1 i"
    using prefix_fill [OF assms(1) p] by blast
  obtain ws2 where 2: "put_byte ws1 (p div 8) (mask (p mod 8)) = Some ws2" "length ws2 = length (m_bitmap m)"
      "\<forall>i < 32 * length (m_bitmap m). wbit ws2 i \<longleftrightarrow> (if i div 8 = p div 8 then bit (mask (p mod 8) :: 32 word) (i mod 8) else wbit ws1 i)"
    using put_byte_bits [of "p div 8" ws1 "mask (p mod 8)"] prefix_bytes(2) [OF assms(1) p assms(3)]
      bytes_in_buffer [OF assms(1)] 1(2) by auto
  have "wbit ws2 i = (i < p)" if "i < m_n_bits m" "i div 8 \<le> p div 8" for i
  proof -
    have "bit (mask (p mod 8) :: 32 word) (i mod 8) \<longleftrightarrow> i mod 8 < p mod 8"
      using less_trans [OF mod_less_divisor [of 8 i], of 32] by (simp only: bit_mask_iff) simp
    then show ?thesis using 1(3) 2(3) in_buffer [OF assms(1) that(1)] that by (auto simp: less_by_bytes [of i p])
  qed
  moreover have "bitmap_set_prefix k m = map_option (\<lambda>ws. m\<lparr>m_bitmap := ws\<rparr>)
      (memset_bytes ws2 (Suc (p div 8)) 0 (no_bytes_in_map m - p div 8))"
    using 1(1) 2(1) assms(3)
    by (simp add: bitmap_set_prefix_def Let_def assms(2) [symmetric] low_mask [simplified] map_option_case split: option.split)
  ultimately show ?thesis using 2(2) by blast
qed

text \<open>C24: \<open>bitmap_set_prefix\<close> sets exactly the bits below the prefix size, except that for a prefix that
  ends inside a byte of a bitmap whose bytes fill its last word it writes one byte after the
  end of the buffer.\<close>

theorem bitmap_set_prefix_spec:
  assumes "bitmap_ok m"
  shows "if min k (m_n_bits m) mod 8 \<noteq> 0 \<and> no_bytes_in_map m = 4 * no_words_in_map m then bitmap_set_prefix k m = None
    else \<exists>m'. bitmap_set_prefix k m = Some m' \<and> bitmap_ok m' \<and> m_n_bits m' = m_n_bits m \<and> bits_of m' = {..<min k (m_n_bits m)}"
proof -
  define p where "p = min k (m_n_bits m)"
  have l: "4 * no_words_in_map m = 4 * length (m_bitmap m)" using bitmap_ok_words(1) [OF assms] assms by (simp add: bitmap_ok_def)
  show ?thesis
  proof (cases "p mod 8 = 0")
    case True
    then show ?thesis using set_prefix_aligned [OF assms p_def] by (simp add: p_def)
  next
    case False
    obtain ws where ws: "bitmap_set_prefix k m = map_option (\<lambda>ws. m\<lparr>m_bitmap := ws\<rparr>)
        (memset_bytes ws (Suc (p div 8)) 0 (no_bytes_in_map m - p div 8))" "length ws = length (m_bitmap m)"
        "\<forall>i < m_n_bits m. i div 8 \<le> p div 8 \<longrightarrow> wbit ws i = (i < p)"
      using set_prefix_unaligned [OF assms p_def False] by blast
    have b: "p div 8 < no_bytes_in_map m" "no_bytes_in_map m \<le> 4 * length (m_bitmap m)"
      using prefix_bytes(2) [OF assms _ False] bytes_in_buffer [OF assms] by (simp_all add: p_def)
    show ?thesis
    proof (cases "no_bytes_in_map m = 4 * length (m_bitmap m)")
      case True
      then have "memset_bytes ws (Suc (p div 8)) 0 (no_bytes_in_map m - p div 8) = None"
        using b ws(2) by (intro memset_bytes_outside) auto
      then show ?thesis using True False ws(1) l by (simp add: p_def)
    next
      case nf: False
      then obtain ws' where 3: "memset_bytes ws (Suc (p div 8)) 0 (no_bytes_in_map m - p div 8) = Some ws'" "length ws' = length (m_bitmap m)"
          "\<forall>i < 32 * length (m_bitmap m). wbit ws' i \<longleftrightarrow> (if Suc (p div 8) \<le> i div 8 \<and> i div 8 < Suc (no_bytes_in_map m)
             then bit (0 :: 32 word) (i mod 8) else wbit ws i)"
        using memset_bytes_bits [of "Suc (p div 8)" "no_bytes_in_map m - p div 8" ws 0] b ws(2) by auto
      have "wbit ws' i \<longleftrightarrow> i < p" if "i < m_n_bits m" for i
        using ws(3) 3(3) in_buffer [OF assms that] used_byte [OF assms that] that by (auto simp: less_by_bytes [of i p])
      then have "{i. i < m_n_bits m \<and> wbit ws' i} = {..<p}" by (auto simp: p_def)
      then show ?thesis using nf l ws(1) 3(1) ok_update [OF assms 3(2)] by (simp add: p_def)
    qed
  qed
qed

text \<open>The bits of word \<open>j\<close> are as in the prefix of size \<open>k\<close>.\<close>

definition prefix_word :: "nat \<Rightarrow> MY_BITMAP \<Rightarrow> nat \<Rightarrow> bool" where
  "prefix_word k m j \<longleftrightarrow> (\<forall>b<32. 32 * j + b \<in> bits_of m \<longleftrightarrow> 32 * j + b < k)"

lemma prefix_iff_words:
  assumes "bitmap_ok m" "k \<le> m_n_bits m"
  shows "bits_of m = {..<k} \<longleftrightarrow> (\<forall>j \<le> m_last_word_ptr m. prefix_word k m j)"
proof -
  have "(\<forall>j \<le> m_last_word_ptr m. prefix_word k m j) \<longleftrightarrow> (\<forall>i. i div 32 \<le> m_last_word_ptr m \<longrightarrow> (i \<in> bits_of m \<longleftrightarrow> i < k))"
    using range_all [of "m_last_word_ptr m" "\<lambda>i. i \<in> bits_of m \<longleftrightarrow> i < k"] unfolding prefix_word_def
    by (metis atLeastLessThan_iff le0 le_eq_less_or_eq)
  also have "\<dots> \<longleftrightarrow> bits_of m = {..<k}"
  proof -
    have "i < k \<Longrightarrow> i div 32 \<le> m_last_word_ptr m" for i using in_words [OF assms(1), of i] assms(2) by simp
    then show ?thesis using bits_of_range [OF assms(1)] by blast
  qed
  finally show ?thesis ..
qed

lemma prefix_word_full:
  assumes "bitmap_ok m" "k \<le> m_n_bits m" "j < k div 32"
  shows "prefix_word k m j \<longleftrightarrow> m_bitmap m ! j = 0xFFFFFFFF"
proof -
  have "32 * j + b < k" if "b < 32" for b using assms(3) that div_mod_decomp [of k 32] by linarith
  then have "b < 32 \<Longrightarrow> (32 * j + b \<in> bits_of m \<longleftrightarrow> 32 * j + b < k) \<longleftrightarrow> bit (m_bitmap m ! j) b" for b
    using bits_of_word [OF assms(1), of b j] assms(2) by (metis order.strict_trans2)
  then show ?thesis unfolding prefix_word_def all_ones by blast
qed

lemma prefix_word_zero:
  assumes "bitmap_ok m" "j \<le> m_last_word_ptr m" "k \<le> 32 * j"
  shows "prefix_word k m j \<longleftrightarrow> used_word m j = 0"
  using assms(3) bit_used_word [OF assms(1,2)] unfolding prefix_word_def all_zeros by auto

lemma prefix_word_part:
  assumes "bitmap_ok m" "k div 32 \<le> m_last_word_ptr m"
  shows "prefix_word k m (k div 32) \<longleftrightarrow> used_word m (k div 32) = push_bit (k mod 32) 1 - 1"
proof -
  have "32 * (k div 32) + b < k \<longleftrightarrow> b < k mod 32" for b using div_mod_decomp [of k 32] by linarith
  then have "prefix_word k m (k div 32) \<longleftrightarrow> (\<forall>b<32. bit (used_word m (k div 32)) b \<longleftrightarrow> bit (mask (k mod 32) :: 32 word) b)"
    unfolding prefix_word_def using bit_used_word [OF assms] by (simp add: bit_mask_iff)
  also have "\<dots> \<longleftrightarrow> used_word m (k div 32) = mask (k mod 32)"
    by (auto intro: bit_word_eqI)
  finally show ?thesis unfolding low_mask .
qed

lemma zero_words:
  assumes "bitmap_ok m" "k \<le> 32 * i"
  shows "do { z \<leftarrow> all_words (\<lambda>i. map_option (\<lambda>w. w = 0) (get (m_bitmap m) i)) i (m_last_word_ptr m - i);
      Some (z \<and> (max i (m_last_word_ptr m) > m_last_word_ptr m \<or> m_bitmap m ! m_last_word_ptr m AND NOT (m_last_word_mask m) = 0)) } =
    Some (\<forall>j. i \<le> j \<and> j \<le> m_last_word_ptr m \<longrightarrow> prefix_word k m j)"
proof -
  let ?l = "m_last_word_ptr m"
  have "all_words (\<lambda>i. map_option (\<lambda>w. w = 0) (get (m_bitmap m) i)) i (?l - i) = Some (\<forall>j\<in>{i..<i + (?l - i)}. m_bitmap m ! j = 0)"
    using last_in_buffer [OF assms(1)] by (intro all_words_eq) simp
  moreover have "(\<forall>j\<in>{i..<i + (?l - i)}. m_bitmap m ! j = 0) \<longleftrightarrow> (\<forall>j. i \<le> j \<and> j < ?l \<longrightarrow> prefix_word k m j)"
  proof -
    have "prefix_word k m j \<longleftrightarrow> m_bitmap m ! j = 0" if "i \<le> j" "j < ?l" for j
      using prefix_word_zero [OF assms(1), of j k] assms(2) that by (simp add: used_word_def)
    then show ?thesis by auto
  qed
  moreover have "(max i ?l > ?l \<or> m_bitmap m ! ?l AND NOT (m_last_word_mask m) = 0) \<longleftrightarrow> (i \<le> ?l \<longrightarrow> prefix_word k m ?l)"
    using prefix_word_zero [OF assms(1), of ?l k] assms(2) by (auto simp: used_word_def)
  moreover have "(\<forall>j. i \<le> j \<and> j \<le> ?l \<longrightarrow> prefix_word k m j) \<longleftrightarrow>
      (\<forall>j. i \<le> j \<and> j < ?l \<longrightarrow> prefix_word k m j) \<and> (i \<le> ?l \<longrightarrow> prefix_word k m ?l)"
    by (auto simp: le_less)
  ultimately show ?thesis by simp
qed

lemma bitmap_is_prefix_iff:
  assumes "bitmap_ok m" "k \<le> m_n_bits m"
  shows "bitmap_is_prefix k m = Some (bits_of m = {..<k})"
proof -
  let ?l = "m_last_word_ptr m" and ?e = "k div 32"
  have k: "k \<le> 32 * ?l + 32" using in_buffer [OF assms(1), of "m_n_bits m - 1"] assms by (simp add: bitmap_ok_def)
  have e: "?e \<le> Suc ?l" "k mod 32 \<noteq> 0 \<Longrightarrow> ?e \<le> ?l" using k div_mod_decomp [of k 32] by linarith+
  have buf: "get (m_bitmap m) j = Some (m_bitmap m ! j)" if "j < ?e" for j
    using that e(1) last_in_buffer [OF assms(1), of j] by simp
  have full: "all_words (\<lambda>i. map_option (\<lambda>w. w = 0xFFFFFFFF) (get (m_bitmap m) i)) 0 ?e = Some (\<forall>j<?e. prefix_word k m j)"
  proof -
    have "all_words (\<lambda>i. map_option (\<lambda>w. w = 0xFFFFFFFF) (get (m_bitmap m) i)) 0 ?e = Some (\<forall>j\<in>{0..<0 + ?e}. m_bitmap m ! j = 0xFFFFFFFF)"
      using buf by (intro all_words_eq) simp
    moreover have "(\<forall>j\<in>{0..<0 + ?e}. m_bitmap m ! j = 0xFFFFFFFF) \<longleftrightarrow> (\<forall>j<?e. prefix_word k m j)"
      using prefix_word_full [OF assms] by auto
    ultimately show ?thesis by simp
  qed
  have split: "(\<forall>j \<le> ?l. prefix_word k m j) \<longleftrightarrow> (\<forall>j<?e. prefix_word k m j) \<and> (\<forall>j. ?e \<le> j \<and> j \<le> ?l \<longrightarrow> prefix_word k m j)"
    if "\<forall>j<?e. j \<le> ?l" using that by (metis not_less)
  have le: "\<forall>j<?e. j \<le> ?l" using e(1) by auto
  have low: "used_word m ?l = m_bitmap m ! ?l AND NOT (m_last_word_mask m)" by (simp add: used_word_def)
  show ?thesis
  proof (cases "k mod 32 = 0")
    case True
    then have "k \<le> 32 * ?e" using div_mod_decomp [of k 32] by simp
    note z = zero_words [OF assms(1) this]
    show ?thesis
      unfolding prefix_iff_words [OF assms] split [OF le] bitmap_is_prefix_def Let_def
      using full True z last_in_buffer [OF assms(1)] by simp
  next
    case False
    have k32: "k \<le> 32 * Suc ?e" by presburger
    note z = zero_words [OF assms(1) k32] and pe = prefix_word_part [OF assms(1) e(2) [OF False]]
    have rest: "(\<forall>j. ?e \<le> j \<and> j \<le> ?l \<longrightarrow> prefix_word k m j) \<longleftrightarrow>
        prefix_word k m ?e \<and> (\<forall>j. Suc ?e \<le> j \<and> j \<le> ?l \<longrightarrow> prefix_word k m j)"
      using e(2) [OF False] by (metis Suc_leD Suc_leI le_neq_implies_less le_refl)
    show ?thesis
    proof (cases "?e = ?l")
      case True
      then show ?thesis
        unfolding prefix_iff_words [OF assms] split [OF le] rest bitmap_is_prefix_def Let_def
        using full False pe low last_in_buffer [OF assms(1)] by auto
    next
      case ne: False
      then have "?e < ?l" using e(2) [OF False] by simp
      then have "used_word m ?e = m_bitmap m ! ?e" by (simp add: used_word_def)
      then show ?thesis
        unfolding prefix_iff_words [OF assms] split [OF le] rest bitmap_is_prefix_def Let_def
        using full False pe ne z last_in_buffer [OF assms(1)] \<open>?e < ?l\<close> by auto
    qed
  qed
qed

section \<open>The contract\<close>

locale bit_sets =
  fixes ok :: "'m \<Rightarrow> bool" and size :: "'m \<Rightarrow> nat" and bits :: "'m \<Rightarrow> nat set"
    and union :: "'m \<Rightarrow> 'm \<Rightarrow> 'm option" and inter :: "'m \<Rightarrow> 'm \<Rightarrow> 'm option"
    and diff :: "'m \<Rightarrow> 'm \<Rightarrow> 'm option" and compl :: "'m \<Rightarrow> 'm option"
    and subset :: "'m \<Rightarrow> 'm \<Rightarrow> bool option" and same :: "'m \<Rightarrow> 'm \<Rightarrow> bool option"
  assumes bits_size: "bits m \<subseteq> {..<size m}"
    and union: "ok m \<Longrightarrow> ok m2 \<Longrightarrow> size m2 = size m \<Longrightarrow>
      \<exists>m'. union m m2 = Some m' \<and> ok m' \<and> size m' = size m \<and> bits m' = bits m \<union> bits m2"
    and inter: "ok m \<Longrightarrow> ok m2 \<Longrightarrow> \<exists>m'. inter m m2 = Some m' \<and> ok m' \<and> size m' = size m \<and> bits m' = bits m \<inter> bits m2"
    and diff: "ok m \<Longrightarrow> ok m2 \<Longrightarrow> size m2 = size m \<Longrightarrow>
      \<exists>m'. diff m m2 = Some m' \<and> ok m' \<and> size m' = size m \<and> bits m' = bits m - bits m2"
    and compl: "ok m \<Longrightarrow> \<exists>m'. compl m = Some m' \<and> ok m' \<and> size m' = size m \<and> bits m' = {..<size m} - bits m"
    and subset: "ok m \<Longrightarrow> ok m2 \<Longrightarrow> size m = size m2 \<Longrightarrow> subset m m2 = Some (bits m \<subseteq> bits m2)"
    and same: "ok m \<Longrightarrow> ok m2 \<Longrightarrow> size m = size m2 \<Longrightarrow> same m m2 = Some (bits m = bits m2)"
begin

lemma de_morgan:
  assumes "ok a" "ok b" "size a = size b"
  shows "do { u \<leftarrow> union a b; x \<leftarrow> compl u; c \<leftarrow> compl a; d \<leftarrow> compl b; y \<leftarrow> inter c d; same x y } = Some True"
proof -
  obtain u where u: "union a b = Some u" "ok u" "size u = size a" "bits u = bits a \<union> bits b" using union assms by metis
  obtain x where x: "compl u = Some x" "ok x" "size x = size a" "bits x = {..<size a} - (bits a \<union> bits b)" using compl u by metis
  obtain c where c: "compl a = Some c" "ok c" "size c = size a" "bits c = {..<size a} - bits a" using compl assms by metis
  obtain d where d: "compl b = Some d" "ok d" "size d = size a" "bits d = {..<size a} - bits b" using compl assms by metis
  obtain y where y: "inter c d = Some y" "ok y" "size y = size a" "bits y = bits c \<inter> bits d" using inter c d by metis
  have "bits x = bits y" unfolding x(4) y(4) c(4) d(4) by blast
  then show ?thesis using same [OF x(2) y(2)] u x c d y by simp
qed

lemma subset_diff:
  assumes "ok a" "ok b" "size a = size b" "ok e" "size e = size a" "bits e = {}"
  shows "subset a b = do { x \<leftarrow> diff a b; same x e }"
proof -
  obtain x where x: "diff a b = Some x" "ok x" "size x = size a" "bits x = bits a - bits b" using diff assms by metis
  have "bits a \<subseteq> bits b \<longleftrightarrow> bits x = bits e" using x(4) assms(6) by blast
  then show ?thesis using subset [OF assms(1-3)] same [OF x(2) assms(4)] x(1,3) assms(5) by simp
qed

end

interpretation bm: bit_sets bitmap_ok m_n_bits bits_of bitmap_union bitmap_intersect bitmap_subtract bitmap_invert
  bitmap_is_subset bitmap_cmp
proof
  show "bits_of m \<subseteq> {..<m_n_bits m}" for m by (auto simp: bits_of_def)
  fix m m2 assume ok: "bitmap_ok m" "bitmap_ok m2"
  show "\<exists>m'. bitmap_intersect m m2 = Some m' \<and> bitmap_ok m' \<and> m_n_bits m' = m_n_bits m \<and> bits_of m' = bits_of m \<inter> bits_of m2"
    by (rule bitmap_intersect_bits [OF ok])
  show "\<exists>m'. bitmap_union m m2 = Some m' \<and> bitmap_ok m' \<and> m_n_bits m' = m_n_bits m \<and> bits_of m' = bits_of m \<union> bits_of m2"
    if "m_n_bits m2 = m_n_bits m"
    using combine_bits [OF ok that, of "\<lambda>to from. to OR from" "(\<or>)"] that
    by (auto simp: bitmap_union_def bit_or_iff bits_of_def)
  show "\<exists>m'. bitmap_subtract m m2 = Some m' \<and> bitmap_ok m' \<and> m_n_bits m' = m_n_bits m \<and> bits_of m' = bits_of m - bits_of m2"
    if "m_n_bits m2 = m_n_bits m"
    using combine_bits [OF ok that, of "\<lambda>to from. to AND NOT from" "\<lambda>a b. a \<and> \<not> b"] that
    by (auto simp: bitmap_subtract_def bit_and_iff bit_not_iff bits_of_def)
qed (auto intro: bitmap_invert_bits bitmap_is_subset_iff bitmap_cmp_iff)

section \<open>Properties\<close>

text \<open>C6: the operations on two bitmaps of one size are union, intersection, difference, symmetric
  difference and assignment of the sets they stand for, and inversion is complement; the
  results are well-formed, and no loop leaves the buffers.\<close>

theorem bitmap_set_operations:
  assumes "bitmap_ok m" "bitmap_ok m2" "m_n_bits m2 = m_n_bits m"
  shows "\<forall>(f, g) \<in> {(bitmap_union m m2, bits_of m \<union> bits_of m2), (bitmap_intersect m m2, bits_of m \<inter> bits_of m2),
      (bitmap_subtract m m2, bits_of m - bits_of m2), (bitmap_xor m m2, (bits_of m - bits_of m2) \<union> (bits_of m2 - bits_of m)),
      (bitmap_copy m m2, bits_of m2), (bitmap_invert m, {..<m_n_bits m} - bits_of m)}.
    \<exists>m'. f = Some m' \<and> bitmap_ok m' \<and> m_n_bits m' = m_n_bits m \<and> bits_of m' = g"
proof -
  have "\<exists>m'. bitmap_xor m m2 = Some m' \<and> bitmap_ok m' \<and> m_n_bits m' = m_n_bits m \<and>
      bits_of m' = (bits_of m - bits_of m2) \<union> (bits_of m2 - bits_of m)"
    using combine_bits [OF assms, of "\<lambda>to from. to XOR from" "(\<noteq>)"] assms(3)
    by (auto simp: bitmap_xor_def bit_xor_iff bits_of_def)
  moreover have "\<exists>m'. bitmap_copy m m2 = Some m' \<and> bitmap_ok m' \<and> m_n_bits m' = m_n_bits m \<and> bits_of m' = bits_of m2"
    using combine_bits [OF assms, of "\<lambda>to from. from" "\<lambda>a b. b"] assms(3) by (auto simp: bitmap_copy_def bits_of_def)
  ultimately show ?thesis
    using bm.union [OF assms] bm.inter [OF assms(1,2)] bm.diff [OF assms] bm.compl [OF assms(1)] by simp
qed

text \<open>C7: the tests decide subset, overlap, equality, fullness and emptiness of the sets and whether a
  set is a prefix of the bit numbers, and the count is the cardinality.\<close>

theorem bitmap_test_operations:
  assumes "bitmap_ok m" "bitmap_ok m2" "m_n_bits m = m_n_bits m2" "k \<le> m_n_bits m"
  shows "bitmap_is_subset m m2 = Some (bits_of m \<subseteq> bits_of m2) \<and>
    bitmap_is_overlapping m m2 = Some (bits_of m \<inter> bits_of m2 \<noteq> {}) \<and>
    bitmap_cmp m m2 = Some (bits_of m = bits_of m2) \<and>
    bitmap_is_set_all m = Some (bits_of m = {..<m_n_bits m}) \<and>
    bitmap_is_clear_all m = Some (bits_of m = {}) \<and>
    bitmap_is_prefix k m = Some (bits_of m = {..<k}) \<and>
    bitmap_bits_set m = Some (card (bits_of m))"
  using assms by (simp add: bitmap_is_subset_iff bitmap_is_overlapping_iff bitmap_cmp_iff bitmap_is_set_all_iff
      bitmap_is_clear_all_iff bitmap_is_prefix_iff bitmap_bits_set_card)

text \<open>C34: the operations on one bit read, set, clear and flip that bit and no other; the test of
  \<open>bitmap_test_and_set\<close> and \<open>bitmap_test_and_clear\<close> is of the old value.\<close>

theorem bitmap_bit_operations:
  assumes "bitmap_ok m" "i < m_n_bits m"
  shows "bitmap_is_set i m = Some (i \<in> bits_of m) \<and>
    (\<exists>m'. bitmap_set_bit i m = Some m' \<and> bitmap_ok m' \<and> bits_of m' = insert i (bits_of m)) \<and>
    (\<exists>m'. bitmap_clear_bit i m = Some m' \<and> bitmap_ok m' \<and> bits_of m' = bits_of m - {i}) \<and>
    (\<exists>m'. bitmap_flip_bit i m = Some m' \<and> bitmap_ok m' \<and>
      bits_of m' = (if i \<in> bits_of m then bits_of m - {i} else insert i (bits_of m))) \<and>
    (\<exists>m'. bitmap_test_and_set i m = Some (i \<in> bits_of m, m') \<and> bitmap_ok m' \<and> bits_of m' = insert i (bits_of m)) \<and>
    (\<exists>m'. bitmap_test_and_clear i m = Some (i \<in> bits_of m, m') \<and> bitmap_ok m' \<and> bits_of m' = bits_of m - {i})"
  using bitmap_is_set_bits [OF assms] bitmap_set_bit_bits [OF assms] bitmap_clear_bit_bits [OF assms]
    bitmap_flip_bit_bits [OF assms] bitmap_test_and_set_bits [OF assms] bitmap_test_and_clear_bits [OF assms]
  by blast

text \<open>C23: the searches return the least bit that is set or not set, or \<open>MY_BIT_NONE\<close>, and
  \<open>bitmap_set_next\<close> allocates the least free bit or leaves a full bitmap alone.\<close>

theorem bitmap_search_least:
  assumes "bitmap_ok m"
  shows "bitmap_get_first_set m = Some (if bits_of m = {} then MY_BIT_NONE else LEAST i. i \<in> bits_of m) \<and>
    (if bits_of m = {..<m_n_bits m} then bitmap_set_next m = Some (MY_BIT_NONE, m)
     else \<exists>i m'. bitmap_set_next m = Some (i, m') \<and> i < m_n_bits m \<and> i \<notin> bits_of m \<and> {..<i} \<subseteq> bits_of m \<and>
       bitmap_ok m' \<and> bits_of m' = insert i (bits_of m))"
proof (cases "bits_of m = {..<m_n_bits m}")
  case True
  then show ?thesis
    using bitmap_get_first_set_least [OF assms] bitmap_get_first_least [OF assms] by (simp add: bitmap_set_next_def)
next
  case False
  define i where "i = (LEAST i. i < m_n_bits m \<and> i \<notin> bits_of m)"
  have "\<exists>i. i < m_n_bits m \<and> i \<notin> bits_of m" using False by (auto simp: bits_of_def)
  then have i: "i < m_n_bits m" "i \<notin> bits_of m" unfolding i_def by (metis (mono_tags, lifting) LeastI)+
  have less: "{..<i} \<subseteq> bits_of m" using not_less_Least [of _ "\<lambda>i. i < m_n_bits m \<and> i \<notin> bits_of m"] i(1)
    by (fastforce simp: i_def [symmetric])
  have "i \<noteq> MY_BIT_NONE" using i(1) assms by (auto simp: MY_BIT_NONE_def bitmap_ok_def)
  moreover have "bitmap_get_first m = Some i" using bitmap_get_first_least [OF assms] False by (simp add: i_def)
  ultimately show ?thesis
    using bitmap_get_first_set_least [OF assms] bitmap_set_bit_bits [OF assms i(1)] i less False
    by (auto simp: bitmap_set_next_def)
qed


text \<open>complementing a union agrees with intersecting the complements, by the code's own equality
  test: the composition of five operations runs to the end.\<close>

theorem bitmap_de_morgan:
  assumes "bitmap_ok a" "bitmap_ok b" "m_n_bits a = m_n_bits b"
  shows "do { u \<leftarrow> bitmap_union a b; x \<leftarrow> bitmap_invert u; c \<leftarrow> bitmap_invert a; d \<leftarrow> bitmap_invert b;
      y \<leftarrow> bitmap_intersect c d; bitmap_cmp x y } = Some True"
  by (rule bm.de_morgan [OF assms])

section \<open>Examples\<close>

definition sample_map :: "32 word \<Rightarrow> nat \<Rightarrow> MY_BITMAP" where
  "sample_map w n = create_last_word_mask
     \<lparr>m_bitmap = [w], m_n_bits = n, m_last_word_mask = 0, m_last_word_ptr = 0, m_mutex = False\<rparr>"

lemma sample_map_ok: "0 < n \<Longrightarrow> n \<le> 32 \<Longrightarrow> bitmap_ok (sample_map w n)"
proof -
  assume n: "0 < n" "n \<le> 32"
  then have "(n - 1 + 1 * 32) div 32 = 1" by simp
  moreover have "u32 (int n + 31) = n - 1 + 1 * 32" using n by (simp add: u32_id nat_add_distrib)
  ultimately have "length [w] = bitmap_buffer_size n div 4" by (simp add: bitmap_buffer_size_def)
  then show ?thesis
    using bitmap_init_buffer [of n "[w]" "\<lparr>m_bitmap = [w], m_n_bits = n, m_last_word_mask = 0, m_last_word_ptr = 0, m_mutex = False\<rparr>"] n
    by (simp add: sample_map_def)
qed

lemma sample_map_sel [simp]: "m_bitmap (sample_map w n) = [w]" "m_n_bits (sample_map w n) = n"
  by (simp_all add: sample_map_def create_last_word_mask_def Let_def)

lemma sample_bits: "n \<le> 32 \<Longrightarrow> bits_of (sample_map w n) = {i. i < n \<and> bit w i}"
  by (auto simp: bits_of_def wbit_def)

theorem bitmap_set_operations_witness:
  "\<exists>m'. bitmap_union (sample_map 5 8) (sample_map 6 8) = Some m' \<and> bitmap_ok m' \<and> {1, 2} \<subseteq> bits_of m'"
  using bitmap_set_operations [OF sample_map_ok [of 8 5] sample_map_ok [of 8 6]] by (auto simp: sample_bits)

theorem bitmap_test_operations_witness:
  "bitmap_is_subset (sample_map 4 8) (sample_map 6 8) = Some True \<and> bitmap_is_prefix 2 (sample_map 6 8) = Some False"
proof -
  have "{i. i < 8 \<and> bit (4 :: 32 word) i} \<subseteq> {i. i < 8 \<and> bit (6 :: 32 word) i}"
    by (auto simp: numeral_eq_Suc less_Suc_eq)
  moreover have "0 \<notin> {i. i < 8 \<and> bit (6 :: 32 word) i}" by simp
  then have "{i. i < 8 \<and> bit (6 :: 32 word) i} \<noteq> {..<2}" by (metis lessThan_iff zero_less_numeral)
  ultimately show ?thesis
    using bitmap_test_operations [OF sample_map_ok [of 8 4] sample_map_ok [of 8 6], of 0]
      bitmap_test_operations [OF sample_map_ok [of 8 6] sample_map_ok [of 8 6], of 2] by (simp add: sample_bits)
qed

theorem bitmap_bit_operations_witness: "bitmap_is_set 2 (sample_map 5 8) = Some True \<and> bitmap_is_set 1 (sample_map 5 8) = Some False"
  using bitmap_bit_operations [OF sample_map_ok [of 8 5], of 2] bitmap_bit_operations [OF sample_map_ok [of 8 5], of 1]
  by (simp add: sample_bits)

theorem bitmap_search_least_witness:
  "bitmap_get_first_set (sample_map 6 8) = Some 1 \<and> (\<exists>m'. bitmap_set_next (sample_map 6 8) = Some (0, m') \<and> 0 \<in> bits_of m')"
proof -
  define B where "B = {i. i < 8 \<and> bit (6 :: 32 word) i}"
  have b: "0 \<notin> B" "1 \<in> B" by (simp_all add: B_def)
  then have "(LEAST i. i \<in> B) = 1" by (intro Least_equality) (auto simp: Suc_le_eq intro: gr0I)
  moreover have "B \<noteq> {..<8}" "B \<noteq> {}" using b by auto
  ultimately have "bitmap_get_first_set (sample_map 6 8) = Some 1"
    and "\<exists>i m'. bitmap_set_next (sample_map 6 8) = Some (i, m') \<and> {..<i} \<subseteq> B \<and> bits_of m' = insert i B"
    using bitmap_search_least [OF sample_map_ok [of 8 6]] unfolding sample_bits [of 8 6, folded B_def, simplified] by auto
  moreover have "{..<i} \<subseteq> B \<Longrightarrow> i = 0" for i using b(1) by (cases i) auto
  ultimately show ?thesis by blast
qed

theorem bitmap_set_prefix_spec_witness:
  "bitmap_set_prefix 4 (sample_map 0 32) = None \<and> (\<exists>m'. bitmap_set_prefix 4 (sample_map 0 9) = Some m' \<and> bits_of m' = {..<4})"
  using bitmap_set_prefix_spec [OF sample_map_ok [of 32 0], of 4] bitmap_set_prefix_spec [OF sample_map_ok [of 9 0], of 4]
  by (auto simp: no_bytes_in_map_def no_words_in_map_def u32_def)


theorem bitmap_de_morgan_witness:
  "do { u \<leftarrow> bitmap_union (sample_map 5 8) (sample_map 6 8); x \<leftarrow> bitmap_invert u; c \<leftarrow> bitmap_invert (sample_map 5 8);
      d \<leftarrow> bitmap_invert (sample_map 6 8); y \<leftarrow> bitmap_intersect c d; bitmap_cmp x y } = Some True"
  by (rule bitmap_de_morgan) (simp_all add: sample_map_ok)

end
