(* ===== verification/NetPack.thy ===== *)
theory NetPack
  imports Prelude "HOL-Library.Word"
begin

text \<open>
  The length-encoded integers of the client/server protocol (\<open>sql-common/pack.c\<close>) over the
  byte-order macros of \<open>include/my_global.h\<close> (the generic, not the IA-32, variants).  A packet
  is an array of bytes, a pointer into it a position; \<open>None\<close> is an access outside the array.
  Storing a length and reading it back gives the length and the position behind it.
\<close>

type_synonym uchar = "8 word"

section \<open>Little-endian loads and stores\<close>

definition uint2korr :: "uchar list \<Rightarrow> nat \<Rightarrow> nat option" where
  "uint2korr A i = do {
     a0 \<leftarrow> get A i;
     a1 \<leftarrow> get A (i + 1);
     Some (unat a0 + push_bit 8 (unat a1))
   }"

definition uint3korr :: "uchar list \<Rightarrow> nat \<Rightarrow> nat option" where
  "uint3korr A i = do {
     a0 \<leftarrow> get A i;
     a1 \<leftarrow> get A (i + 1);
     a2 \<leftarrow> get A (i + 2);
     Some (unat a0 + push_bit 8 (unat a1) + push_bit 16 (unat a2))
   }"

definition uint4korr :: "uchar list \<Rightarrow> nat \<Rightarrow> nat option" where
  "uint4korr A i = do {
     a0 \<leftarrow> get A i;
     a1 \<leftarrow> get A (i + 1);
     a2 \<leftarrow> get A (i + 2);
     a3 \<leftarrow> get A (i + 3);
     Some (unat a0 + push_bit 8 (unat a1) + push_bit 16 (unat a2) + push_bit 24 (unat a3))
   }"

definition uint8korr :: "uchar list \<Rightarrow> nat \<Rightarrow> nat option" where
  "uint8korr A i = do {
     lo \<leftarrow> uint4korr A i;
     hi \<leftarrow> uint4korr A (i + 4);
     Some (lo + push_bit 32 hi)
   }"

definition int2store :: "uchar list \<Rightarrow> nat \<Rightarrow> nat \<Rightarrow> uchar list option" where
  "int2store T i A = (let def_temp = u32 (int A) in do {
     T \<leftarrow> put T i (of_nat def_temp);
     put T (i + 1) (of_nat (drop_bit 8 def_temp))
   })"

definition int3store :: "uchar list \<Rightarrow> nat \<Rightarrow> nat \<Rightarrow> uchar list option" where
  "int3store T i A = do {
     T \<leftarrow> put T i (of_nat A);
     T \<leftarrow> put T (i + 1) (of_nat (drop_bit 8 A));
     put T (i + 2) (of_nat (drop_bit 16 A))
   }"

definition int4store :: "uchar list \<Rightarrow> nat \<Rightarrow> nat \<Rightarrow> uchar list option" where
  "int4store T i A = do {
     T \<leftarrow> put T i (of_nat A);
     T \<leftarrow> put T (i + 1) (of_nat (drop_bit 8 A));
     T \<leftarrow> put T (i + 2) (of_nat (drop_bit 16 A));
     put T (i + 3) (of_nat (drop_bit 24 A))
   }"

definition int8store :: "uchar list \<Rightarrow> nat \<Rightarrow> nat \<Rightarrow> uchar list option" where
  "int8store T i A = (let def_temp = u32 (int A); def_temp2 = u32 (int (drop_bit 32 A)) in do {
     T \<leftarrow> int4store T i def_temp;
     int4store T (i + 4) def_temp2
   })"

section \<open>Length-encoded integers\<close>

text \<open>\<open>NULL_LENGTH\<close> is \<open>~0\<close> as an \<open>unsigned long\<close>.  The readers return the length and the
  position they leave in \<open>*packet\<close>.\<close>

definition NULL_LENGTH :: nat where
  "NULL_LENGTH = 2 ^ 64 - 1"

definition net_field_length :: "uchar list \<Rightarrow> nat \<Rightarrow> (nat \<times> nat) option" where
  "net_field_length packet pos = do {
     c \<leftarrow> get packet pos;
     if unat c < 251 then Some (unat c, pos + 1)
     else if unat c = 251 then Some (NULL_LENGTH, pos + 1)
     else if unat c = 252 then do { v \<leftarrow> uint2korr packet (pos + 1); Some (v, pos + 3) }
     else if unat c = 253 then do { v \<leftarrow> uint3korr packet (pos + 1); Some (v, pos + 4) }
     else do { v \<leftarrow> uint4korr packet (pos + 1); Some (v, pos + 9) }
   }"

definition net_field_length_ll :: "uchar list \<Rightarrow> nat \<Rightarrow> (nat \<times> nat) option" where
  "net_field_length_ll packet pos = do {
     c \<leftarrow> get packet pos;
     if unat c < 251 then Some (unat c, pos + 1)
     else if unat c = 251 then Some (NULL_LENGTH, pos + 1)
     else if unat c = 252 then do { v \<leftarrow> uint2korr packet (pos + 1); Some (v, pos + 3) }
     else if unat c = 253 then do { v \<leftarrow> uint3korr packet (pos + 1); Some (v, pos + 4) }
     else do { v \<leftarrow> uint8korr packet (pos + 1); Some (v, pos + 9) }
   }"

definition net_store_length :: "uchar list \<Rightarrow> nat \<Rightarrow> nat \<Rightarrow> (uchar list \<times> nat) option" where
  "net_store_length pkg packet len =
     (if len < 251 then do {
        pkg \<leftarrow> put pkg packet (of_nat len);
        Some (pkg, packet + 1)
      } else if len < 65536 then do {
        pkg \<leftarrow> put pkg packet 252;
        pkg \<leftarrow> int2store pkg (packet + 1) (u32 (int len));
        Some (pkg, packet + 1 + 2)
      } else if len < 16777216 then do {
        pkg \<leftarrow> put pkg packet 253;
        pkg \<leftarrow> int3store pkg (packet + 1) len;
        Some (pkg, packet + 1 + 3)
      } else do {
        pkg \<leftarrow> put pkg packet 254;
        pkg \<leftarrow> int8store pkg (packet + 1) len;
        Some (pkg, packet + 1 + 8)
      })"

section \<open>Stores and loads as blocks of bytes\<close>

text \<open>The little-endian bytes of a number, and what a store of them does to an array.\<close>

fun le_bytes :: "nat \<Rightarrow> nat \<Rightarrow> uchar list" where
  "le_bytes 0 A = []"
| "le_bytes (Suc k) A = of_nat A # le_bytes k (A div 256)"

lemma length_le_bytes [simp]: "length (le_bytes k A) = k"
  by (induction k arbitrary: A) auto

lemma le_bytes_append: "le_bytes (j + k) A = le_bytes j A @ le_bytes k (A div 256 ^ j)"
proof (induction j arbitrary: A)
  case (Suc j)
  then show ?case by (simp add: div_mult2_eq)
qed simp

lemma le_bytes_mod: "le_bytes k (A mod 256 ^ (k + j)) = le_bytes k A"
proof (induction k arbitrary: A)
  case (Suc k)
  have "(A mod 256 ^ (Suc k + j)) div 256 = (A div 256) mod 256 ^ (k + j)"
    by (simp add: mod_mult2_eq)
  moreover have "(of_nat (A mod 256 ^ (Suc k + j)) :: uchar) = of_nat A"
    by (simp add: word_of_nat_eq_iff take_bit_eq_mod mod_mod_cancel)
  ultimately show ?case using Suc.IH by simp
qed simp

lemma put_append: "put (xs @ ys) (length xs + n) z = (case put ys n z of None \<Rightarrow> None | Some zs \<Rightarrow> Some (xs @ zs))"
  by (simp add: put_def list_update_append)

lemma get_append: "get (xs @ ys) (length xs + n) = get ys n"
  by (simp add: get_def nth_append)

lemma put_Cons [simp]:
  "put (y # ys) 0 z = Some (z # ys)"
  "put (y # ys) (Suc n) z = (case put ys n z of None \<Rightarrow> None | Some zs \<Rightarrow> Some (y # zs))"
  by (simp_all add: put_def)

lemma get_Cons [simp]: "get (y # ys) 0 = Some y" "get (y # ys) (Suc n) = get ys n"
  by (simp_all add: get_def)

lemmas block_access =
  put_append [where n = "0", simplified]
  put_append [where n = "Suc 0", simplified]
  put_append [where n = "Suc (Suc 0)", simplified]
  put_append [where n = "Suc (Suc (Suc 0))", simplified]
  get_append [where n = "0", simplified]
  get_append [where n = "Suc 0", simplified]
  get_append [where n = "Suc (Suc 0)", simplified]
  get_append [where n = "Suc (Suc (Suc 0))", simplified]

lemma div_shift: "drop_bit 8 A = A div (256 :: nat)" "drop_bit 16 A = A div (256 :: nat) div 256"
  "drop_bit 24 A = A div (256 :: nat) div 256 div 256"
  by (simp_all add: drop_bit_eq_div div_mult2_eq [symmetric])

lemma small_numerals: "(2 :: nat) = Suc (Suc 0)" "(3 :: nat) = Suc (Suc (Suc 0))"
  "(4 :: nat) = Suc (Suc (Suc (Suc 0)))"
  by simp_all

lemma int3store_block:
  assumes "length bs = 3"
  shows "int3store (xs @ bs @ ys) (length xs) A = Some (xs @ le_bytes 3 A @ ys)"
proof -
  obtain a b c where "bs = [a, b, c]"
    using assms by (auto simp: length_Suc_conv small_numerals)
  then show ?thesis
    by (simp add: int3store_def block_access div_shift small_numerals)
qed

lemma int4store_block:
  assumes "length bs = 4"
  shows "int4store (xs @ bs @ ys) (length xs) A = Some (xs @ le_bytes 4 A @ ys)"
proof -
  obtain a b c d where "bs = [a, b, c, d]"
    using assms by (auto simp: length_Suc_conv small_numerals)
  then show ?thesis
    by (simp add: int4store_def block_access div_shift small_numerals)
qed

lemma int2store_block:
  assumes "length bs = 2"
  shows "int2store (xs @ bs @ ys) (length xs) A = Some (xs @ le_bytes 2 A @ ys)"
proof -
  obtain a b where bs: "bs = [a, b]"
    using assms by (auto simp: length_Suc_conv small_numerals)
  have "le_bytes 2 (u32 (int A)) = le_bytes 2 A"
    using le_bytes_mod [of 2 A 2] by (simp add: u32_def nat_mod_distrib)
  then show ?thesis
    unfolding bs by (simp add: int2store_def block_access div_shift small_numerals)
qed

lemma int8store_block:
  assumes "length bs = 8"
  shows "int8store (xs @ bs @ ys) (length xs) A = Some (xs @ le_bytes 8 A @ ys)"
proof -
  have lo: "le_bytes 4 (u32 (int A)) = le_bytes 4 A" for A
    using le_bytes_mod [of 4 A 0] by (simp add: u32_def nat_mod_distrib)
  have hi: "drop_bit 32 A = A div 256 ^ 4" by (simp add: drop_bit_eq_div)
  define cs ds where "cs = take 4 bs" and "ds = drop 4 bs"
  have bs: "bs = cs @ ds" "length cs = 4" "length ds = 4"
    using assms by (simp_all add: cs_def ds_def)
  have 1: "int4store (xs @ cs @ ds @ ys) (length xs) (u32 (int A)) =
      Some (xs @ le_bytes 4 A @ ds @ ys)"
    by (simp add: int4store_block bs lo)
  have 2: "int4store (xs @ le_bytes 4 A @ ds @ ys) (length xs + 4) B =
      Some (xs @ le_bytes 4 A @ le_bytes 4 B @ ys)" for B
    using int4store_block [of ds "xs @ le_bytes 4 A" ys B] bs by simp
  have 3: "le_bytes 8 A = le_bytes 4 A @ le_bytes 4 (A div 256 ^ 4)"
    using le_bytes_append [of 4 4 A] by simp
  have "int8store (xs @ cs @ ds @ ys) (length xs) A =
      int4store (xs @ le_bytes 4 A @ ds @ ys) (length xs + 4) (u32 (int (A div 256 ^ 4)))"
    by (simp add: int8store_def Let_def 1 hi)
  then show ?thesis unfolding bs(1) 3 2 lo append_assoc by simp
qed

text \<open>Loading the bytes of a number gives the number modulo the width.\<close>

lemma unat_uchar: "unat (of_nat A :: uchar) = A mod 256"
  by (simp add: unat_of_nat)

lemma digits:
  fixes A :: nat
  shows "A mod b + (A div b mod b) * b = A mod (b * b)"
    and "A mod b + (A div b mod b) * b + (A div b div b mod b) * (b * b) = A mod (b * (b * b))"
    and "A mod b + (A div b mod b) * b + (A div b div b mod b) * (b * b) +
      (A div b div b div b mod b) * (b * (b * b)) = A mod (b * (b * (b * b)))"
  by (simp_all add: mod_mult2_eq algebra_simps)

lemma bytes_value:
  fixes A :: nat
  shows "A mod 256 + push_bit 8 (A div 256 mod 256) = A mod 256 ^ 2"
    and "A mod 256 + push_bit 8 (A div 256 mod 256) + push_bit 16 (A div 256 div 256 mod 256) =
      A mod 256 ^ 3"
    and "A mod 256 + push_bit 8 (A div 256 mod 256) + push_bit 16 (A div 256 div 256 mod 256) +
      push_bit 24 (A div 256 div 256 div 256 mod 256) = A mod 256 ^ 4"
proof -
  have p: "push_bit 8 n = n * 256" "push_bit 16 n = n * (256 * 256)"
    "push_bit 24 n = n * (256 * (256 * 256))" for n :: nat
    by (simp_all add: push_bit_eq_mult)
  have q: "256 ^ 2 = (256 * 256 :: nat)" "256 ^ 3 = (256 * (256 * 256) :: nat)"
    "256 ^ 4 = (256 * (256 * (256 * 256)) :: nat)" by simp_all
  show "A mod 256 + push_bit 8 (A div 256 mod 256) = A mod 256 ^ 2"
    unfolding p q by (rule digits)
  show "A mod 256 + push_bit 8 (A div 256 mod 256) + push_bit 16 (A div 256 div 256 mod 256) =
      A mod 256 ^ 3"
    unfolding p q by (rule digits)
  show "A mod 256 + push_bit 8 (A div 256 mod 256) + push_bit 16 (A div 256 div 256 mod 256) +
      push_bit 24 (A div 256 div 256 div 256 mod 256) = A mod 256 ^ 4"
    unfolding p q by (rule digits)
qed

lemma uint2korr_block: "uint2korr (xs @ le_bytes 2 A @ ys) (length xs) = Some (A mod 256 ^ 2)"
  unfolding bytes_value(1) [symmetric]
  by (simp add: uint2korr_def block_access unat_uchar small_numerals del: power_Suc)

lemma uint3korr_block: "uint3korr (xs @ le_bytes 3 A @ ys) (length xs) = Some (A mod 256 ^ 3)"
  unfolding bytes_value(2) [symmetric]
  by (simp add: uint3korr_def block_access unat_uchar small_numerals)

lemma uint4korr_block: "uint4korr (xs @ le_bytes 4 A @ ys) (length xs) = Some (A mod 256 ^ 4)"
  unfolding bytes_value(3) [symmetric]
  by (simp add: uint4korr_def block_access unat_uchar small_numerals)

lemma uint8korr_block: "uint8korr (xs @ le_bytes 8 A @ ys) (length xs) = Some (A mod 256 ^ 8)"
proof -
  have 1: "le_bytes 8 A = le_bytes 4 A @ le_bytes 4 (A div 256 ^ 4)"
    using le_bytes_append [of 4 4 A] by simp
  have 2: "uint4korr (xs @ le_bytes 8 A @ ys) (length xs) = Some (A mod 256 ^ 4)"
    unfolding 1 append_assoc by (rule uint4korr_block)
  have 3: "uint4korr (xs @ le_bytes 8 A @ ys) (length xs + 4) = Some (A div 256 ^ 4 mod 256 ^ 4)"
    using uint4korr_block [of "xs @ le_bytes 4 A"] unfolding 1 by simp
  have "A mod 256 ^ 8 = A mod 256 ^ 4 + push_bit 32 (A div 256 ^ 4 mod 256 ^ 4)"
    using mod_mult2_eq [of A "256 ^ 4" "256 ^ 4"] by (simp add: push_bit_eq_mult)
  then show ?thesis by (simp add: uint8korr_def 2 3 del: One_nat_def)
qed

section \<open>Round trip\<close>

text \<open>The number of bytes \<open>net_store_length\<close> takes, and its bytes.\<close>

definition length_bytes :: "nat \<Rightarrow> uchar list" where
  "length_bytes len = (if len < 251 then [of_nat len] else if len < 65536 then 252 # le_bytes 2 len
     else if len < 16777216 then 253 # le_bytes 3 len else 254 # le_bytes 8 len)"

lemma length_bytes_size: "0 < length (length_bytes len)" "length (length_bytes len) \<le> 9"
  by (simp_all add: length_bytes_def)

lemma net_store_length_block:
  assumes "length bs = length (length_bytes len)"
  shows "net_store_length (xs @ bs @ ys) (length xs) len =
    Some (xs @ length_bytes len @ ys, length xs + length (length_bytes len))"
proof -
  obtain b cs where bs: "bs = b # cs"
    using assms by (cases bs) (auto simp: length_bytes_def split: if_splits)
  have put: "put (xs @ b # cs @ ys) (length xs) z = Some (xs @ z # cs @ ys)" for z
    by (simp add: block_access)
  note st = int2store_block [of cs "xs @ [_]", simplified] int3store_block [of cs "xs @ [_]", simplified]
    int8store_block [of cs "xs @ [_]", simplified]
  show ?thesis
    using assms unfolding bs
    by (auto simp: net_store_length_def length_bytes_def put st u32_of_nat)
qed

lemma net_field_length_ll_block:
  assumes "len < 2 ^ 64"
  shows "net_field_length_ll (xs @ length_bytes len @ ys) (length xs) =
    Some (len, length xs + length (length_bytes len))"
proof -
  note ld = uint2korr_block [of "xs @ [_]", simplified] uint3korr_block [of "xs @ [_]", simplified]
    uint8korr_block [of "xs @ [_]", simplified]
  show ?thesis
    using assms
    by (auto simp: net_field_length_ll_def length_bytes_def block_access ld unat_uchar)
qed

lemma net_field_length_block:
  "net_field_length (xs @ length_bytes len @ ys) (length xs) =
    Some (len mod 2 ^ 32, length xs + length (length_bytes len))"
proof -
  note ld = uint2korr_block [of "xs @ [_]", simplified] uint3korr_block [of "xs @ [_]", simplified]
  have 8: "uint4korr (xs @ 254 # le_bytes 8 len @ ys) (Suc (length xs)) = Some (len mod 2 ^ 32)"
    using uint4korr_block [of "xs @ [254]" len "le_bytes 4 (len div 256 ^ 4) @ ys"]
      le_bytes_append [of 4 4 len] by simp
  show ?thesis
    by (auto simp: net_field_length_def length_bytes_def block_access ld 8 unat_uchar)
qed

lemma block_at:
  assumes "pos + k \<le> length p"
  obtains xs bs ys where "p = xs @ bs @ ys" and "length xs = pos" and "length bs = k"
    and "xs = take pos p" and "ys = drop (pos + k) p"
proof
  have d: "drop (pos + k) p = drop k (drop pos p)" by (simp add: add.commute)
  show "p = take pos p @ take k (drop pos p) @ drop (pos + k) p"
    unfolding d by (simp only: append_take_drop_id)
qed (use assms in auto)

text \<open>C19: \<open>net_store_length\<close> and \<open>net_field_length_ll\<close> are inverse: any 64-bit length stored
  at a position with nine bytes of room is read back from there as the same length, leaving the
  position the store returned; the store touches no byte before the position or behind the end
  of the number.  \<open>net_field_length\<close> ends at the same place but, for the eight-byte form,
  returns only the low 32 bits of the length.\<close>

theorem net_length_roundtrip:
  assumes "len < 2 ^ 64" and "pos + 9 \<le> length pkg"
  shows "\<exists>pkg' n. net_store_length pkg pos len = Some (pkg', pos + n) \<and> 0 < n \<and> n \<le> 9 \<and>
    length pkg' = length pkg \<and> take pos pkg' = take pos pkg \<and>
    drop (pos + n) pkg' = drop (pos + n) pkg \<and>
    net_field_length_ll pkg' pos = Some (len, pos + n) \<and>
    net_field_length pkg' pos = Some (len mod 2 ^ 32, pos + n)"
proof -
  define n where "n = length (length_bytes len)"
  have n: "0 < n" "n \<le> 9" by (simp_all only: n_def length_bytes_size)
  have "pos + n \<le> length pkg" using n(2) assms(2) by linarith
  then obtain xs bs ys where p: "pkg = xs @ bs @ ys" and l: "length xs = pos" "length bs = n"
    by (rule block_at)
  have "net_store_length pkg pos len = Some (xs @ length_bytes len @ ys, pos + n)"
    using net_store_length_block [of bs len xs ys] l by (simp add: p n_def)
  moreover have "net_field_length_ll (xs @ length_bytes len @ ys) pos = Some (len, pos + n)"
    using net_field_length_ll_block [OF assms(1), of xs ys] l by (simp add: n_def)
  moreover have "net_field_length (xs @ length_bytes len @ ys) pos = Some (len mod 2 ^ 32, pos + n)"
    using net_field_length_block [of xs len ys] l by (simp add: n_def)
  ultimately show ?thesis
    by (intro exI [of _ "xs @ length_bytes len @ ys"] exI [of _ n])
      (use n l in \<open>simp add: p n_def [symmetric]\<close>)
qed

theorem net_length_roundtrip_witness:
  "\<exists>pkg' n. net_store_length (replicate 12 0) 2 300 = Some (pkg', 2 + n) \<and>
    net_field_length_ll pkg' 2 = Some (300, 2 + n)"
  using net_length_roundtrip [of 300 2 "replicate 12 0"] by auto

end
