(* ===== verification/Utf8.thy ===== *)
theory Utf8
  imports NetPack
begin

unbundle bit_operations_syntax

text \<open>
  The UTF-8 codecs of \<open>strings/ctype-utf8.c\<close>: \<open>utf8\<close> (characters of up to three bytes) and
  \<open>utf8mb4\<close> (up to four), with \<open>UNICODE_32BIT\<close> undefined as in every build of the tree, and the
  binary codec of \<open>strings/ctype-bin.c\<close>.  The range of bytes from a pointer \<open>s\<close> to an end \<open>e\<close> is a
  list.  A decoder returns C's result code and, when the code sets \<open>*pwc\<close>, the character; an
  encoder returns the code and the bytes it stores.  The \<open>no_range\<close> variants read a buffer without
  an end pointer: \<open>None\<close> is a read outside it.
\<close>

section \<open>Result codes\<close>

definition MY_CS_ILSEQ :: int where "MY_CS_ILSEQ = 0"
definition MY_CS_ILUNI :: int where "MY_CS_ILUNI = 0"
definition MY_CS_TOOSMALL :: int where "MY_CS_TOOSMALL = - 101"
definition MY_CS_TOOSMALL2 :: int where "MY_CS_TOOSMALL2 = - 102"
definition MY_CS_TOOSMALL3 :: int where "MY_CS_TOOSMALL3 = - 103"
definition MY_CS_TOOSMALL4 :: int where "MY_CS_TOOSMALL4 = - 104"
definition MY_CS_TOOSMALLN :: "int \<Rightarrow> int" where "MY_CS_TOOSMALLN n = - 100 - n"

definition IS_CONTINUATION_BYTE :: "uchar \<Rightarrow> bool" where
  "IS_CONTINUATION_BYTE c \<longleftrightarrow> c XOR 0x80 < 0x40"

section \<open>utf8: up to three bytes\<close>

definition my_valid_mbcharlen_utf8mb3 :: "uchar list \<Rightarrow> int" where
  "my_valid_mbcharlen_utf8mb3 s = (let c = s ! 0 in
     if c < 0x80 then 1
     else if c < 0xc2 then MY_CS_ILSEQ
     else if c < 0xe0 then
       if length s < 2 then MY_CS_TOOSMALL2
       else if \<not> IS_CONTINUATION_BYTE (s ! 1) then MY_CS_ILSEQ
       else 2
     else if length s < 3 then MY_CS_TOOSMALL3
     else if \<not> (IS_CONTINUATION_BYTE (s ! 1) \<and> IS_CONTINUATION_BYTE (s ! 2) \<and>
       (c \<ge> 0xe1 \<or> s ! 1 \<ge> 0xa0)) then MY_CS_ILSEQ
     else 3)"

definition my_utf8_uni :: "uchar list \<Rightarrow> int \<times> nat option" where
  "my_utf8_uni s =
     (if s = [] then (MY_CS_TOOSMALL, None)
      else let c = s ! 0 in
        if c < 0x80 then (1, Some (unat c))
        else if c < 0xc2 then (MY_CS_ILSEQ, None)
        else if c < 0xe0 then
          if length s < 2 then (MY_CS_TOOSMALL2, None)
          else if \<not> IS_CONTINUATION_BYTE (s ! 1) then (MY_CS_ILSEQ, None)
          else (2, Some (push_bit 6 (unat (c AND 0x1f)) OR unat (s ! 1 XOR 0x80)))
        else if c < 0xf0 then
          if length s < 3 then (MY_CS_TOOSMALL3, None)
          else if \<not> (IS_CONTINUATION_BYTE (s ! 1) \<and> IS_CONTINUATION_BYTE (s ! 2) \<and>
            (c \<ge> 0xe1 \<or> s ! 1 \<ge> 0xa0)) then (MY_CS_ILSEQ, None)
          else (3, Some (push_bit 12 (unat (c AND 0x0f)) OR push_bit 6 (unat (s ! 1 XOR 0x80)) OR
            unat (s ! 2 XOR 0x80)))
        else (MY_CS_ILSEQ, None))"

definition my_utf8_uni_no_range :: "uchar list \<Rightarrow> (int \<times> nat option) option" where
  "my_utf8_uni_no_range s = do {
     c \<leftarrow> get s 0;
     if c < 0x80 then Some (1, Some (unat c))
     else if c < 0xc2 then Some (MY_CS_ILSEQ, None)
     else if c < 0xe0 then do {
       s1 \<leftarrow> get s 1;
       if \<not> (s1 XOR 0x80 < 0x40) then Some (MY_CS_ILSEQ, None)
       else Some (2, Some (push_bit 6 (unat (c AND 0x1f)) OR unat (s1 XOR 0x80)))
     }
     else if c < 0xf0 then do {
       s1 \<leftarrow> get s 1;
       if \<not> IS_CONTINUATION_BYTE s1 then Some (MY_CS_ILSEQ, None) else do {
         s2 \<leftarrow> get s 2;
         if \<not> (IS_CONTINUATION_BYTE s2 \<and> (c \<ge> 0xe1 \<or> s1 \<ge> 0xa0)) then Some (MY_CS_ILSEQ, None)
         else Some (3, Some (push_bit 12 (unat (c AND 0x0f)) OR push_bit 6 (unat (s1 XOR 0x80)) OR
           unat (s2 XOR 0x80)))
       }
     }
     else Some (MY_CS_ILSEQ, None)
   }"

text \<open>The cases of the encoders' \<open>switch (count)\<close>, which fall through: each stores its
  continuation byte, shifts the character and marks the lead byte.\<close>

definition switch_case_1 :: "nat \<Rightarrow> uchar list" where
  "switch_case_1 wc = [of_nat wc]"

definition switch_case_2 :: "nat \<Rightarrow> uchar list" where
  "switch_case_2 wc = switch_case_1 (drop_bit 6 wc OR 0xc0) @ [of_nat (0x80 OR (wc AND 0x3f))]"

definition switch_case_3 :: "nat \<Rightarrow> uchar list" where
  "switch_case_3 wc = switch_case_2 (drop_bit 6 wc OR 0x800) @ [of_nat (0x80 OR (wc AND 0x3f))]"

definition switch_case_4 :: "nat \<Rightarrow> uchar list" where
  "switch_case_4 wc = switch_case_3 (drop_bit 6 wc OR 0x10000) @ [of_nat (0x80 OR (wc AND 0x3f))]"

text \<open>The encoders; \<open>room\<close> is the number of bytes between \<open>r\<close> and \<open>e\<close>.\<close>

definition my_uni_utf8 :: "nat \<Rightarrow> nat \<Rightarrow> int \<times> uchar list" where
  "my_uni_utf8 wc room =
     (if room = 0 then (MY_CS_TOOSMALL, [])
      else if wc < 0x80 then if room < 1 then (MY_CS_TOOSMALLN 1, []) else (1, switch_case_1 wc)
      else if wc < 0x800 then if room < 2 then (MY_CS_TOOSMALLN 2, []) else (2, switch_case_2 wc)
      else if wc < 0x10000 then if room < 3 then (MY_CS_TOOSMALLN 3, []) else (3, switch_case_3 wc)
      else (MY_CS_ILUNI, []))"

definition my_uni_utf8_no_range :: "nat \<Rightarrow> int \<times> uchar list" where
  "my_uni_utf8_no_range wc =
     (if wc < 0x80 then (1, switch_case_1 wc)
      else if wc < 0x800 then (2, switch_case_2 wc)
      else if wc < 0x10000 then (3, switch_case_3 wc)
      else (MY_CS_ILUNI, []))"

definition my_valid_mbcharlen_utf8 :: "uchar list \<Rightarrow> int" where
  "my_valid_mbcharlen_utf8 s =
     (if s = [] then MY_CS_TOOSMALL
      else if s ! 0 < 0xf0 then my_valid_mbcharlen_utf8mb3 s
      else MY_CS_ILSEQ)"

fun my_well_formed_len_utf8 :: "uchar list \<Rightarrow> nat \<Rightarrow> nat \<times> bool" where
  "my_well_formed_len_utf8 b 0 = (0, False)"
| "my_well_formed_len_utf8 b (Suc pos) =
     (let mb_len = my_valid_mbcharlen_utf8 b in
      if mb_len \<le> 0 then (0, b \<noteq> [])
      else let (n, error) = my_well_formed_len_utf8 (drop (nat mb_len) b) pos in
        (nat mb_len + n, error))"

definition my_ismbchar_utf8 :: "uchar list \<Rightarrow> nat" where
  "my_ismbchar_utf8 b = (let res = my_valid_mbcharlen_utf8 b in if res > 1 then nat res else 0)"

definition my_mbcharlen_utf8 :: "nat \<Rightarrow> nat" where
  "my_mbcharlen_utf8 c =
     (if c < 0x80 then 1 else if c < 0xc2 then 0 else if c < 0xe0 then 2
      else if c < 0xf0 then 3 else 0)"

section \<open>utf8mb4: up to four bytes\<close>

definition my_mb_wc_utf8mb4 :: "uchar list \<Rightarrow> int \<times> nat option" where
  "my_mb_wc_utf8mb4 s =
     (if s = [] then (MY_CS_TOOSMALL, None)
      else let c = s ! 0 in
        if c < 0x80 then (1, Some (unat c))
        else if c < 0xc2 then (MY_CS_ILSEQ, None)
        else if c < 0xe0 then
          if length s < 2 then (MY_CS_TOOSMALL2, None)
          else if \<not> IS_CONTINUATION_BYTE (s ! 1) then (MY_CS_ILSEQ, None)
          else (2, Some (push_bit 6 (unat (c AND 0x1f)) OR unat (s ! 1 XOR 0x80)))
        else if c < 0xf0 then
          if length s < 3 then (MY_CS_TOOSMALL3, None)
          else if \<not> (IS_CONTINUATION_BYTE (s ! 1) \<and> IS_CONTINUATION_BYTE (s ! 2) \<and>
            (c \<ge> 0xe1 \<or> s ! 1 \<ge> 0xa0)) then (MY_CS_ILSEQ, None)
          else (3, Some (push_bit 12 (unat (c AND 0x0f)) OR push_bit 6 (unat (s ! 1 XOR 0x80)) OR
            unat (s ! 2 XOR 0x80)))
        else if c < 0xf5 then
          if length s < 4 then (MY_CS_TOOSMALL4, None)
          else if \<not> (IS_CONTINUATION_BYTE (s ! 1) \<and> IS_CONTINUATION_BYTE (s ! 2) \<and>
            IS_CONTINUATION_BYTE (s ! 3) \<and>
            (c \<ge> 0xf1 \<or> s ! 1 \<ge> 0x90) \<and> (c \<le> 0xf3 \<or> s ! 1 \<le> 0x8F)) then (MY_CS_ILSEQ, None)
          else (4, Some (push_bit 18 (unat (c AND 0x07)) OR push_bit 12 (unat (s ! 1 XOR 0x80)) OR
            push_bit 6 (unat (s ! 2 XOR 0x80)) OR unat (s ! 3 XOR 0x80)))
        else (MY_CS_ILSEQ, None))"

definition my_mb_wc_utf8mb4_no_range :: "uchar list \<Rightarrow> (int \<times> nat option) option" where
  "my_mb_wc_utf8mb4_no_range s = do {
     c \<leftarrow> get s 0;
     if c < 0x80 then Some (1, Some (unat c))
     else if c < 0xc2 then Some (MY_CS_ILSEQ, None)
     else if c < 0xe0 then do {
       s1 \<leftarrow> get s 1;
       if \<not> IS_CONTINUATION_BYTE s1 then Some (MY_CS_ILSEQ, None)
       else Some (2, Some (push_bit 6 (unat (c AND 0x1f)) OR unat (s1 XOR 0x80)))
     }
     else if c < 0xf0 then do {
       s1 \<leftarrow> get s 1;
       if \<not> IS_CONTINUATION_BYTE s1 then Some (MY_CS_ILSEQ, None) else do {
         s2 \<leftarrow> get s 2;
         if \<not> (IS_CONTINUATION_BYTE s2 \<and> (c \<ge> 0xe1 \<or> s1 \<ge> 0xa0)) then Some (MY_CS_ILSEQ, None)
         else Some (3, Some (push_bit 12 (unat (c AND 0x0f)) OR push_bit 6 (unat (s1 XOR 0x80)) OR
           unat (s2 XOR 0x80)))
       }
     }
     else if c < 0xf5 then do {
       s1 \<leftarrow> get s 1;
       if \<not> IS_CONTINUATION_BYTE s1 then Some (MY_CS_ILSEQ, None) else do {
         s2 \<leftarrow> get s 2;
         if \<not> IS_CONTINUATION_BYTE s2 then Some (MY_CS_ILSEQ, None) else do {
           s3 \<leftarrow> get s 3;
           if \<not> (IS_CONTINUATION_BYTE s3 \<and> (c \<ge> 0xf1 \<or> s1 \<ge> 0x90) \<and> (c \<le> 0xf3 \<or> s1 \<le> 0x8F))
           then Some (MY_CS_ILSEQ, None)
           else Some (4, Some (push_bit 18 (unat (c AND 0x07)) OR
             push_bit 12 (unat (s1 XOR 0x80)) OR push_bit 6 (unat (s2 XOR 0x80)) OR
             unat (s3 XOR 0x80)))
         }
       }
     }
     else Some (MY_CS_ILSEQ, None)
   }"

definition my_wc_mb_utf8mb4 :: "nat \<Rightarrow> nat \<Rightarrow> int \<times> uchar list" where
  "my_wc_mb_utf8mb4 wc room =
     (if room = 0 then (MY_CS_TOOSMALL, [])
      else if wc < 0x80 then if room < 1 then (MY_CS_TOOSMALLN 1, []) else (1, switch_case_1 wc)
      else if wc < 0x800 then if room < 2 then (MY_CS_TOOSMALLN 2, []) else (2, switch_case_2 wc)
      else if wc < 0x10000 then if room < 3 then (MY_CS_TOOSMALLN 3, []) else (3, switch_case_3 wc)
      else if wc < 0x200000 then if room < 4 then (MY_CS_TOOSMALLN 4, []) else (4, switch_case_4 wc)
      else (MY_CS_ILUNI, []))"

definition my_wc_mb_utf8mb4_no_range :: "nat \<Rightarrow> int \<times> uchar list" where
  "my_wc_mb_utf8mb4_no_range wc =
     (if wc < 0x80 then (1, switch_case_1 wc)
      else if wc < 0x800 then (2, switch_case_2 wc)
      else if wc < 0x10000 then (3, switch_case_3 wc)
      else if wc < 0x200000 then (4, switch_case_4 wc)
      else (MY_CS_ILUNI, []))"

definition my_valid_mbcharlen_utf8mb4 :: "uchar list \<Rightarrow> int" where
  "my_valid_mbcharlen_utf8mb4 s =
     (if s = [] then MY_CS_TOOSMALL
      else let c = s ! 0 in
        if c < 0xf0 then my_valid_mbcharlen_utf8mb3 s
        else if c < 0xf5 then
          if length s < 4 then MY_CS_TOOSMALL4
          else if \<not> (IS_CONTINUATION_BYTE (s ! 1) \<and> IS_CONTINUATION_BYTE (s ! 2) \<and>
            IS_CONTINUATION_BYTE (s ! 3) \<and>
            (c \<ge> 0xf1 \<or> s ! 1 \<ge> 0x90) \<and> (c \<le> 0xf3 \<or> s ! 1 \<le> 0x8F)) then MY_CS_ILSEQ
          else 4
        else MY_CS_ILSEQ)"

fun my_well_formed_len_utf8mb4 :: "uchar list \<Rightarrow> nat \<Rightarrow> nat \<times> bool" where
  "my_well_formed_len_utf8mb4 b 0 = (0, False)"
| "my_well_formed_len_utf8mb4 b (Suc pos) =
     (let mb_len = my_valid_mbcharlen_utf8mb4 b in
      if mb_len \<le> 0 then (0, b \<noteq> [])
      else let (n, error) = my_well_formed_len_utf8mb4 (drop (nat mb_len) b) pos in
        (nat mb_len + n, error))"

definition my_ismbchar_utf8mb4 :: "uchar list \<Rightarrow> nat" where
  "my_ismbchar_utf8mb4 b =
     (let res = my_valid_mbcharlen_utf8mb4 b in if res > 1 then nat res else 0)"

definition my_mbcharlen_utf8mb4 :: "nat \<Rightarrow> nat" where
  "my_mbcharlen_utf8mb4 c =
     (if c < 0x80 then 1 else if c < 0xc2 then 0 else if c < 0xe0 then 2
      else if c < 0xf0 then 3 else if c < 0xf8 then 4 else 0)"

section \<open>The binary codec\<close>

definition my_mb_wc_bin :: "uchar list \<Rightarrow> int \<times> nat option" where
  "my_mb_wc_bin str = (if str = [] then (MY_CS_TOOSMALL, None) else (1, Some (unat (str ! 0))))"

definition my_wc_mb_bin :: "nat \<Rightarrow> nat \<Rightarrow> int \<times> uchar list" where
  "my_wc_mb_bin wc room =
     (if room = 0 then (MY_CS_TOOSMALL, [])
      else if wc < 256 then (1, [of_nat wc])
      else (MY_CS_ILUNI, []))"

section \<open>Bytes as numbers\<close>

lemmas cs_codes = MY_CS_ILSEQ_def MY_CS_ILUNI_def MY_CS_TOOSMALL_def MY_CS_TOOSMALL2_def
  MY_CS_TOOSMALL3_def MY_CS_TOOSMALL4_def MY_CS_TOOSMALLN_def

text \<open>Disjoint bit fields add up.\<close>

lemma field_and: "b < 2 ^ k \<Longrightarrow> push_bit k a AND b = (0 :: nat)"
proof (rule bit_eqI)
  fix n
  assume "b < 2 ^ k"
  then have "b = take_bit k b" by (simp add: take_bit_nat_eq_self)
  then have "bit b n \<Longrightarrow> n < k" by (metis bit_take_bit_iff)
  then show "bit (push_bit k a AND b) n \<longleftrightarrow> bit (0 :: nat) n"
    by (auto simp: bit_and_iff bit_push_bit_iff)
qed

lemma field_or: "b < 2 ^ k \<Longrightarrow> push_bit k a OR b = a * 2 ^ k + (b :: nat)"
  using disjunctive_add_eq_or [OF field_and [of b k a]] by (simp add: push_bit_eq_mult)

lemma field_xor: "b < 2 ^ k \<Longrightarrow> push_bit k a XOR b = a * 2 ^ k + (b :: nat)"
  using disjunctive_add_eq_xor [OF field_and [of b k a]] by (simp add: push_bit_eq_mult)

lemma or_marks:
  "n < 64 \<Longrightarrow> 128 OR n = n + (128 :: nat)"
  "n < 64 \<Longrightarrow> n OR 192 = n + (192 :: nat)"
  "n < 2048 \<Longrightarrow> n OR 2048 = n + (2048 :: nat)"
  "n < 65536 \<Longrightarrow> n OR 65536 = n + (65536 :: nat)"
  using field_or [of n 7 1] field_or [of n 6 3] field_or [of n 11 1] field_or [of n 16 1]
  by (simp_all add: or.commute push_bit_eq_mult)

lemma xor_128: "n < 256 \<Longrightarrow> n XOR 128 = (if n < 128 then n + 128 else n - (128 :: nat))"
proof (cases "n < 128")
  case True
  then show ?thesis using field_xor [of n 7 1] by (simp add: push_bit_eq_mult xor.commute)
next
  case False
  assume "n < 256"
  with False have m: "n - 128 < 2 ^ 7" by simp
  then have "128 XOR (n - 128) = 128 + (n - 128)"
    using field_xor [OF m, of 1] by (simp add: push_bit_eq_mult)
  then have "n XOR 128 = (128 XOR (n - 128)) XOR 128" using False by simp
  also have "\<dots> = n - 128"
    by (simp only: xor.commute [of "128 :: nat" "n - 128"] xor.assoc xor_self_eq xor.right_neutral)
  finally show ?thesis using False by simp
qed

lemma unat_less_256: "unat (b :: uchar) < 256"
  using unsigned_less [of b] by simp

lemma unat_xor_128: "unat ((b :: uchar) XOR 0x80) = (if unat b < 128 then unat b + 128 else unat b - 128)"
  using xor_128 [OF unat_less_256 [of b]] by (simp add: unsigned_xor_eq)

lemma cont_byte: "IS_CONTINUATION_BYTE b \<longleftrightarrow> 128 \<le> unat b \<and> unat b < 192"
  using unat_less_256 [of b]
  by (auto simp: IS_CONTINUATION_BYTE_def word_less_nat_alt unat_xor_128)

lemma and_low:
  fixes n :: nat
  shows "n AND 63 = n mod 64" "n AND 31 = n mod 32" "n AND 15 = n mod 16" "n AND 7 = n mod 8"
  using take_bit_eq_mask [of 6 n] take_bit_eq_mask [of 5 n] take_bit_eq_mask [of 4 n]
    take_bit_eq_mask [of 3 n]
  by (simp_all add: take_bit_eq_mod mask_eq_exp_minus_1)

lemma unat_low_bits:
  "unat ((b :: uchar) AND 0x1f) = unat b mod 32"
  "unat ((b :: uchar) AND 0x0f) = unat b mod 16"
  "unat ((b :: uchar) AND 0x07) = unat b mod 8"
  by (simp_all add: unsigned_and_eq and_low)

section \<open>Encoders and decoders as arithmetic\<close>

definition byte :: "nat \<Rightarrow> uchar" where
  "byte n = of_nat n"

lemma unat_of_byte: "n < 256 \<Longrightarrow> unat (byte n) = n"
  by (simp add: byte_def unat_uchar)

lemma switch_case_2_eq: "w < 4096 \<Longrightarrow>
  switch_case_2 w = [byte (w div 64 + 192), byte (w mod 64 + 128)]"
  unfolding switch_case_2_def switch_case_1_def
  by (simp add: byte_def drop_bit_eq_div or_marks and_low)

lemma switch_case_3_eq: "w < 131072 \<Longrightarrow>
  switch_case_3 w = [byte (w div 4096 + 224), byte (w div 64 mod 64 + 128), byte (w mod 64 + 128)]"
proof -
  assume w: "w < 131072"
  define v where "v = w div 64"
  have v: "v < 2048" using w by (simp add: v_def)
  have "w div 4096 = v div 64" by (simp add: v_def div_mult2_eq [symmetric])
  moreover have "(v + 2048) div 64 = v div 64 + 32" "(v + 2048) mod 64 = v mod 64"
    using mod_mult_self1 [of v 32 64] by simp_all
  ultimately show ?thesis
    unfolding switch_case_3_def
    by (simp add: byte_def drop_bit_eq_div v_def [symmetric] or_marks and_low v switch_case_2_eq)
qed

lemma switch_case_4_eq: "w < 2097152 \<Longrightarrow>
  switch_case_4 w = [byte (w div 262144 + 240), byte (w div 4096 mod 64 + 128),
    byte (w div 64 mod 64 + 128), byte (w mod 64 + 128)]"
proof -
  assume w: "w < 2097152"
  define v where "v = w div 64"
  have v: "v < 32768" using w by (simp add: v_def)
  have "w div 262144 = v div 4096" "w div 4096 = v div 64"
    by (simp_all add: v_def div_mult2_eq [symmetric])
  moreover have "(v + 65536) div 4096 = v div 4096 + 16" by simp
  moreover have "(v + 65536) mod 64 = v mod 64" using mod_mult_self1 [of v 1024 64] by simp
  moreover have "(v + 65536) div 64 mod 64 = v div 64 mod 64"
  proof -
    have "(v + 65536) div 64 = v div 64 + 16 * 64" by simp
    then show ?thesis by (simp only: mod_mult_self1)
  qed
  ultimately show ?thesis
    unfolding switch_case_4_def using v
    by (simp add: byte_def drop_bit_eq_div v_def [symmetric] or_marks and_low switch_case_3_eq)
qed


text \<open>The characters the decoders build.\<close>

lemma cont_value:
  assumes "IS_CONTINUATION_BYTE b"
  shows "unat (b XOR 0x80) = unat b - 128" and "unat b - 128 < 64"
  using assms by (auto simp: cont_byte unat_xor_128)

lemma wc_2:
  assumes "IS_CONTINUATION_BYTE b"
  shows "push_bit 6 (unat ((a :: uchar) AND 0x1f)) OR unat (b XOR 0x80) =
    unat a mod 32 * 64 + (unat b - 128)"
proof -
  have "unat b - 128 < 2 ^ 6" using cont_value [OF assms] by simp
  from field_or [OF this, of "unat a mod 32"] show ?thesis
    unfolding cont_value [OF assms] unat_low_bits by simp
qed

lemma wc_3:
  assumes "IS_CONTINUATION_BYTE b" "IS_CONTINUATION_BYTE c"
  shows "push_bit 12 (unat ((a :: uchar) AND 0x0f)) OR push_bit 6 (unat (b XOR 0x80)) OR unat (c XOR 0x80) =
    unat a mod 16 * 4096 + ((unat b - 128) * 64 + (unat c - 128))"
proof -
  note v = cont_value [OF assms(1)] cont_value [OF assms(2)]
  have 1: "unat c - 128 < 2 ^ 6" using v by simp
  have 2: "(unat b - 128) * 2 ^ 6 + (unat c - 128) < 2 ^ 12" using v by simp
  show ?thesis unfolding v unat_low_bits field_or [OF 1] field_or [OF 2] by simp
qed

lemma wc_4:
  assumes "IS_CONTINUATION_BYTE b" "IS_CONTINUATION_BYTE c" "IS_CONTINUATION_BYTE d"
  shows "push_bit 18 (unat ((a :: uchar) AND 0x07)) OR push_bit 12 (unat (b XOR 0x80)) OR
      push_bit 6 (unat (c XOR 0x80)) OR unat (d XOR 0x80) =
    unat a mod 8 * 262144 + ((unat b - 128) * 4096 + ((unat c - 128) * 64 + (unat d - 128)))"
proof -
  note v = cont_value [OF assms(1)] cont_value [OF assms(2)] cont_value [OF assms(3)]
  have 1: "unat d - 128 < 2 ^ 6" using v by simp
  have 2: "(unat c - 128) * 2 ^ 6 + (unat d - 128) < 2 ^ 12" using v by simp
  have 3: "(unat b - 128) * 2 ^ 12 + ((unat c - 128) * 2 ^ 6 + (unat d - 128)) < 2 ^ 18"
    using v by simp
  show ?thesis unfolding v unat_low_bits field_or [OF 1] field_or [OF 2] field_or [OF 3] by simp
qed

lemmas byte_order = word_less_nat_alt word_le_nat_alt

lemma decode_1:
  assumes "unat a < 128"
  shows "my_utf8_uni (a # ys) = (1, Some (unat a))" "my_mb_wc_utf8mb4 (a # ys) = (1, Some (unat a))"
  using assms by (simp_all add: my_utf8_uni_def my_mb_wc_utf8mb4_def byte_order)

lemma decode_2:
  assumes "unat a = p + 192" "2 \<le> p" "p < 32" "unat b = q + 128" "q < 64"
  shows "my_utf8_uni (a # b # ys) = (2, Some (p * 64 + q))"
    and "my_mb_wc_utf8mb4 (a # b # ys) = (2, Some (p * 64 + q))"
proof -
  have b: "IS_CONTINUATION_BYTE b" using assms by (simp add: cont_byte)
  have "unat a mod 32 = p" using assms mod_mult_self1 [of p 6 32] by simp
  then show "my_utf8_uni (a # b # ys) = (2, Some (p * 64 + q))"
    "my_mb_wc_utf8mb4 (a # b # ys) = (2, Some (p * 64 + q))"
    using assms wc_2 [OF b, of a]
    by (simp_all add: my_utf8_uni_def my_mb_wc_utf8mb4_def byte_order b)
qed

lemma decode_3:
  assumes "unat a = p + 224" "p < 16" "unat b = q + 128" "q < 64" "unat c = r + 128" "r < 64"
    and "1 \<le> p \<or> 32 \<le> q"
  shows "my_utf8_uni (a # b # c # ys) = (3, Some (p * 4096 + (q * 64 + r)))"
    and "my_mb_wc_utf8mb4 (a # b # c # ys) = (3, Some (p * 4096 + (q * 64 + r)))"
proof -
  have b: "IS_CONTINUATION_BYTE b" "IS_CONTINUATION_BYTE c" using assms by (simp_all add: cont_byte)
  have "unat a mod 16 = p" using assms mod_mult_self1 [of p 14 16] by simp
  then show "my_utf8_uni (a # b # c # ys) = (3, Some (p * 4096 + (q * 64 + r)))"
    "my_mb_wc_utf8mb4 (a # b # c # ys) = (3, Some (p * 4096 + (q * 64 + r)))"
    using assms wc_3 [OF b, of a]
    by (auto simp: my_utf8_uni_def my_mb_wc_utf8mb4_def byte_order b)
qed

lemma decode_4:
  assumes "unat a = p + 240" "p < 5" "unat b = q + 128" "q < 64" "unat c = r + 128" "r < 64"
    and "unat d = t + 128" "t < 64" "1 \<le> p \<or> 16 \<le> q" "p \<le> 3 \<or> q < 16"
  shows "my_mb_wc_utf8mb4 (a # b # c # d # ys) =
    (4, Some (p * 262144 + (q * 4096 + (r * 64 + t))))"
proof -
  have b: "IS_CONTINUATION_BYTE b" "IS_CONTINUATION_BYTE c" "IS_CONTINUATION_BYTE d"
    using assms by (simp_all add: cont_byte)
  have "unat a mod 8 = p" using assms mod_mult_self1 [of p 30 8] by simp
  then show ?thesis
    using assms wc_4 [OF b, of a]
    by (auto simp: my_mb_wc_utf8mb4_def byte_order b)
qed

section \<open>Round trips\<close>

lemma decode_switch_2:
  assumes "128 \<le> wc" "wc < 2048"
  shows "my_utf8_uni (switch_case_2 wc @ ys) = (2, Some wc)"
    and "my_mb_wc_utf8mb4 (switch_case_2 wc @ ys) = (2, Some wc)"
proof -
  have "wc div 64 + 192 < 256" "2 \<le> wc div 64" "wc div 64 < 32" "wc mod 64 + 128 < 256"
    using assms by linarith+
  note d = decode_2 [OF unat_of_byte this(2,3) unat_of_byte, OF this(1,4)]
  show "my_utf8_uni (switch_case_2 wc @ ys) = (2, Some wc)"
    "my_mb_wc_utf8mb4 (switch_case_2 wc @ ys) = (2, Some wc)"
    using assms by (simp_all add: switch_case_2_eq d)
qed

lemma split_3: "wc div 4096 * 4096 + (wc div 64 mod 64 * 64 + wc mod 64) = (wc :: nat)"
proof -
  have "wc div 4096 = wc div 64 div 64" by (simp add: div_mult2_eq [symmetric])
  then show ?thesis
    using div_mult_mod_eq [of wc 64] div_mult_mod_eq [of "wc div 64" 64] by linarith
qed

lemma split_4:
  "wc div 262144 * 262144 + (wc div 4096 mod 64 * 4096 + (wc div 64 mod 64 * 64 + wc mod 64)) = (wc :: nat)"
proof -
  have "wc div 262144 = wc div 4096 div 64" by (simp add: div_mult2_eq [symmetric])
  then show ?thesis
    using split_3 [of wc] div_mult_mod_eq [of "wc div 4096" 64] by linarith
qed

lemma decode_switch_3:
  assumes "2048 \<le> wc" "wc < 65536"
  shows "my_utf8_uni (switch_case_3 wc @ ys) = (3, Some wc)"
    and "my_mb_wc_utf8mb4 (switch_case_3 wc @ ys) = (3, Some wc)"
proof -
  have r: "wc div 4096 + 224 < 256" "wc div 4096 < 16" "wc div 64 mod 64 + 128 < 256"
    "wc div 64 mod 64 < 64" "wc mod 64 + 128 < 256" "wc mod 64 < 64"
    using assms by (simp_all add: less_mult_imp_div_less)
  have "1 \<le> wc div 4096 \<or> 32 \<le> wc div 64 mod 64"
  proof (cases "wc < 4096")
    case True
    then have "wc div 64 < 64" by simp
    then show ?thesis using assms(1) by simp
  next
    case False
    then have "4096 div 4096 \<le> wc div 4096" by (intro div_le_mono) simp
    then show ?thesis by simp
  qed
  note d = decode_3 [OF unat_of_byte r(2) unat_of_byte r(4) unat_of_byte r(6) this, OF r(1,3,5)]
  show "my_utf8_uni (switch_case_3 wc @ ys) = (3, Some wc)"
    "my_mb_wc_utf8mb4 (switch_case_3 wc @ ys) = (3, Some wc)"
    using assms by (simp_all add: switch_case_3_eq d split_3)
qed

lemma decode_switch_4:
  assumes "65536 \<le> wc" "wc \<le> 0x10FFFF"
  shows "my_mb_wc_utf8mb4 (switch_case_4 wc @ ys) = (4, Some wc)"
proof -
  have r: "wc div 262144 + 240 < 256" "wc div 262144 < 5" "wc div 4096 mod 64 + 128 < 256"
    "wc div 4096 mod 64 < 64" "wc div 64 mod 64 + 128 < 256"
    "wc div 64 mod 64 < 64" "wc mod 64 + 128 < 256" "wc mod 64 < 64"
    using assms by (simp_all add: less_mult_imp_div_less)
  have d: "wc div 262144 = wc div 4096 div 64" by (simp add: div_mult2_eq [symmetric])
  define m where "m = wc div 4096"
  have m: "16 \<le> m" "m \<le> 271" using assms by (simp_all add: m_def)
  have lo: "1 \<le> wc div 262144 \<or> 16 \<le> wc div 4096 mod 64"
    unfolding d m_def [symmetric] using m div_le_mono [of 64 m 64] by (cases "m < 64") simp_all
  have hi: "wc div 262144 \<le> 3 \<or> wc div 4096 mod 64 < 16"
  proof (cases "m < 256")
    case True
    then have "m div 64 < 4" by (simp add: less_mult_imp_div_less)
    then show ?thesis unfolding d m_def [symmetric] by simp
  next
    case False
    then have "m mod 64 = m - 256" using m mod_mult_self1 [of "m - 256" 4 64] by simp
    then have "m mod 64 < 16" using m False by linarith
    then show ?thesis unfolding d m_def [symmetric] by blast
  qed
  show ?thesis
    using assms decode_4 [OF unat_of_byte r(2) unat_of_byte r(4) unat_of_byte r(6) unat_of_byte r(8) lo hi,
      OF r(1,3,5,7)]
    by (simp add: switch_case_4_eq split_4)
qed

lemma switch_length [simp]: "length (switch_case_1 wc) = 1" "length (switch_case_2 wc) = 2"
  "length (switch_case_3 wc) = 3" "length (switch_case_4 wc) = 4"
  by (simp_all add: switch_case_1_def switch_case_2_def switch_case_3_def switch_case_4_def)

lemma decode_switch_1:
  assumes "wc < 128"
  shows "my_utf8_uni (switch_case_1 wc @ ys) = (1, Some wc)"
    and "my_mb_wc_utf8mb4 (switch_case_1 wc @ ys) = (1, Some wc)"
  using assms decode_1 [of "of_nat wc"] by (simp_all add: switch_case_1_def unat_uchar)

lemmas decode_switch = decode_switch_1 decode_switch_2 decode_switch_3 decode_switch_4

lemma utf8_decode_encode:
  assumes "my_uni_utf8 wc room = (n, bs)" and "0 < n"
  shows "wc < 0x10000 \<and> n = int (length bs) \<and> length bs \<le> room \<and> my_utf8_uni (bs @ ys) = (n, Some wc)"
  using assms by (auto simp: my_uni_utf8_def cs_codes decode_switch split: if_splits)

lemma utf8mb4_decode_encode:
  assumes "my_wc_mb_utf8mb4 wc room = (n, bs)" and "0 < n"
  shows "wc < 0x200000 \<and> n = int (length bs) \<and> length bs \<le> room \<and>
    (wc \<le> 0x10FFFF \<longrightarrow> my_mb_wc_utf8mb4 (bs @ ys) = (n, Some wc))"
  using assms by (auto simp: my_wc_mb_utf8mb4_def cs_codes decode_switch split: if_splits)

lemma byte_unat [simp]: "byte (unat a) = a"
  by (simp add: byte_def)

lemma encode_2:
  assumes "unat a = p + 192" "p < 32" "unat b = q + 128" "q < 64"
  shows "switch_case_2 (p * 64 + q) = [a, b]"
proof -
  have "(p * 64 + q) div 64 = p" "(p * 64 + q) mod 64 = q" "p * 64 + q < 4096"
    using assms by simp_all
  then show ?thesis
    using assms byte_unat [of a] byte_unat [of b] by (simp add: switch_case_2_eq)
qed

lemma divmod_64: "r < 64 \<Longrightarrow> (x * 64 + r) div 64 = x" "r < 64 \<Longrightarrow> (x * 64 + r) mod 64 = (r :: nat)"
  by simp_all

lemma encode_3:
  assumes "unat a = p + 224" "p < 16" "unat b = q + 128" "q < 64" "unat c = r + 128" "r < 64"
  shows "switch_case_3 (p * 4096 + (q * 64 + r)) = [a, b, c]"
proof -
  define w where "w = p * 4096 + (q * 64 + r)"
  have w: "w = (p * 64 + q) * 64 + r" by (simp add: w_def)
  have 1: "w div 64 = p * 64 + q" "w mod 64 = r"
    unfolding w by (rule divmod_64 [OF assms(6)])+
  have 2: "w div 4096 = p"
    using assms 1 div_mult2_eq [of w 64 64] by (simp add: divmod_64)
  have 3: "w div 64 mod 64 = q" unfolding 1 by (rule divmod_64 [OF assms(4)])
  have "w < 131072" using assms by (simp add: w_def)
  then show ?thesis
    unfolding w_def [symmetric]
    using assms byte_unat [of a] byte_unat [of b] byte_unat [of c]
    by (simp add: switch_case_3_eq 1(2) 2 3)
qed

lemma encode_4:
  assumes "unat a = p + 240" "p < 5" "unat b = q + 128" "q < 64" "unat c = r + 128" "r < 64"
    and "unat d = t + 128" "t < 64"
  shows "switch_case_4 (p * 262144 + (q * 4096 + (r * 64 + t))) = [a, b, c, d]"
proof -
  define w where "w = p * 262144 + (q * 4096 + (r * 64 + t))"
  have w: "w = ((p * 64 + q) * 64 + r) * 64 + t" by (simp add: w_def)
  have 1: "w div 64 = (p * 64 + q) * 64 + r" "w mod 64 = t"
    unfolding w by (rule divmod_64 [OF assms(8)])+
  have 2: "w div 4096 = p * 64 + q" using assms 1 div_mult2_eq [of w 64 64] by (simp add: divmod_64)
  have 3: "w div 262144 = p" using assms 2 div_mult2_eq [of w 4096 64] by (simp add: divmod_64)
  have 4: "w div 64 mod 64 = r" unfolding 1 by (rule divmod_64 [OF assms(6)])
  have 5: "w div 4096 mod 64 = q" unfolding 2 by (rule divmod_64 [OF assms(4)])
  have "w < 2097152" using assms by (simp add: w_def)
  then show ?thesis
    unfolding w_def [symmetric]
    using assms byte_unat [of a] byte_unat [of b] byte_unat [of c] byte_unat [of d]
    by (simp add: switch_case_4_eq 1(2) 3 4 5)
qed

text \<open>The byte sequences the decoders accept.\<close>

definition utf8_seq_2 :: "uchar \<Rightarrow> uchar \<Rightarrow> nat \<Rightarrow> bool" where
  "utf8_seq_2 a b wc \<longleftrightarrow> (\<exists>p q. unat a = p + 192 \<and> 2 \<le> p \<and> p < 32 \<and> unat b = q + 128 \<and> q < 64 \<and>
     wc = p * 64 + q)"

definition utf8_seq_3 :: "uchar \<Rightarrow> uchar \<Rightarrow> uchar \<Rightarrow> nat \<Rightarrow> bool" where
  "utf8_seq_3 a b c wc \<longleftrightarrow> (\<exists>p q r. unat a = p + 224 \<and> p < 16 \<and> unat b = q + 128 \<and> q < 64 \<and>
     unat c = r + 128 \<and> r < 64 \<and> (1 \<le> p \<or> 32 \<le> q) \<and> wc = p * 4096 + (q * 64 + r))"

definition utf8_seq_4 :: "uchar \<Rightarrow> uchar \<Rightarrow> uchar \<Rightarrow> uchar \<Rightarrow> nat \<Rightarrow> bool" where
  "utf8_seq_4 a b c d wc \<longleftrightarrow> (\<exists>p q r t. unat a = p + 240 \<and> p < 5 \<and> unat b = q + 128 \<and> q < 64 \<and>
     unat c = r + 128 \<and> r < 64 \<and> unat d = t + 128 \<and> t < 64 \<and> (1 \<le> p \<or> 16 \<le> q) \<and>
     (p \<le> 3 \<or> q < 16) \<and> wc = p * 262144 + (q * 4096 + (r * 64 + t)))"

lemma cont_split:
  assumes "IS_CONTINUATION_BYTE b"
  obtains q where "unat b = q + 128" "q < 64"
  using assms that [of "unat b - 128"] by (auto simp: cont_byte)

lemma utf8_seq_2I:
  assumes "194 \<le> unat a" "unat a < 224" "IS_CONTINUATION_BYTE b"
  shows "utf8_seq_2 a b (push_bit 6 (unat (a AND 0x1f)) OR unat (b XOR 0x80))"
proof -
  obtain p where p: "unat a = p + 192" "2 \<le> p" "p < 32"
    using assms by (intro that [of "unat a - 192"]) auto
  obtain q where "unat b = q + 128" "q < 64" using assms(3) by (rule cont_split)
  moreover have "unat a mod 32 = p" using p mod_mult_self1 [of p 6 32] by simp
  ultimately show ?thesis
    unfolding utf8_seq_2_def wc_2 [OF assms(3)] using p
    by (intro exI [of _ p] exI [of _ q]) simp
qed

lemma utf8_seq_3I:
  assumes "224 \<le> unat a" "unat a < 240" "IS_CONTINUATION_BYTE b" "IS_CONTINUATION_BYTE c"
    and "225 \<le> unat a \<or> 160 \<le> unat b"
  shows "utf8_seq_3 a b c (push_bit 12 (unat (a AND 0x0f)) OR push_bit 6 (unat (b XOR 0x80)) OR
    unat (c XOR 0x80))"
proof -
  obtain p where p: "unat a = p + 224" "p < 16"
    using assms by (intro that [of "unat a - 224"]) auto
  obtain q where q: "unat b = q + 128" "q < 64" using assms(3) by (rule cont_split)
  obtain r where r: "unat c = r + 128" "r < 64" using assms(4) by (rule cont_split)
  have "unat a mod 16 = p" using p mod_mult_self1 [of p 14 16] by simp
  moreover have "1 \<le> p \<or> 32 \<le> q" using assms(5) p q by auto
  ultimately show ?thesis
    unfolding utf8_seq_3_def wc_3 [OF assms(3,4)] using p q r
    by (intro exI [of _ p] exI [of _ q] exI [of _ r]) simp
qed

lemma utf8_seq_4I:
  assumes "240 \<le> unat a" "unat a < 245"
    and "IS_CONTINUATION_BYTE b" "IS_CONTINUATION_BYTE c" "IS_CONTINUATION_BYTE d"
    and "241 \<le> unat a \<or> 144 \<le> unat b" "unat a \<le> 243 \<or> unat b \<le> 143"
  shows "utf8_seq_4 a b c d (push_bit 18 (unat (a AND 0x07)) OR push_bit 12 (unat (b XOR 0x80)) OR
    push_bit 6 (unat (c XOR 0x80)) OR unat (d XOR 0x80))"
proof -
  obtain p where p: "unat a = p + 240" "p < 5"
    using assms by (intro that [of "unat a - 240"]) auto
  obtain q where q: "unat b = q + 128" "q < 64" using assms(3) by (rule cont_split)
  obtain r where r: "unat c = r + 128" "r < 64" using assms(4) by (rule cont_split)
  obtain t where t: "unat d = t + 128" "t < 64" using assms(5) by (rule cont_split)
  have "unat a mod 8 = p" using p mod_mult_self1 [of p 30 8] by simp
  moreover have "1 \<le> p \<or> 16 \<le> q" "p \<le> 3 \<or> q < 16" using assms(6,7) p q by auto
  ultimately show ?thesis
    unfolding utf8_seq_4_def wc_4 [OF assms(3,4,5)] using p q r t
    by (intro exI [of _ p] exI [of _ q] exI [of _ r] exI [of _ t]) simp
qed

lemma mb4_accepts:
  assumes "my_mb_wc_utf8mb4 s = (n, Some wc)"
  shows "(\<exists>a ys. s = a # ys \<and> unat a < 128 \<and> wc = unat a \<and> n = 1) \<or>
    (\<exists>a b ys. s = a # b # ys \<and> utf8_seq_2 a b wc \<and> n = 2) \<or>
    (\<exists>a b c ys. s = a # b # c # ys \<and> utf8_seq_3 a b c wc \<and> n = 3) \<or>
    (\<exists>a b c d ys. s = a # b # c # d # ys \<and> utf8_seq_4 a b c d wc \<and> n = 4)"
proof -
  obtain a s1 where s: "s = a # s1"
    using assms by (cases s) (auto simp: my_mb_wc_utf8mb4_def)
  consider "unat a < 128" | "194 \<le> unat a" "unat a < 224" | "224 \<le> unat a" "unat a < 240"
    | "240 \<le> unat a" "unat a < 245" | "128 \<le> unat a" "unat a < 194" | "245 \<le> unat a"
    by linarith
  then show ?thesis
  proof cases
    case 1
    then show ?thesis using assms decode_1(2) [of a s1] by (simp add: s)
  next
    case 2
    then obtain b s2 where s1: "s1 = b # s2" and b: "IS_CONTINUATION_BYTE b"
      and "n = 2" "wc = push_bit 6 (unat (a AND 0x1f)) OR unat (b XOR 0x80)"
      using assms by (cases s1) (auto simp: my_mb_wc_utf8mb4_def byte_order s split: if_splits)
    with utf8_seq_2I [OF 2 b] show ?thesis by (auto simp: s s1)
  next
    case 3
    then obtain b c s3 where s1: "s1 = b # c # s3"
      using assms by (cases s1; cases "tl s1") (auto simp: my_mb_wc_utf8mb4_def byte_order s split: if_splits)
    then have b: "IS_CONTINUATION_BYTE b" and c: "IS_CONTINUATION_BYTE c"
      and r: "225 \<le> unat a \<or> 160 \<le> unat b" and "n = 3"
      and "wc = push_bit 12 (unat (a AND 0x0f)) OR push_bit 6 (unat (b XOR 0x80)) OR unat (c XOR 0x80)"
      using assms 3 by (auto simp: my_mb_wc_utf8mb4_def byte_order s split: if_splits)
    with utf8_seq_3I [OF 3 b c r] show ?thesis by (auto simp: s s1)
  next
    case 4
    then obtain b c d s4 where s1: "s1 = b # c # d # s4"
      using assms by (cases s1; cases "tl s1"; cases "tl (tl s1)")
        (auto simp: my_mb_wc_utf8mb4_def byte_order s split: if_splits)
    then have b: "IS_CONTINUATION_BYTE b" and c: "IS_CONTINUATION_BYTE c" and d: "IS_CONTINUATION_BYTE d"
      and r: "241 \<le> unat a \<or> 144 \<le> unat b" "unat a \<le> 243 \<or> unat b \<le> 143" and "n = 4"
      and "wc = push_bit 18 (unat (a AND 0x07)) OR push_bit 12 (unat (b XOR 0x80)) OR
        push_bit 6 (unat (c XOR 0x80)) OR unat (d XOR 0x80)"
      using assms 4 by (auto simp: my_mb_wc_utf8mb4_def byte_order s split: if_splits)
    with utf8_seq_4I [OF 4 b c d r] show ?thesis by (auto simp: s s1)
  qed (use assms in \<open>simp_all add: my_mb_wc_utf8mb4_def byte_order s\<close>)
qed

text \<open>What the decoder accepts is the encoding of the character it returns.\<close>

lemma utf8mb4_encode_decode:
  assumes "my_mb_wc_utf8mb4 s = (n, Some wc)" and "nat n \<le> room"
  shows "0 < n \<and> nat n \<le> length s \<and> wc \<le> 0x10FFFF \<and> my_wc_mb_utf8mb4 wc room = (n, take (nat n) s)"
  using mb4_accepts [OF assms(1)]
proof (elim disjE exE conjE)
  fix a ys
  assume "s = a # ys" "unat a < 128" "wc = unat a" "n = 1"
  then show ?thesis using assms(2) by (simp add: my_wc_mb_utf8mb4_def switch_case_1_def)
next
  fix a b ys
  assume s: "s = a # b # ys" and c: "utf8_seq_2 a b wc" and "n = 2"
  from c obtain p q where h: "unat a = p + 192" "2 \<le> p" "p < 32" "unat b = q + 128" "q < 64"
    and "wc = p * 64 + q" unfolding utf8_seq_2_def by blast
  then show ?thesis
    using encode_2 [OF h(1,3,4,5)] assms(2) \<open>n = 2\<close> by (simp add: s my_wc_mb_utf8mb4_def)
next
  fix a b c ys
  assume s: "s = a # b # c # ys" and w: "utf8_seq_3 a b c wc" and "n = 3"
  from w obtain p q r where h: "unat a = p + 224" "p < 16" "unat b = q + 128" "q < 64"
    "unat c = r + 128" "r < 64" and "1 \<le> p \<or> 32 \<le> q" and wc: "wc = p * 4096 + (q * 64 + r)"
    unfolding utf8_seq_3_def by blast
  then have "0x800 \<le> wc" "wc < 0x10000" by auto
  then show ?thesis
    using encode_3 [OF h] assms(2) \<open>n = 3\<close> by (simp add: s my_wc_mb_utf8mb4_def wc [symmetric])
next
  fix a b c d ys
  assume s: "s = a # b # c # d # ys" and w: "utf8_seq_4 a b c d wc" and "n = 4"
  from w obtain p q r t where h: "unat a = p + 240" "p < 5" "unat b = q + 128" "q < 64"
    "unat c = r + 128" "r < 64" "unat d = t + 128" "t < 64"
    and g: "1 \<le> p \<or> 16 \<le> q" "p \<le> 3 \<or> q < 16"
    and wc: "wc = p * 262144 + (q * 4096 + (r * 64 + t))"
    unfolding utf8_seq_4_def by blast
  from g(1) have lo: "0x10000 \<le> wc" using wc by auto
  from g(2) have hi: "wc \<le> 0x10FFFF" using wc h by auto
  show ?thesis
    using encode_4 [OF h] assms(2) \<open>n = 4\<close> lo hi by (simp add: s my_wc_mb_utf8mb4_def wc [symmetric])
qed

text \<open>The three-byte codec is the four-byte one cut off at U+10000.\<close>

lemma utf8_uni_mb4:
  "my_utf8_uni s = (if s \<noteq> [] \<and> 240 \<le> unat (s ! 0) then (MY_CS_ILSEQ, None) else my_mb_wc_utf8mb4 s)"
  by (auto simp: my_utf8_uni_def my_mb_wc_utf8mb4_def byte_order Let_def)

lemma uni_utf8_mb4:
  "my_uni_utf8 wc room =
    (if 0 < room \<and> 0x10000 \<le> wc then (MY_CS_ILUNI, []) else my_wc_mb_utf8mb4 wc room)"
  by (auto simp: my_uni_utf8_def my_wc_mb_utf8mb4_def)

lemma mb4_lead:
  assumes "my_mb_wc_utf8mb4 s = (n, Some wc)"
  shows "s \<noteq> [] \<and> (240 \<le> unat (s ! 0) \<longleftrightarrow> 0x10000 \<le> wc)"
  using mb4_accepts [OF assms]
proof (elim disjE exE conjE)
  fix a b ys
  assume "s = a # b # ys" "utf8_seq_2 a b wc"
  then show ?thesis by (auto simp: utf8_seq_2_def)
next
  fix a b c ys
  assume "s = a # b # c # ys" "utf8_seq_3 a b c wc"
  then show ?thesis by (auto simp: utf8_seq_3_def)
next
  fix a b c d ys
  assume s: "s = a # b # c # d # ys" and "utf8_seq_4 a b c d wc"
  then obtain p q r t where "unat a = p + 240" "1 \<le> p \<or> 16 \<le> q"
    "wc = p * 262144 + (q * 4096 + (r * 64 + t))" unfolding utf8_seq_4_def by blast
  then show ?thesis unfolding s by auto
qed simp

lemma utf8_encode_decode:
  assumes "my_utf8_uni s = (n, Some wc)" and "nat n \<le> room"
  shows "0 < n \<and> nat n \<le> length s \<and> wc < 0x10000 \<and> my_uni_utf8 wc room = (n, take (nat n) s)"
proof -
  have m: "my_mb_wc_utf8mb4 s = (n, Some wc)" and "s \<noteq> [] \<longrightarrow> unat (s ! 0) < 240"
    using assms(1) by (auto simp: utf8_uni_mb4 split: if_splits)
  with mb4_lead [OF m] have "wc < 0x10000" by auto
  with utf8mb4_encode_decode [OF m assms(2)] show ?thesis by (simp add: uni_utf8_mb4)
qed

text \<open>The length functions agree with the decoders.\<close>

lemma valid_mbcharlen_utf8mb4_eq: "my_valid_mbcharlen_utf8mb4 s = fst (my_mb_wc_utf8mb4 s)"
  by (auto simp: my_valid_mbcharlen_utf8mb4_def my_mb_wc_utf8mb4_def my_valid_mbcharlen_utf8mb3_def
      byte_order Let_def)

lemma valid_mbcharlen_utf8_eq: "my_valid_mbcharlen_utf8 s = fst (my_utf8_uni s)"
  by (auto simp: my_valid_mbcharlen_utf8_def my_utf8_uni_def my_valid_mbcharlen_utf8mb3_def
      byte_order Let_def)

lemma mb4_codes:
  "fst (my_mb_wc_utf8mb4 s) \<le> 0 \<longleftrightarrow> snd (my_mb_wc_utf8mb4 s) = None"
  "fst (my_mb_wc_utf8mb4 s) \<in> {MY_CS_ILSEQ, MY_CS_TOOSMALL, MY_CS_TOOSMALL2, MY_CS_TOOSMALL3,
     MY_CS_TOOSMALL4, 1, 2, 3, 4}"
  by (auto simp: my_mb_wc_utf8mb4_def cs_codes Let_def)

end
