(* ===== verification/CharsetConv.thy ===== *)
theory CharsetConv
  imports Utf8
begin

text \<open>
  Conversion between character sets (\<open>copy_and_convert\<close> of \<open>sql/sql_string.cc\<close>): characters are
  decoded with the \<open>mb_wc\<close> of the source set and encoded with the \<open>wc_mb\<close> of the target set,
  with a fast path for ASCII.  The locale \<open>codec\<close> states what a character set's pair of functions
  promises; it is interpreted on the \<open>utf8\<close>, \<open>utf8mb4\<close> and binary codecs, and the conversion
  results are proved once for every pair of codecs.
\<close>

section \<open>Character sets\<close>

text \<open>The part of \<open>CHARSET_INFO\<close> that conversion uses; \<open>mb_wc\<close> and \<open>wc_mb\<close> are the function
  pointers of its handler.\<close>

record CHARSET_INFO =
  cs_number :: nat
  csname :: string
  cs_state :: nat
  mbminlen :: nat
  mbmaxlen :: nat
  mb_wc :: "uchar list \<Rightarrow> int \<times> nat option"
  wc_mb :: "nat \<Rightarrow> nat \<Rightarrow> int \<times> uchar list"

definition MY_CS_COMPILED :: nat where "MY_CS_COMPILED = 1"
definition MY_CS_BINSORT :: nat where "MY_CS_BINSORT = 16"
definition MY_CS_PRIMARY :: nat where "MY_CS_PRIMARY = 32"
definition MY_CS_STRNXFRM :: nat where "MY_CS_STRNXFRM = 64"
definition MY_CS_UNICODE :: nat where "MY_CS_UNICODE = 128"
definition MY_CS_NONASCII :: nat where "MY_CS_NONASCII = 8192"
definition MY_CS_UNICODE_SUPPLEMENT :: nat where "MY_CS_UNICODE_SUPPLEMENT = 16384"

definition my_charset_same :: "CHARSET_INFO \<Rightarrow> CHARSET_INFO \<Rightarrow> bool" where
  "my_charset_same cs1 cs2 \<longleftrightarrow> cs_number cs1 = cs_number cs2 \<or> csname cs1 = csname cs2"

definition my_charset_bin :: CHARSET_INFO where
  "my_charset_bin = \<lparr>cs_number = 63, csname = ''binary'',
     cs_state = MY_CS_COMPILED OR MY_CS_BINSORT OR MY_CS_PRIMARY, mbminlen = 1, mbmaxlen = 1,
     mb_wc = my_mb_wc_bin, wc_mb = my_wc_mb_bin\<rparr>"

definition my_charset_utf8_general_ci :: CHARSET_INFO where
  "my_charset_utf8_general_ci = \<lparr>cs_number = 33, csname = ''utf8'',
     cs_state = MY_CS_COMPILED OR MY_CS_PRIMARY OR MY_CS_STRNXFRM OR MY_CS_UNICODE, mbminlen = 1,
     mbmaxlen = 3, mb_wc = my_utf8_uni, wc_mb = my_uni_utf8\<rparr>"

definition my_charset_utf8mb4_general_ci :: CHARSET_INFO where
  "my_charset_utf8mb4_general_ci = \<lparr>cs_number = 45, csname = ''utf8mb4'',
     cs_state = MY_CS_COMPILED OR MY_CS_PRIMARY OR MY_CS_STRNXFRM OR MY_CS_UNICODE OR
       MY_CS_UNICODE_SUPPLEMENT, mbminlen = 1,
     mbmaxlen = 4, mb_wc = my_mb_wc_utf8mb4, wc_mb = my_wc_mb_utf8mb4\<rparr>"

section \<open>Conversion\<close>

text \<open>Encoding one character at \<open>outp\<close>: a character the target set lacks becomes a question
  mark (code 63).  \<open>None\<close> leaves the loop.\<close>

definition convert_outp ::
  "CHARSET_INFO \<Rightarrow> nat \<Rightarrow> nat \<Rightarrow> nat \<Rightarrow> (int \<times> uchar list) option \<times> nat" where
  "convert_outp to_cs wc room error_count =
     (case wc_mb to_cs wc room of (cnvres, bs) \<Rightarrow>
        if cnvres > 0 then (Some (cnvres, bs), error_count)
        else if cnvres = MY_CS_ILUNI \<and> wc \<noteq> 63 then
          (case wc_mb to_cs 63 room of (cnvres, bs) \<Rightarrow>
             (if cnvres > 0 then Some (cnvres, bs) else None, u32 (int error_count + 1)))
        else (None, error_count))"

text \<open>The result of the source's \<open>mb_wc\<close>: the number of bytes to skip, the character and the error
  count.  \<open>None\<close> leaves the loop.\<close>

definition convert_inp :: "CHARSET_INFO \<Rightarrow> uchar list \<Rightarrow> nat \<Rightarrow> (nat \<times> nat option \<times> nat) option" where
  "convert_inp from_cs from error_count =
     (case mb_wc from_cs from of (cnvres, wc) \<Rightarrow>
        if cnvres > 0 then Some (nat cnvres, wc, error_count)
        else if cnvres = MY_CS_ILSEQ then Some (1, Some 63, u32 (int error_count + 1))
        else if cnvres > MY_CS_TOOSMALL then Some (nat (- cnvres), Some 63, u32 (int error_count + 1))
        else None)"

text \<open>The conversion loop: the bytes written to \<open>to\<close>, of which there is room for \<open>room\<close>, and
  \<open>*errors\<close>.  \<open>None\<close> is a pointer that leaves its buffer or a character never assigned.\<close>

function convert_loop ::
  "CHARSET_INFO \<Rightarrow> CHARSET_INFO \<Rightarrow> nat \<Rightarrow> uchar list \<Rightarrow> nat \<Rightarrow> (uchar list \<times> nat) option" where
  "convert_loop to_cs from_cs room from error_count =
     (case convert_inp from_cs from error_count of
        None \<Rightarrow> Some ([], error_count)
      | Some (k, w, error_count) \<Rightarrow>
          if k = 0 \<or> length from < k then None
          else (case w of None \<Rightarrow> None | Some wc \<Rightarrow>
            (case convert_outp to_cs wc room error_count of
               (None, error_count) \<Rightarrow> Some ([], error_count)
             | (Some (cnvres, bs), error_count) \<Rightarrow>
                 if room < nat cnvres then None
                 else do {
                   (out, errors) \<leftarrow> convert_loop to_cs from_cs (room - nat cnvres) (drop k from) error_count;
                   Some (bs @ out, errors)
                 })))"
  by pat_completeness auto
termination
  by (relation "measure (\<lambda>(to_cs, from_cs, room, from, error_count). length from)") auto

declare convert_loop.simps [simp del]

definition copy_and_convert_extended ::
  "nat \<Rightarrow> CHARSET_INFO \<Rightarrow> uchar list \<Rightarrow> CHARSET_INFO \<Rightarrow> (uchar list \<times> nat) option" where
  "copy_and_convert_extended to_length to_cs from from_cs = convert_loop to_cs from_cs to_length from 0"

text \<open>The fast path: \<open>n\<close> counts down from the shorter of the two lengths.\<close>

fun copy_ascii ::
  "nat \<Rightarrow> CHARSET_INFO \<Rightarrow> uchar list \<Rightarrow> CHARSET_INFO \<Rightarrow> nat \<Rightarrow> (uchar list \<times> nat) option" where
  "copy_ascii to_length to_cs from from_cs 0 = Some ([], 0)"
| "copy_ascii to_length to_cs from from_cs (Suc n) = do {
     c \<leftarrow> get from 0;
     if c > 0x7F then copy_and_convert_extended to_length to_cs from from_cs
     else do {
       (out, errors) \<leftarrow> copy_ascii (to_length - 1) to_cs (drop 1 from) from_cs n;
       Some (c # out, errors)
     }
   }"

definition copy_and_convert ::
  "nat \<Rightarrow> CHARSET_INFO \<Rightarrow> uchar list \<Rightarrow> CHARSET_INFO \<Rightarrow> (uchar list \<times> nat) option" where
  "copy_and_convert to_length to_cs from from_cs =
     (if (cs_state to_cs OR cs_state from_cs) AND MY_CS_NONASCII \<noteq> 0
      then copy_and_convert_extended to_length to_cs from from_cs
      else copy_ascii to_length to_cs from from_cs (min to_length (length from)))"

section \<open>What a codec promises\<close>

text \<open>\<open>encode\<close> gives the bytes of a character, \<open>known\<close> the characters the set has.\<close>

locale codec =
  fixes cs :: CHARSET_INFO and encode :: "nat \<Rightarrow> uchar list" and known :: "nat \<Rightarrow> bool"
  assumes encode_wc_mb: "known wc \<Longrightarrow> length (encode wc) \<le> room \<Longrightarrow>
      wc_mb cs wc room = (int (length (encode wc)), encode wc)"
    and encode_nonempty: "known wc \<Longrightarrow> encode wc \<noteq> []"
    and reject_wc_mb: "\<not> known wc \<Longrightarrow> wc \<le> 0x10FFFF \<Longrightarrow> 0 < room \<Longrightarrow>
      wc_mb cs wc room = (MY_CS_ILUNI, [])"
    and decode_encode: "known wc \<Longrightarrow> mb_wc cs (encode wc @ ys) = (int (length (encode wc)), Some wc)"
    and decode_empty: "mb_wc cs [] = (MY_CS_TOOSMALL, None)"
    and known_ascii: "wc < 128 \<Longrightarrow> known wc"
    and known_unicode: "known wc \<Longrightarrow> wc \<le> 0x10FFFF"
    and decode_length: "mb_wc cs s = (n, w) \<Longrightarrow> 0 < n \<Longrightarrow> nat n \<le> length s \<and> w \<noteq> None"
    and decode_ascii: "unat c < 128 \<Longrightarrow> mb_wc cs (c # ys) = (1, Some (unat c))"
    and encode_ascii: "wc < 128 \<Longrightarrow> encode wc = [of_nat wc]"
    and state_ascii: "cs_state cs AND MY_CS_NONASCII = 0"
begin

text \<open>The bytes of a string of characters.\<close>

definition encode_all :: "nat list \<Rightarrow> uchar list" where
  "encode_all wcs = concat (map encode wcs)"

lemma encode_all_simps [simp]:
  "encode_all [] = []" "encode_all (wc # wcs) = encode wc @ encode_all wcs"
  by (simp_all add: encode_all_def)

end

text \<open>Two codecs: what conversion from the first to the second does.\<close>

locale conversion =
  src: codec from_cs encode known + dst: codec to_cs encode' known'
  for from_cs encode known to_cs encode' known'
begin

definition substitute :: "nat \<Rightarrow> nat" where
  "substitute wc = (if known' wc then wc else 63)"

lemma known_substitute: "known' (substitute wc)"
  by (simp add: substitute_def dst.known_ascii)

lemma outp:
  assumes "known wc" and "length (encode' (substitute wc)) \<le> room"
  shows "convert_outp to_cs wc room e =
    (Some (int (length (encode' (substitute wc))), encode' (substitute wc)),
     if known' wc then e else u32 (int e + 1))"
proof -
  have pos: "0 < length (encode' (substitute wc))"
    using dst.encode_nonempty [OF known_substitute] by simp
  have enc: "wc_mb to_cs (substitute wc) room =
      (int (length (encode' (substitute wc))), encode' (substitute wc))"
    by (rule dst.encode_wc_mb [OF known_substitute assms(2)])
  show ?thesis
  proof (cases "known' wc")
    case True
    then show ?thesis using enc pos by (simp add: convert_outp_def substitute_def)
  next
    case False
    then have "wc \<noteq> 63" using dst.known_ascii [of 63] by auto
    moreover have "0 < room" using pos assms(2) by linarith
    then have "wc_mb to_cs wc room = (MY_CS_ILUNI, [])"
      by (rule dst.reject_wc_mb [OF False src.known_unicode [OF assms(1)]])
    ultimately show ?thesis
      using enc pos False by (simp add: convert_outp_def substitute_def cs_codes)
  qed
qed

lemma inp: "known wc \<Longrightarrow> convert_inp from_cs (encode wc @ ys) e = Some (length (encode wc), Some wc, e)"
  using src.decode_encode [of wc ys] src.encode_nonempty [of wc] by (simp add: convert_inp_def)

lemma convert_step:
  assumes "known wc" and "length (encode' (substitute wc)) \<le> room"
  shows "convert_loop to_cs from_cs room (encode wc @ ys) e = do {
    (out, errors) \<leftarrow> convert_loop to_cs from_cs (room - length (encode' (substitute wc))) ys
      (if known' wc then e else u32 (int e + 1));
    Some (encode' (substitute wc) @ out, errors)
  }"
  using assms src.encode_nonempty [OF assms(1)]
  by (subst convert_loop.simps) (simp add: inp outp)

text \<open>Well-formed input is converted character by character.\<close>

lemma convert_chars:
  assumes "\<forall>wc \<in> set wcs. known wc" and "length (dst.encode_all (map substitute wcs)) \<le> room"
    and "e + length wcs < 2 ^ 32"
  shows "convert_loop to_cs from_cs room (src.encode_all wcs) e =
    Some (dst.encode_all (map substitute wcs), e + length (filter (\<lambda>wc. \<not> known' wc) wcs))"
  using assms
proof (induction wcs arbitrary: room e)
  case Nil
  then show ?case
    by (subst convert_loop.simps) (simp add: convert_inp_def src.decode_empty cs_codes)
next
  case (Cons wc wcs)
  let ?e = "if known' wc then e else u32 (int e + 1)"
  have e: "?e = (if known' wc then e else e + 1)"
    using Cons.prems(3) u32_of_nat [of "e + 1"] by (simp add: add.commute)
  have "convert_loop to_cs from_cs (room - length (encode' (substitute wc))) (src.encode_all wcs) ?e =
      Some (dst.encode_all (map substitute wcs), ?e + length (filter (\<lambda>wc. \<not> known' wc) wcs))"
    using Cons.prems unfolding e by (intro Cons.IH) auto
  with convert_step [of wc room "src.encode_all wcs" e] Cons.prems show ?case
    by (simp add: e)
qed

text \<open>The fast path computes what the general loop computes.\<close>

lemma convert_ascii:
  assumes "unat c < 128" and "0 < room"
  shows "convert_loop to_cs from_cs room (c # ys) e = do {
    (out, errors) \<leftarrow> convert_loop to_cs from_cs (room - 1) ys e;
    Some (c # out, errors)
  }"
proof -
  have "convert_inp from_cs (c # ys) e = Some (1, Some (unat c), e)"
    using src.decode_ascii [OF assms(1)] by (simp add: convert_inp_def)
  moreover have "convert_outp to_cs (unat c) room e = (Some (1, [c]), e)"
    using dst.encode_wc_mb [OF dst.known_ascii [OF assms(1)], of room] dst.encode_ascii [OF assms(1)]
      assms(2) by (simp add: convert_outp_def)
  ultimately show ?thesis using assms(2) by (subst convert_loop.simps) simp
qed

lemma copy_ascii_eq:
  "length from \<le> room \<Longrightarrow> copy_ascii room to_cs from from_cs (length from) =
    convert_loop to_cs from_cs room from 0"
proof (induction "from" arbitrary: room)
  case Nil
  show ?case by (subst convert_loop.simps) (simp add: convert_inp_def src.decode_empty cs_codes)
next
  case (Cons c "from")
  show ?case
  proof (cases "unat c < 128")
    case True
    then have "\<not> c > 0x7F" by (simp add: word_less_nat_alt)
    then show ?thesis using Cons convert_ascii [OF True] by (simp add: get_def)
  next
    case False
    then have "c > 0x7F" by (simp add: word_less_nat_alt)
    then show ?thesis by (simp add: get_def copy_and_convert_extended_def)
  qed
qed

lemma copy_and_convert_eq:
  assumes "length from \<le> to_length"
  shows "copy_and_convert to_length to_cs from from_cs =
    copy_and_convert_extended to_length to_cs from from_cs"
  using copy_ascii_eq [OF assms] assms
  by (simp add: copy_and_convert_def copy_and_convert_extended_def min_absorb2)

lemma copy_and_convert_chars:
  assumes "\<forall>wc \<in> set wcs. known wc" and "length (dst.encode_all (map substitute wcs)) \<le> to_length"
    and "length (src.encode_all wcs) \<le> to_length" and "length wcs < 2 ^ 32"
  shows "copy_and_convert to_length to_cs (src.encode_all wcs) from_cs =
    Some (dst.encode_all (map substitute wcs), length (filter (\<lambda>wc. \<not> known' wc) wcs))"
  using convert_chars [OF assms(1,2), of 0] assms(4)
  by (simp add: copy_and_convert_eq [OF assms(3)] copy_and_convert_extended_def)

end

section \<open>The codecs of the server\<close>

definition utf8_bytes :: "nat \<Rightarrow> uchar list" where
  "utf8_bytes wc = snd (my_wc_mb_utf8mb4 wc 4)"

definition in_bmp :: "nat \<Rightarrow> bool" where
  "in_bmp wc \<longleftrightarrow> wc < 0x10000"

definition in_unicode :: "nat \<Rightarrow> bool" where
  "in_unicode wc \<longleftrightarrow> wc \<le> 0x10FFFF"

lemma utf8_bytes_simps:
  "wc < 0x80 \<Longrightarrow> utf8_bytes wc = switch_case_1 wc"
  "0x80 \<le> wc \<Longrightarrow> wc < 0x800 \<Longrightarrow> utf8_bytes wc = switch_case_2 wc"
  "0x800 \<le> wc \<Longrightarrow> wc < 0x10000 \<Longrightarrow> utf8_bytes wc = switch_case_3 wc"
  "0x10000 \<le> wc \<Longrightarrow> wc < 0x200000 \<Longrightarrow> utf8_bytes wc = switch_case_4 wc"
  by (simp_all add: utf8_bytes_def my_wc_mb_utf8mb4_def)

lemma utf8mb4_codec_laws:
  assumes "in_unicode wc"
  shows "length (utf8_bytes wc) \<le> room \<Longrightarrow> my_wc_mb_utf8mb4 wc room = (int (length (utf8_bytes wc)), utf8_bytes wc)"
    and "utf8_bytes wc \<noteq> []" and "length (utf8_bytes wc) \<le> 4"
    and "my_mb_wc_utf8mb4 (utf8_bytes wc @ ys) = (int (length (utf8_bytes wc)), Some wc)"
proof -
  consider "wc < 0x80" | "0x80 \<le> wc" "wc < 0x800" | "0x800 \<le> wc" "wc < 0x10000"
    | "0x10000 \<le> wc" "wc \<le> 0x10FFFF"
    using assms unfolding in_unicode_def by linarith
  note c = this
  show "length (utf8_bytes wc) \<le> room \<Longrightarrow> my_wc_mb_utf8mb4 wc room = (int (length (utf8_bytes wc)), utf8_bytes wc)"
    by (cases rule: c) (auto simp: utf8_bytes_simps my_wc_mb_utf8mb4_def)
  have l: "length (utf8_bytes wc) \<in> {1, 2, 3, 4}"
    by (cases rule: c) (simp_all add: utf8_bytes_simps)
  then show "utf8_bytes wc \<noteq> []" "length (utf8_bytes wc) \<le> 4" by auto
  show "my_mb_wc_utf8mb4 (utf8_bytes wc @ ys) = (int (length (utf8_bytes wc)), Some wc)"
    by (cases rule: c) (simp_all add: utf8_bytes_simps decode_switch)
qed

lemma mb4_decode_length: "my_mb_wc_utf8mb4 s = (n, w) \<Longrightarrow> 0 < n \<Longrightarrow> nat n \<le> length s \<and> w \<noteq> None"
  using utf8mb4_encode_decode [of s n _ "nat n"] mb4_codes(1) [of s] by (cases w) auto

lemma utf8_decode_length: "my_utf8_uni s = (n, w) \<Longrightarrow> 0 < n \<Longrightarrow> nat n \<le> length s \<and> w \<noteq> None"
  using mb4_decode_length [of s n w] by (auto simp: utf8_uni_mb4 cs_codes split: if_splits)

lemma ascii_bytes: "wc < 128 \<Longrightarrow> utf8_bytes wc = [of_nat wc]"
  by (simp add: utf8_bytes_simps switch_case_1_def)

lemma state_flags:
  "cs_state my_charset_utf8mb4_general_ci AND MY_CS_NONASCII = 0"
  "cs_state my_charset_utf8_general_ci AND MY_CS_NONASCII = 0"
  "cs_state my_charset_bin AND MY_CS_NONASCII = 0"
  by (simp_all add: my_charset_utf8mb4_general_ci_def my_charset_utf8_general_ci_def my_charset_bin_def
      MY_CS_COMPILED_def MY_CS_BINSORT_def MY_CS_PRIMARY_def MY_CS_STRNXFRM_def MY_CS_UNICODE_def
      MY_CS_NONASCII_def MY_CS_UNICODE_SUPPLEMENT_def)

lemma utf8_lead:
  assumes "in_bmp wc"
  shows "my_utf8_uni (utf8_bytes wc @ ys) = (int (length (utf8_bytes wc)), Some wc)"
proof -
  have u: "in_unicode wc" using assms by (simp add: in_bmp_def in_unicode_def)
  show ?thesis
    using utf8mb4_codec_laws(4) [OF u, of ys] mb4_lead [OF utf8mb4_codec_laws(4) [OF u, of ys]] assms
    by (simp add: utf8_uni_mb4 in_bmp_def)
qed

lemma charset_handlers [simp]:
  "mb_wc my_charset_utf8mb4_general_ci = my_mb_wc_utf8mb4"
  "wc_mb my_charset_utf8mb4_general_ci = my_wc_mb_utf8mb4"
  "mb_wc my_charset_utf8_general_ci = my_utf8_uni"
  "wc_mb my_charset_utf8_general_ci = my_uni_utf8"
  "mb_wc my_charset_bin = my_mb_wc_bin"
  "wc_mb my_charset_bin = my_wc_mb_bin"
  by (simp_all add: my_charset_utf8mb4_general_ci_def my_charset_utf8_general_ci_def my_charset_bin_def)

lemma bmp_unicode: "in_bmp wc \<Longrightarrow> in_unicode wc"
  by (simp add: in_bmp_def in_unicode_def)

lemma utf8_codec_laws:
  assumes "in_bmp wc" and "length (utf8_bytes wc) \<le> room"
  shows "my_uni_utf8 wc room = (int (length (utf8_bytes wc)), utf8_bytes wc)"
  using utf8mb4_codec_laws(1) [OF bmp_unicode [OF assms(1)] assms(2)] assms(1)
  by (simp add: uni_utf8_mb4 in_bmp_def)

interpretation u8mb4: codec my_charset_utf8mb4_general_ci utf8_bytes in_unicode
proof
  show "mb_wc my_charset_utf8mb4_general_ci [] = (MY_CS_TOOSMALL, None)"
    by (simp add: my_mb_wc_utf8mb4_def)
  show "\<And>s n w. mb_wc my_charset_utf8mb4_general_ci s = (n, w) \<Longrightarrow> 0 < n \<Longrightarrow> nat n \<le> length s \<and> w \<noteq> None"
    using mb4_decode_length by simp
qed (simp_all add: utf8mb4_codec_laws decode_1 ascii_bytes state_flags, simp_all add: in_unicode_def)

interpretation u8mb3: codec my_charset_utf8_general_ci utf8_bytes in_bmp
proof
  show "mb_wc my_charset_utf8_general_ci [] = (MY_CS_TOOSMALL, None)"
    by (simp add: my_utf8_uni_def)
  show "\<And>s n w. mb_wc my_charset_utf8_general_ci s = (n, w) \<Longrightarrow> 0 < n \<Longrightarrow> nat n \<le> length s \<and> w \<noteq> None"
    using utf8_decode_length by simp
  show "\<And>wc. in_bmp wc \<Longrightarrow> utf8_bytes wc \<noteq> []"
    by (simp add: utf8mb4_codec_laws bmp_unicode)
qed (simp_all add: utf8_codec_laws utf8_lead decode_1 ascii_bytes state_flags,
    simp_all add: in_bmp_def uni_utf8_mb4)

interpretation binary: codec my_charset_bin "\<lambda>wc. [of_nat wc]" "\<lambda>wc. wc < 256"
  by standard (auto simp: my_mb_wc_bin_def my_wc_mb_bin_def state_flags unat_uchar cs_codes Suc_le_eq split: if_splits)

interpretation utf8_to_mb4: conversion my_charset_utf8_general_ci utf8_bytes in_bmp
  my_charset_utf8mb4_general_ci utf8_bytes in_unicode ..

interpretation mb4_to_utf8: conversion my_charset_utf8mb4_general_ci utf8_bytes in_unicode
  my_charset_utf8_general_ci utf8_bytes in_bmp ..

section \<open>Properties\<close>

text \<open>C9: The \<open>utf8mb4\<close> codec is a bijection between the Unicode characters U+0000 to U+10FFFF and
  the byte sequences its decoder accepts: encoding a character in any room of at least four
  bytes and decoding it, whatever follows, gives the character and the number of bytes stored;
  and whatever the decoder accepts lies inside the input and is the one encoding of a Unicode
  character, so that no overlong form is accepted.\<close>

theorem utf8mb4_roundtrip:
  "(\<forall>wc room ys. wc \<le> 0x10FFFF \<longrightarrow> 4 \<le> room \<longrightarrow>
     (\<exists>bs. bs \<noteq> [] \<and> length bs \<le> 4 \<and> my_wc_mb_utf8mb4 wc room = (int (length bs), bs) \<and>
       my_mb_wc_utf8mb4 (bs @ ys) = (int (length bs), Some wc))) \<and>
   (\<forall>s n wc. my_mb_wc_utf8mb4 s = (n, Some wc) \<longrightarrow>
     0 < n \<and> nat n \<le> length s \<and> wc \<le> 0x10FFFF \<and>
     my_wc_mb_utf8mb4 wc (nat n) = (n, take (nat n) s))"
proof (intro conjI allI impI)
  fix wc room :: nat and ys :: "uchar list"
  assume "wc \<le> 0x10FFFF" "4 \<le> room"
  then have u: "in_unicode wc" by (simp add: in_unicode_def)
  show "\<exists>bs. bs \<noteq> [] \<and> length bs \<le> 4 \<and> my_wc_mb_utf8mb4 wc room = (int (length bs), bs) \<and>
      my_mb_wc_utf8mb4 (bs @ ys) = (int (length bs), Some wc)"
    using utf8mb4_codec_laws [OF u] \<open>4 \<le> room\<close>
    by (intro exI [of _ "utf8_bytes wc"]) simp
qed (use utf8mb4_encode_decode in auto)

theorem utf8mb4_roundtrip_witness:
  "\<exists>bs. bs \<noteq> [] \<and> length bs \<le> 4 \<and> my_wc_mb_utf8mb4 0x20AC 4 = (int (length bs), bs) \<and>
    my_mb_wc_utf8mb4 (bs @ [0x41]) = (int (length bs), Some 0x20AC)"
  using utf8mb4_roundtrip by simp

lemma well_formed_prefix:
  assumes "my_well_formed_len_utf8mb4 b pos = (n, error)"
  shows "\<exists>wcs. (\<forall>wc \<in> set wcs. wc \<le> 0x10FFFF) \<and> length wcs \<le> pos \<and> n \<le> length b \<and>
    take n b = concat (map utf8_bytes wcs) \<and>
    (if error then n < length b \<and> length wcs < pos \<and> snd (my_mb_wc_utf8mb4 (drop n b)) = None
     else length wcs = pos \<or> n = length b)"
  using assms
proof (induction b pos arbitrary: n error rule: my_well_formed_len_utf8mb4.induct)
  case (1 b)
  then show ?case by (intro exI [of _ "[]"]) auto
next
  case (2 b pos)
  let ?l = "my_valid_mbcharlen_utf8mb4 b"
  show ?case
  proof (cases "?l \<le> 0")
    case True
    then have "n = 0" "error = (b \<noteq> [])" using "2.prems" by (auto simp: Let_def)
    moreover have "snd (my_mb_wc_utf8mb4 b) = None"
      using True mb4_codes(1) [of b] by (simp add: valid_mbcharlen_utf8mb4_eq)
    ultimately show ?thesis by (intro exI [of _ "[]"]) auto
  next
    case False
    then obtain k wc where d: "my_mb_wc_utf8mb4 b = (int k, Some wc)" and l: "?l = int k" and "0 < k"
      using mb4_codes(1) [of b]
      by (cases "my_mb_wc_utf8mb4 b"; cases "fst (my_mb_wc_utf8mb4 b)")
        (auto simp: valid_mbcharlen_utf8mb4_eq)
    have e: "k \<le> length b" "wc \<le> 0x10FFFF" "utf8_bytes wc = take k b"
      using utf8mb4_encode_decode [OF d, of 4] mb4_codes(2) [of b] d
      by (auto simp: utf8_bytes_def cs_codes)
    obtain m where m: "my_well_formed_len_utf8mb4 (drop k b) pos = (m, error)" and n: "n = k + m"
      using "2.prems" False l by (auto simp: Let_def split: prod.splits)
    have nk: "nat ?l = k" using l by simp
    obtain wcs where
      w: "\<forall>wc \<in> set wcs. wc \<le> 0x10FFFF" "length wcs \<le> pos" "m \<le> length (drop k b)"
        "take m (drop k b) = concat (map utf8_bytes wcs)"
        "if error then m < length (drop k b) \<and> length wcs < pos \<and>
           snd (my_mb_wc_utf8mb4 (drop m (drop k b))) = None
         else length wcs = pos \<or> m = length (drop k b)"
      using "2.IH" [OF refl False, unfolded nk, OF m] by blast
    have "take n b = concat (map utf8_bytes (wc # wcs))"
      using w(4) e(3) by (simp add: n take_add)
    moreover have "drop m (drop k b) = drop n b" by (simp add: n add.commute)
    ultimately show ?thesis
      using w e n by (intro exI [of _ "wc # wcs"]) (auto split: if_splits)
  qed
qed

text \<open>C25: \<open>my_well_formed_len_utf8mb4\<close> finds the well-formed beginning of a string: the bytes it
  measures are the encoding of at most \<open>pos\<close> Unicode characters; it reports an error only when it
  stopped, before \<open>pos\<close> characters and before the end, at bytes the decoder rejects; and
  without an error it measured \<open>pos\<close> characters or the whole string.\<close>

theorem utf8mb4_well_formed_len:
  assumes "my_well_formed_len_utf8mb4 b pos = (n, error)"
  shows "\<exists>wcs. (\<forall>wc \<in> set wcs. wc \<le> 0x10FFFF) \<and> length wcs \<le> pos \<and> n \<le> length b \<and>
    take n b = concat (map (\<lambda>wc. snd (my_wc_mb_utf8mb4 wc 4)) wcs) \<and>
    (if error then n < length b \<and> length wcs < pos \<and> snd (my_mb_wc_utf8mb4 (drop n b)) = None
     else length wcs = pos \<or> n = length b)"
  using well_formed_prefix [OF assms] by (simp add: utf8_bytes_def [abs_def])

theorem utf8mb4_well_formed_len_witness:
  "my_well_formed_len_utf8mb4 [0x41, 0xC0, 0x80] 2 = (1, True) \<and>
   (\<exists>wcs. length wcs < 2 \<and> take 1 [0x41, 0xC0, 0x80] = concat (map (\<lambda>wc. snd (my_wc_mb_utf8mb4 wc 4)) wcs))"
proof -
  have "my_well_formed_len_utf8mb4 [0x41, 0xC0, 0x80] (Suc (Suc 0)) = (1, True)"
    by (simp add: my_valid_mbcharlen_utf8mb4_def my_valid_mbcharlen_utf8mb3_def cs_codes)
  then have w: "my_well_formed_len_utf8mb4 [0x41, 0xC0, 0x80] 2 = (1, True)"
    by (simp only: numeral_2_eq_2)
  from utf8mb4_well_formed_len [OF w] w show ?thesis by auto
qed

lemma substitute_bmp: "mb4_to_utf8.substitute wc = (if wc < 0x10000 then wc else 63)"
  by (simp add: mb4_to_utf8.substitute_def in_bmp_def)

lemma substitute_shorter:
  assumes "\<forall>wc \<in> set wcs. wc \<le> 0x10FFFF"
  shows "length (u8mb3.encode_all (map mb4_to_utf8.substitute wcs)) \<le> length (u8mb4.encode_all wcs)"
  using assms
proof (induction wcs)
  case (Cons w ws)
  have "utf8_bytes 63 = [63]" using ascii_bytes [of 63] by simp
  moreover have "0 < length (utf8_bytes w)"
    using utf8mb4_codec_laws(2) [of w] Cons.prems by (simp add: in_unicode_def)
  ultimately have "length (utf8_bytes (mb4_to_utf8.substitute w)) \<le> length (utf8_bytes w)"
    by (simp add: substitute_bmp Suc_le_eq)
  with Cons show ?case by simp
qed simp

text \<open>C13: Conversion between the two UTF-8 character sets, fast path included, works character by
  character: from \<open>utf8\<close> to \<open>utf8mb4\<close> it is the identity and reports no error; from \<open>utf8mb4\<close> to
  \<open>utf8\<close> every character outside the basic multilingual plane, and no other, becomes a question
  mark, and the error count is the number of such characters.\<close>

theorem utf8_conversion:
  assumes "\<forall>wc \<in> set wcs. wc \<le> 0x10FFFF" and "length wcs < 2 ^ 32"
    and "s = concat (map (\<lambda>wc. snd (my_wc_mb_utf8mb4 wc 4)) wcs)" and "length s \<le> to_length"
  shows "copy_and_convert to_length my_charset_utf8_general_ci s my_charset_utf8mb4_general_ci =
      Some (concat (map (\<lambda>wc. snd (my_wc_mb_utf8mb4 (if wc < 0x10000 then wc else 63) 4)) wcs),
        length (filter (\<lambda>wc. 0x10000 \<le> wc) wcs)) \<and>
    ((\<forall>wc \<in> set wcs. wc < 0x10000) \<longrightarrow>
      copy_and_convert to_length my_charset_utf8mb4_general_ci s my_charset_utf8_general_ci = Some (s, 0))"
proof -
  have s: "s = u8mb4.encode_all wcs"
    using assms(3) unfolding u8mb4.encode_all_def utf8_bytes_def by simp
  show ?thesis
  proof (intro conjI impI)
    have "copy_and_convert to_length my_charset_utf8_general_ci (u8mb4.encode_all wcs)
        my_charset_utf8mb4_general_ci =
      Some (u8mb3.encode_all (map mb4_to_utf8.substitute wcs), length (filter (\<lambda>wc. \<not> in_bmp wc) wcs))"
      using assms(1,2,4) substitute_shorter [OF assms(1)]
      by (intro mb4_to_utf8.copy_and_convert_chars) (auto simp: s in_unicode_def)
    then show "copy_and_convert to_length my_charset_utf8_general_ci s my_charset_utf8mb4_general_ci =
      Some (concat (map (\<lambda>wc. snd (my_wc_mb_utf8mb4 (if wc < 0x10000 then wc else 63) 4)) wcs),
        length (filter (\<lambda>wc. 0x10000 \<le> wc) wcs))"
      by (simp add: s u8mb3.encode_all_def substitute_bmp o_def utf8_bytes_def in_bmp_def not_less)
  next
    assume bmp: "\<forall>wc \<in> set wcs. wc < 0x10000"
    then have id: "map utf8_to_mb4.substitute wcs = wcs" "filter (\<lambda>wc. \<not> in_unicode wc) wcs = []"
      by (auto simp: utf8_to_mb4.substitute_def in_unicode_def filter_empty_conv intro!: map_idI)
    have "copy_and_convert to_length my_charset_utf8mb4_general_ci (u8mb3.encode_all wcs)
        my_charset_utf8_general_ci =
      Some (u8mb4.encode_all (map utf8_to_mb4.substitute wcs), length (filter (\<lambda>wc. \<not> in_unicode wc) wcs))"
      using bmp assms(2,4)
      by (intro utf8_to_mb4.copy_and_convert_chars) (auto simp: in_bmp_def id simp flip: s)
    then show "copy_and_convert to_length my_charset_utf8mb4_general_ci s my_charset_utf8_general_ci =
        Some (s, 0)"
      unfolding id by (simp flip: s)
  qed
qed

theorem utf8_conversion_witness:
  "copy_and_convert 8 my_charset_utf8_general_ci (concat (map (\<lambda>wc. snd (my_wc_mb_utf8mb4 wc 4)) [0x41, 0x1F600]))
    my_charset_utf8mb4_general_ci = Some ([0x41, 0x3F], 1)"
proof -
  have e: "snd (my_wc_mb_utf8mb4 0x1F600 4) = switch_case_4 0x1F600"
    "snd (my_wc_mb_utf8mb4 0x41 4) = [0x41]" "snd (my_wc_mb_utf8mb4 63 4) = [0x3F]"
    by (simp_all add: my_wc_mb_utf8mb4_def switch_case_1_def)
  have l: "length (concat (map (\<lambda>wc. snd (my_wc_mb_utf8mb4 wc 4)) [0x41, 0x1F600])) \<le> 8"
    by (simp add: e)
  from utf8_conversion [OF _ _ refl l] show ?thesis by (simp add: e)
qed

lemma mb4_reject:
  assumes "244 \<le> unat a" and "unat a = 244 \<Longrightarrow> 144 \<le> unat b"
  shows "my_mb_wc_utf8mb4 (a # b # c # d # ys) = (MY_CS_ILSEQ, None)"
  using assms by (auto simp: my_mb_wc_utf8mb4_def byte_order Let_def)

text \<open>C36: \<open>my_wc_mb_utf8mb4\<close> does not stop at the last Unicode character: the numbers from 0x110000 to
  0x1FFFFF, which are not characters, are encoded in four bytes, and \<open>my_mb_wc_utf8mb4\<close> rejects
  every one of these encodings.\<close>

theorem utf8mb4_beyond_unicode:
  assumes "0x110000 \<le> wc" and "wc < 0x200000" and "4 \<le> room"
  shows "\<exists>bs. my_wc_mb_utf8mb4 wc room = (4, bs) \<and> my_mb_wc_utf8mb4 bs = (MY_CS_ILSEQ, None)"
proof -
  define m where "m = wc div 4096"
  have m: "272 \<le> m" "m < 512" using assms div_le_mono [of "0x110000" wc 4096]
    by (simp_all add: m_def less_mult_imp_div_less)
  have d: "wc div 262144 = m div 64" by (simp add: m_def div_mult2_eq [symmetric])
  have b: "unat (byte (m div 64 + 240)) = m div 64 + 240" "unat (byte (m mod 64 + 128)) = m mod 64 + 128"
    using m by (simp_all add: unat_of_byte less_mult_imp_div_less)
  have lead: "244 \<le> m div 64 + 240" using m div_le_mono [of 256 m 64] by simp
  have second: "m div 64 = 4 \<Longrightarrow> 16 \<le> m mod 64"
    using m div_mult_mod_eq [of m 64] by linarith
  have "my_mb_wc_utf8mb4 (switch_case_4 wc) = (MY_CS_ILSEQ, None)"
    unfolding switch_case_4_eq [OF assms(2) [simplified]] d m_def [symmetric]
    by (rule mb4_reject) (use lead second in \<open>simp_all add: b\<close>)
  then show ?thesis using assms by (auto simp: my_wc_mb_utf8mb4_def)
qed

theorem utf8mb4_beyond_unicode_witness:
  "\<exists>bs. my_wc_mb_utf8mb4 0x110000 4 = (4, bs) \<and> my_mb_wc_utf8mb4 bs = (MY_CS_ILSEQ, None)"
  using utf8mb4_beyond_unicode [of "0x110000" 4] by simp

text \<open>The decoders without an end pointer, on a string that ends in a NUL: they never read behind
  the NUL, and where the string ends inside a character they find an illegal sequence.\<close>

lemma nul_not_cont: "\<not> IS_CONTINUATION_BYTE 0"
  by (simp add: cont_byte)

lemma no_range_cases:
  assumes "my_mb_wc_utf8mb4 s = r" and "s \<noteq> []" and "m = s @ 0 # zs"
  shows "my_mb_wc_utf8mb4_no_range m = Some (if fst r < - 100 then (MY_CS_ILSEQ, None) else r)"
proof -
  obtain a s1 where s: "s = a # s1" using assms(2) by (cases s) auto
  consider "s1 = []" | b where "s1 = [b]" | b c where "s1 = [b, c]" | b c d s4 where "s1 = b # c # d # s4"
    by (cases s1; cases "tl s1"; cases "tl (tl s1)") auto
  then show ?thesis
    using nul_not_cont
    by cases (auto simp: assms(1) [symmetric] assms(3) s my_mb_wc_utf8mb4_no_range_def
        my_mb_wc_utf8mb4_def cs_codes get_def byte_order Let_def numeral_2_eq_2 numeral_3_eq_3)
qed

text \<open>On a string that ends in a NUL, \<open>my_mb_wc_utf8mb4_no_range\<close> reads nothing behind the NUL and
  agrees with \<open>my_mb_wc_utf8mb4\<close> on the string without it; where the string ends inside a
  character it finds an illegal sequence, and on the empty string the character NUL.\<close>

theorem utf8mb4_no_range_safe:
  "my_mb_wc_utf8mb4_no_range (s @ 0 # zs) =
    Some (if s = [] then (1, Some 0)
      else if fst (my_mb_wc_utf8mb4 s) < - 100 then (MY_CS_ILSEQ, None)
      else my_mb_wc_utf8mb4 s)"
proof (cases "s = []")
  case True
  then show ?thesis by (simp add: my_mb_wc_utf8mb4_no_range_def get_def byte_order)
next
  case False
  then show ?thesis using no_range_cases [OF refl False refl] by simp
qed

end
