(* ===== verification/MultiLock.thy ===== *)
theory MultiLock
  imports TableLock
begin

text \<open>
  Locking several tables at once, \<open>thr_multi_lock\<close> and its helpers in \<open>src/mysys/thr_lock.c\<close>: the
  instances are sorted by the address of their lock, locked in that order, released again when one
  cannot be had, and the instances of one table are given the same status.  The locks of the
  system are a store by address; an operation of \<open>TableLock\<close> runs on one of them.  A wait stops
  \<open>thr_multi_lock\<close> at a position of the array, from which it is resumed with the result of the
  wait.
\<close>

section \<open>The system of locks\<close>

record lock_system =
  sys_lock :: "int \<Rightarrow> THR_LOCK"
  sys_data :: "nat \<Rightarrow> THR_LOCK_DATA"
  sys_events :: "lock_event list"

definition lock_view :: "int \<Rightarrow> lock_system \<Rightarrow> lock_state" where
  "lock_view a S = THR_LOCK.extend (sys_lock S a) (lock_state.fields (sys_data S) (sys_events S))"

definition put_view :: "int \<Rightarrow> lock_state \<Rightarrow> lock_system \<Rightarrow> lock_system" where
  "put_view a s S = S\<lparr>sys_lock := (sys_lock S)(a := THR_LOCK.truncate s), sys_data := l_data s,
     sys_events := l_events s\<rparr>"

section \<open>Sorting\<close>

text \<open>\<open>LOCK_CMP\<close> compares the address of the lock less the value of the lock type, converted to
  \<open>uint\<close>.\<close>

definition lock_key :: "(nat \<Rightarrow> THR_LOCK_DATA) \<Rightarrow> nat \<Rightarrow> int" where
  "lock_key st d = d_lock (st d) - int (u32 (type_value (d_type (st d))))"

definition LOCK_CMP :: "(nat \<Rightarrow> THR_LOCK_DATA) \<Rightarrow> nat \<Rightarrow> nat \<Rightarrow> bool" where
  "LOCK_CMP st A B \<longleftrightarrow> lock_key st A < lock_key st B"

text \<open>The loop that makes room for \<open>tmp\<close>, and the position at which it stops.\<close>

fun shift_loop :: "(nat \<Rightarrow> THR_LOCK_DATA) \<Rightarrow> nat \<Rightarrow> nat list \<Rightarrow> nat \<Rightarrow> nat list \<times> nat" where
  "shift_loop st tmp data 0 = (data, 0)"
| "shift_loop st tmp data (Suc prev) =
     (let data = data[Suc prev := data ! prev]
      in if prev \<noteq> 0 \<and> LOCK_CMP st tmp (data ! (prev - 1)) then shift_loop st tmp data prev
         else (data, prev))"

definition sort_step :: "(nat \<Rightarrow> THR_LOCK_DATA) \<Rightarrow> nat \<Rightarrow> nat list \<Rightarrow> nat list" where
  "sort_step st pos data =
     (let tmp = data ! pos
      in if LOCK_CMP st tmp (data ! (pos - 1)) then
           let (data, prev) = shift_loop st tmp data pos in data[prev := tmp]
         else data)"

definition sort_locks :: "(nat \<Rightarrow> THR_LOCK_DATA) \<Rightarrow> nat list \<Rightarrow> nat list" where
  "sort_locks st data = fold (sort_step st) [1..<length data] data"

section \<open>Sharing the status\<close>

text \<open>The inner \<open>for\<close> loop: back over the read locks of the same table.\<close>

fun merge_back :: "(nat \<Rightarrow> THR_LOCK_DATA) \<Rightarrow> nat list \<Rightarrow> nat \<Rightarrow> nat" where
  "merge_back st data 0 = 0"
| "merge_back st data (Suc pos) =
     (if d_type (st (data ! Suc pos)) \<le> TL_READ_NO_INSERT \<and>
         d_lock (st (data ! pos)) = d_lock (st (data ! Suc pos))
      then merge_back st data pos else Suc pos)"

text \<open>The inner \<open>do\<close> loop, as the pairs (to, from) it calls \<open>copy_status\<close> with; \<open>None\<close> if it leaves
  the array.\<close>

function copy_reads ::
  "(nat \<Rightarrow> THR_LOCK_DATA) \<Rightarrow> nat list \<Rightarrow> nat \<Rightarrow> nat \<Rightarrow> nat \<Rightarrow> (nat \<times> nat) list option" where
  "copy_reads st data pos last_lock read_lock =
     (if read_lock < length data then
        let c = (d_status_param (st (data ! read_lock)), d_status_param (st (data ! pos)))
        in if data ! read_lock = last_lock then Some [c]
           else map_option ((#) c) (copy_reads st data pos last_lock (Suc read_lock))
      else None)"
  by pat_completeness auto
termination
  by (relation "measure (\<lambda>(st, data, pos, last_lock, read_lock). length data - read_lock)") auto

declare copy_reads.simps [simp del]

lemma merge_back_le: "merge_back st data pos \<le> pos"
  by (induction pos) (auto intro: le_SucI)

function merge_loop ::
  "(nat \<Rightarrow> THR_LOCK_DATA) \<Rightarrow> (int \<Rightarrow> bool) \<Rightarrow> nat list \<Rightarrow> nat \<Rightarrow> nat \<Rightarrow> (nat \<times> nat) list option" where
  "merge_loop st copy_status data last_lock 0 = Some []"
| "merge_loop st copy_status data last_lock (Suc pos) =
     (if d_lock (st last_lock) = d_lock (st (data ! pos)) \<and> copy_status (d_lock (st last_lock)) then
        if d_type (st last_lock) \<le> TL_READ_NO_INSERT then
          let pos = merge_back st data pos
          in do {
            copies \<leftarrow> copy_reads st data pos last_lock (pos + 1);
            rest \<leftarrow> merge_loop st copy_status data (data ! pos) pos;
            Some (copies @ rest)
          }
        else do {
          rest \<leftarrow> merge_loop st copy_status data last_lock pos;
          Some ((d_status_param (st (data ! pos)), d_status_param (st last_lock)) # rest)
        }
      else merge_loop st copy_status data (data ! pos) pos)"
  by pat_completeness auto
termination
  by (relation "measure (\<lambda>(st, copy_status, data, last_lock, pos). pos)")
    (auto simp: le_imp_less_Suc merge_back_le)

definition thr_lock_merge_status :: "nat list \<Rightarrow> lock_system \<Rightarrow> lock_system option" where
  "thr_lock_merge_status data S =
     (if length data > 1 then do {
        copies \<leftarrow> merge_loop (sys_data S) (\<lambda>a. l_copy_status (sys_lock S a)) data
          (data ! (length data - 1)) (length data - 1);
        Some (S\<lparr>sys_events := sys_events S @ map (\<lambda>(to, from). Copy_status to from) copies\<rparr>)
      } else Some S)"

section \<open>Locking and unlocking\<close>

fun thr_multi_unlock :: "lock_globals \<Rightarrow> nat list \<Rightarrow> lock_system \<Rightarrow> lock_system" where
  "thr_multi_unlock g [] S = S"
| "thr_multi_unlock g (d # data) S =
     thr_multi_unlock g data
       (if d_type (sys_data S d) \<noteq> TL_UNLOCK then
          let a = d_lock (sys_data S d) in put_view a (thr_unlock g d (lock_view a S)) S
        else S)"

text \<open>\<open>thr_multi_lock\<close> ends with a result or waits for the instance at a position of the array.\<close>

datatype multi_outcome = Finished enum_thr_lock_result | Blocked nat outcome

text \<open>The locking loop: \<open>got\<close> is the part of the array locked so far.\<close>

fun lock_rest ::
  "lock_globals \<Rightarrow> nat \<Rightarrow> nat list \<Rightarrow> nat list \<Rightarrow> lock_system \<Rightarrow> (multi_outcome \<times> lock_system) option" where
  "lock_rest g owner got [] S = do {
     S \<leftarrow> thr_lock_merge_status got S;
     Some (Finished THR_LOCK_SUCCESS, S)
   }"
| "lock_rest g owner got (d # rest) S =
     (let a = d_lock (sys_data S d)
      in case thr_lock g d owner (d_type (sys_data S d)) (lock_view a S) of
           (Done result, s) \<Rightarrow>
             if result \<noteq> THR_LOCK_SUCCESS
             then Some (Finished result, thr_multi_unlock g got (put_view a s S))
             else lock_rest g owner (got @ [d]) rest (put_view a s S)
         | (wait, s) \<Rightarrow> Some (Blocked (length got) wait, put_view a s S))"

definition thr_multi_lock ::
  "lock_globals \<Rightarrow> nat \<Rightarrow> nat list \<Rightarrow> lock_system \<Rightarrow> (nat list \<times> multi_outcome \<times> lock_system) option" where
  "thr_multi_lock g owner data S =
     (let data = (if length data > 1 then sort_locks (sys_data S) data else data)
      in do {
        (r, S) \<leftarrow> lock_rest g owner [] data S;
        Some (data, r, S)
      })"

text \<open>The rest of \<open>thr_multi_lock\<close> after the wait at position \<open>pos\<close> ended with \<open>result\<close>.\<close>

definition thr_multi_lock_resume ::
  "lock_globals \<Rightarrow> nat \<Rightarrow> nat list \<Rightarrow> nat \<Rightarrow> enum_thr_lock_result \<Rightarrow> lock_system \<Rightarrow>
    (multi_outcome \<times> lock_system) option" where
  "thr_multi_lock_resume g owner data pos result S =
     (if result \<noteq> THR_LOCK_SUCCESS
      then Some (Finished result, thr_multi_unlock g (take pos data) S)
      else lock_rest g owner (take (pos + 1) data) (drop (pos + 1) data) S)"

section \<open>The sort is stable\<close>

lemma shift_loop_spec:
  assumes "bs \<noteq> []" and "\<forall>b \<in> set bs. LOCK_CMP st tmp b" and "as = [] \<or> \<not> LOCK_CMP st tmp (last as)"
  shows "shift_loop st tmp (as @ bs @ y # rest) (length as + length bs) =
    (as @ hd bs # bs @ rest, length as)"
  using assms
proof (induction bs arbitrary: y rest rule: rev_induct)
  case (snoc b bs)
  have up: "(as @ (bs @ [b]) @ y # rest)[Suc (length as + length bs) := b] = as @ bs @ b # b # rest"
    by (simp add: list_update_append)
  have nth: "(as @ (bs @ [b]) @ y # rest) ! (length as + length bs) = b"
    by (simp add: nth_append)
  show ?case
  proof (cases "bs = []")
    case True
    then show ?thesis
      using snoc.prems(3) up nth
      by (cases as rule: rev_cases) (auto simp: nth_append Let_def)
  next
    case False
    then have "(as @ bs @ b # b # rest) ! (length as + length bs - 1) = last bs"
      by (cases bs rule: rev_cases) (simp_all add: nth_append)
    moreover have "LOCK_CMP st tmp (last bs)" using False snoc.prems(2) by simp
    ultimately show ?thesis
      using snoc.IH [of b "b # rest"] snoc.prems False up nth by (simp add: Let_def)
  qed
qed simp

lemma sorted_split: "sorted (map f xs) \<Longrightarrow> xs = filter (\<lambda>d. f d \<le> k) xs @ filter (\<lambda>d. (k :: int) < f d) xs"
proof (induction xs)
  case (Cons a xs)
  show ?case
  proof (cases "f a \<le> k")
    case False
    then have "filter (\<lambda>d. f d \<le> k) xs = []" using Cons.prems by (auto simp: filter_empty_conv)
    then show ?thesis using Cons False by simp
  qed (use Cons in simp)
qed simp

lemma sort_step_spec:
  assumes "sorted (map (lock_key st) xs)" and "xs \<noteq> []"
  shows "sort_step st (length xs) (xs @ x # ys) =
    filter (\<lambda>d. lock_key st d \<le> lock_key st x) xs @ x # filter (\<lambda>d. lock_key st x < lock_key st d) xs @ ys"
proof -
  define as where "as = filter (\<lambda>d. lock_key st d \<le> lock_key st x) xs"
  define bs where "bs = filter (\<lambda>d. lock_key st x < lock_key st d) xs"
  have xs: "xs = as @ bs"
    unfolding as_def bs_def by (rule sorted_split [OF assms(1)])
  have cmp: "\<forall>b \<in> set bs. LOCK_CMP st x b" "as = [] \<or> \<not> LOCK_CMP st x (last as)"
    using last_in_set [of as] by (auto simp: as_def bs_def LOCK_CMP_def)
  have tmp: "(xs @ x # ys) ! length xs = x" by simp
  have prev: "(xs @ x # ys) ! (length xs - 1) = last xs"
    using assms(2) by (cases xs rule: rev_cases) (simp_all add: nth_append)
  show ?thesis
  proof (cases "bs = []")
    case True
    then have "as = xs" using xs by simp
    then have "\<not> LOCK_CMP st x (last xs)" using cmp(2) assms(2) by auto
    then have "sort_step st (length xs) (xs @ x # ys) = xs @ x # ys"
      unfolding sort_step_def tmp prev Let_def by simp
    then show ?thesis
      unfolding as_def [symmetric] bs_def [symmetric] using True \<open>as = xs\<close> by simp
  next
    case False
    then have "LOCK_CMP st x (last xs)" using cmp(1) xs by simp
    moreover have "shift_loop st x (xs @ x # ys) (length xs) = (as @ hd bs # bs @ ys, length as)"
      using shift_loop_spec [OF False cmp] by (simp add: xs)
    ultimately show ?thesis
      unfolding sort_step_def tmp prev as_def [symmetric] bs_def [symmetric] by simp
  qed
qed

lemma insert_right:
  fixes f :: "'a \<Rightarrow> int"
  shows "sort_key f (xs @ [x]) =
    filter (\<lambda>d. f d \<le> f x) (sort_key f xs) @ x # filter (\<lambda>d. f x < f d) (sort_key f xs)"
proof (rule properties_for_sort_key)
  let ?s = "sort_key f xs"
  have split: "filter (\<lambda>d. f d \<le> f x) ?s @ filter (\<lambda>d. f x < f d) ?s = ?s"
    using sorted_split [of f ?s "f x"] by simp
  then have m: "mset (filter (\<lambda>d. f d \<le> f x) ?s @ filter (\<lambda>d. f x < f d) ?s) = mset xs" by simp
  then show "mset (filter (\<lambda>d. f d \<le> f x) ?s @ x # filter (\<lambda>d. f x < f d) ?s) = mset (xs @ [x])"
    by simp
  show "filter (\<lambda>d. f k = f d) (filter (\<lambda>d. f d \<le> f x) ?s @ x # filter (\<lambda>d. f x < f d) ?s) =
      filter (\<lambda>d. f k = f d) (xs @ [x])" for k
  proof -
    have 1: "filter (\<lambda>d. f k = f d) ?s = filter (\<lambda>d. f k = f d) xs"
      using sort_key_stable [of f "f k" xs] by (simp add: eq_commute)
    show ?thesis
    proof (cases "f k = f x")
      case True
      have "filter (\<lambda>d. f k = f d \<and> f x < f d) ?s = []"
        using True by (auto simp: filter_empty_conv)
      moreover have "filter (\<lambda>d. f k = f d \<and> f d \<le> f x) ?s = filter (\<lambda>d. f k = f d) ?s"
        using True by (auto intro: filter_cong)
      ultimately show ?thesis using True 1 by (simp add: conj_commute)
    next
      case False
      have "filter (\<lambda>d. f k = f d) (filter (\<lambda>d. f d \<le> f x) ?s @ filter (\<lambda>d. f x < f d) ?s) =
          filter (\<lambda>d. f k = f d) xs"
        unfolding split by (rule 1)
      with False show ?thesis by simp
    qed
  qed
  show "sorted (map f (filter (\<lambda>d. f d \<le> f x) ?s @ x # filter (\<lambda>d. f x < f d) ?s))"
    by (auto simp: sorted_append sorted_filter)
qed

lemma sort_prefix:
  "n \<le> length data \<Longrightarrow> fold (sort_step st) [1..<n] data =
    sort_key (lock_key st) (take n data) @ drop n data"
proof (induction n)
  case (Suc n)
  show ?case
  proof (cases "n = 0")
    case True
    then show ?thesis using Suc.prems by (cases data) auto
  next
    case False
    have d: "drop n data = data ! n # drop (Suc n) data"
      using Suc.prems by (simp add: Cons_nth_drop_Suc)
    have l: "length (sort_key (lock_key st) (take n data)) = n" using Suc.prems by simp
    have "sort_key (lock_key st) (take n data) \<noteq> []" using l False by (metis list.size(3))
    from sort_step_spec [OF _ this, of st "data ! n" "drop (Suc n) data"]
    have "sort_step st n (sort_key (lock_key st) (take n data) @ drop n data) =
        sort_key (lock_key st) (take n data @ [data ! n]) @ drop (Suc n) data"
      unfolding l d insert_right by simp
    then show ?thesis
      using Suc False by (simp add: take_Suc_conv_app_nth)
  qed
qed simp

lemma sort_locks_eq: "sort_locks st data = sort_key (lock_key st) data"
  using sort_prefix [of "length data" data st] by (simp add: sort_locks_def)

text \<open>Locks are structures of more than twelve bytes, so their addresses are further apart than
  the values of the lock types.\<close>

definition locks_apart :: "(nat \<Rightarrow> THR_LOCK_DATA) \<Rightarrow> nat list \<Rightarrow> bool" where
  "locks_apart st data \<longleftrightarrow>
     (\<forall>a \<in> set data. \<forall>b \<in> set data. d_lock (st a) < d_lock (st b) \<longrightarrow> d_lock (st a) + 16 \<le> d_lock (st b)) \<and>
     (\<forall>a \<in> set data. d_type (st a) \<noteq> TL_IGNORE)"

definition lock_before :: "(nat \<Rightarrow> THR_LOCK_DATA) \<Rightarrow> nat \<Rightarrow> nat \<Rightarrow> bool" where
  "lock_before st a b \<longleftrightarrow> d_lock (st a) < d_lock (st b) \<or>
     d_lock (st a) = d_lock (st b) \<and> d_type (st b) \<le> d_type (st a)"

lemma type_value_range: "t \<noteq> TL_IGNORE \<Longrightarrow> u32 (type_value t) = nat (type_value t) \<and> 0 \<le> type_value t \<and> type_value t \<le> 12"
  by (cases t) (simp_all add: u32_def)

lemma lock_key_order:
  assumes "locks_apart st data" "a \<in> set data" "b \<in> set data"
  shows "lock_key st a \<le> lock_key st b \<longleftrightarrow> lock_before st a b"
proof -
  have t: "u32 (type_value (d_type (st x))) = nat (type_value (d_type (st x)))"
    "0 \<le> type_value (d_type (st x))" "type_value (d_type (st x)) \<le> 12" if "x \<in> set data" for x
    using assms(1) that type_value_range [of "d_type (st x)"] by (auto simp: locks_apart_def)
  have "d_lock (st a) < d_lock (st b) \<longrightarrow> d_lock (st a) + 16 \<le> d_lock (st b)"
    "d_lock (st b) < d_lock (st a) \<longrightarrow> d_lock (st b) + 16 \<le> d_lock (st a)"
    using assms by (auto simp: locks_apart_def)
  then show ?thesis
    using t [OF assms(2)] t [OF assms(3)]
    unfolding lock_key_def lock_before_def type_order by (cases "d_lock (st a)" "d_lock (st b)" rule: linorder_cases) simp_all
qed

lemma lock_key_sorted:
  assumes "locks_apart st data"
  shows "sorted_wrt (lock_before st) (sort_key (lock_key st) data)"
proof -
  have "sorted_wrt (\<lambda>a b. lock_key st a \<le> lock_key st b) (sort_key (lock_key st) data)"
    using sorted_sort_key [of "lock_key st" data] by (simp add: sorted_wrt_map)
  then show ?thesis
    by (rule sorted_wrt_mono_rel [rotated]) (simp add: lock_key_order [OF assms])
qed

text \<open>C22: \<open>sort_locks\<close> is a stable sort by \<open>LOCK_CMP\<close>; because locks lie further apart in memory than
  lock types differ, this orders the instances by the address of their lock, the same for every
  thread, and the instances of one lock by falling lock type, write locks before read locks.\<close>

theorem sort_locks_order:
  assumes "locks_apart st data"
  shows "sort_locks st data = sort_key (lock_key st) data \<and>
    mset (sort_locks st data) = mset data \<and> sorted_wrt (lock_before st) (sort_locks st data)"
  by (simp add: sort_locks_eq lock_key_sorted [OF assms])

section \<open>Instances of one table share their status\<close>

text \<open>What the calls of \<open>copy_status\<close> do to the status values.\<close>

fun run_copies :: "(nat \<times> nat) list \<Rightarrow> (nat \<Rightarrow> 'v) \<Rightarrow> nat \<Rightarrow> 'v" where
  "run_copies [] stat = stat"
| "run_copies ((to, from) # copies) stat = run_copies copies (stat(to := stat from))"

lemma run_copies_append: "run_copies (xs @ ys) stat = run_copies ys (run_copies xs stat)"
proof (induction xs arbitrary: stat)
  case (Cons c xs)
  show ?case by (cases c) (simp only: append_Cons run_copies.simps Cons)
qed simp

text \<open>The instances by position: their lock, whether they write, and their status.\<close>

definition at_lock :: "(nat \<Rightarrow> THR_LOCK_DATA) \<Rightarrow> nat list \<Rightarrow> nat \<Rightarrow> int" where
  "at_lock st data i = d_lock (st (data ! i))"

definition at_write :: "(nat \<Rightarrow> THR_LOCK_DATA) \<Rightarrow> nat list \<Rightarrow> nat \<Rightarrow> bool" where
  "at_write st data i \<longleftrightarrow> \<not> d_type (st (data ! i)) \<le> TL_READ_NO_INSERT"

definition at_param :: "(nat \<Rightarrow> THR_LOCK_DATA) \<Rightarrow> nat list \<Rightarrow> nat \<Rightarrow> nat" where
  "at_param st data i = d_status_param (st (data ! i))"

lemmas at_defs = at_lock_def at_write_def at_param_def

text \<open>Positions with one lock are next to each other, and every instance has its own status.\<close>

definition grouped :: "(nat \<Rightarrow> THR_LOCK_DATA) \<Rightarrow> nat list \<Rightarrow> bool" where
  "grouped st data \<longleftrightarrow> distinct (map (d_status_param \<circ> st) data) \<and>
     (\<forall>i j k. i < j \<longrightarrow> j < k \<longrightarrow> k < length data \<longrightarrow> at_lock st data i = at_lock st data k \<longrightarrow>
       at_lock st data j = at_lock st data i)"

lemma grouped_param:
  assumes "grouped st data" "i < length data" "j < length data"
  shows "at_param st data i = at_param st data j \<longleftrightarrow> i = j"
  using assms nth_eq_iff_index_eq [of "map (d_status_param \<circ> st) data" i j]
  by (auto simp: grouped_def at_param_def)

lemma copy_reads_eq:
  assumes "grouped st data" "r \<le> k" "k < length data"
  shows "copy_reads st data pos (data ! k) r =
    Some (map (\<lambda>i. (at_param st data i, at_param st data pos)) [r..<Suc k])"
  using assms(2)
proof (induction "k - r" arbitrary: r)
  case 0
  then show ?case using assms(3) by (subst copy_reads.simps) (simp add: at_param_def)
next
  case (Suc m)
  then have r: "r < k" by simp
  then have "data ! r \<noteq> data ! k"
    using grouped_param [OF assms(1), of r k] assms(3) by (auto simp: at_param_def)
  moreover have "[r..<Suc k] = r # [Suc r..<Suc k]" using r by (simp add: upt_conv_Cons)
  ultimately show ?case
    using Suc.hyps(1) [of "Suc r"] Suc.hyps(2) r assms(3)
    by (subst copy_reads.simps) (simp add: at_param_def)
qed

lemma run_copies_reads:
  assumes "grouped st data" "pos < r" "k \<le> length data"
  shows "run_copies (map (\<lambda>i. (at_param st data i, at_param st data pos)) [r..<k]) stat x =
    (if \<exists>i. r \<le> i \<and> i < k \<and> x = at_param st data i then stat (at_param st data pos) else stat x)"
  using assms(3)
proof (induction k arbitrary: x)
  case (Suc k)
  show ?case
  proof (cases "r \<le> k")
    case True
    have ne: "\<not> (\<exists>i. r \<le> i \<and> i < k \<and> at_param st data pos = at_param st data i)"
      using grouped_param [OF assms(1), of pos] assms(2) Suc.prems by auto
    have "run_copies (map (\<lambda>i. (at_param st data i, at_param st data pos)) [r..<k]) stat
        (at_param st data pos) = stat (at_param st data pos)"
      using Suc ne by simp
    then show ?thesis
      using Suc True by (auto simp: run_copies_append less_Suc_eq)
  qed auto
qed simp

lemma merge_back_spec:
  assumes "q = merge_back st data p"
  shows "q \<le> p \<and> (\<forall>i. q < i \<and> i \<le> p \<longrightarrow> \<not> at_write st data i) \<and>
    (\<forall>i. q \<le> i \<and> i \<le> p \<longrightarrow> at_lock st data i = at_lock st data p) \<and>
    (q = 0 \<or> at_write st data q \<or> at_lock st data (q - 1) \<noteq> at_lock st data q)"
  using assms
proof (induction p arbitrary: q)
  case (Suc p)
  show ?case
  proof (cases "d_type (st (data ! Suc p)) \<le> TL_READ_NO_INSERT \<and>
      d_lock (st (data ! p)) = d_lock (st (data ! Suc p))")
    case True
    then have q: "q = merge_back st data p" using Suc.prems by simp
    have p: "\<not> at_write st data (Suc p)" "at_lock st data p = at_lock st data (Suc p)"
      using True by (simp_all add: at_defs)
    note ih = Suc.IH [OF q]
    have "\<not> at_write st data i" if "q < i" "i \<le> Suc p" for i
      using ih p that by (cases "i = Suc p") (simp_all add: le_Suc_eq)
    moreover have "at_lock st data i = at_lock st data (Suc p)" if "q \<le> i" "i \<le> Suc p" for i
      using ih p that by (cases "i = Suc p") (simp_all add: le_Suc_eq)
    ultimately show ?thesis using ih by (blast intro: le_SucI)
  next
    case False
    then have "q = Suc p" using Suc.prems by (simp only: merge_back.simps if_False)
    moreover have "at_write st data (Suc p) \<or> at_lock st data p \<noteq> at_lock st data (Suc p)"
      using False by (simp add: at_defs)
    ultimately show ?thesis by (metis diff_Suc_1 le_antisym not_less order_refl)
  qed
qed simp


text \<open>A group of positions has taken the status of one of its instances, of a writing one if it
  has one.\<close>

definition merged ::
  "(nat \<Rightarrow> THR_LOCK_DATA) \<Rightarrow> nat list \<Rightarrow> (nat \<Rightarrow> 'v) \<Rightarrow> (nat \<Rightarrow> 'v) \<Rightarrow> nat \<Rightarrow> nat \<Rightarrow> bool" where
  "merged st data stat stat' i r \<longleftrightarrow> r < length data \<and> at_lock st data r = at_lock st data i \<and>
     (\<forall>j < length data. at_lock st data j = at_lock st data i \<longrightarrow>
       stat' (at_param st data j) = stat (at_param st data r)) \<and>
     ((\<exists>j < length data. at_lock st data j = at_lock st data i \<and> at_write st data j) \<longrightarrow>
       at_write st data r)"

text \<open>The state of the loop: the instance \<open>last_lock\<close> is at position \<open>k\<close>, and the positions from
  \<open>pos\<close> on have been seen.\<close>

definition merge_inv ::
  "(nat \<Rightarrow> THR_LOCK_DATA) \<Rightarrow> nat list \<Rightarrow> (nat \<Rightarrow> 'v) \<Rightarrow> nat \<Rightarrow> nat \<Rightarrow> bool" where
  "merge_inv st data stat k pos \<longleftrightarrow>
     (\<forall>i. pos \<le> i \<and> i < length data \<and> at_lock st data i = at_lock st data k \<longrightarrow>
       stat (at_param st data i) = stat (at_param st data k) \<and>
       (at_write st data i \<longrightarrow> at_write st data k)) \<and>
     (at_write st data k \<or> pos = 0 \<or> at_lock st data (pos - 1) \<noteq> at_lock st data k \<or>
       k = pos \<and> (\<forall>i. k < i \<and> i < length data \<longrightarrow> at_lock st data i \<noteq> at_lock st data k))"

definition merge_post ::
  "(nat \<Rightarrow> THR_LOCK_DATA) \<Rightarrow> (int \<Rightarrow> bool) \<Rightarrow> nat list \<Rightarrow> (nat \<Rightarrow> 'v) \<Rightarrow> nat \<Rightarrow> nat \<Rightarrow> (nat \<times> nat) list \<Rightarrow> bool" where
  "merge_post st cs data stat k pos copies \<longleftrightarrow>
     (\<forall>i < length data. cs (at_lock st data i) \<and> (i < pos \<or> at_lock st data i = at_lock st data k) \<longrightarrow>
       (\<exists>r. merged st data stat (run_copies copies stat) i r)) \<and>
     (\<forall>i < length data. \<not> (cs (at_lock st data i) \<and> (i < pos \<or> at_lock st data i = at_lock st data k)) \<longrightarrow>
       run_copies copies stat (at_param st data i) = stat (at_param st data i))"

lemma merge_done:
  assumes "k < length data" "merge_inv st data stat k 0"
  shows "merge_post st cs data stat k 0 []"
proof -
  have all: "stat (at_param st data j) = stat (at_param st data k) \<and> (at_write st data j \<longrightarrow> at_write st data k)"
    if "j < length data" "at_lock st data j = at_lock st data k" for j
    using assms(2) [unfolded merge_inv_def, THEN conjunct1, rule_format, of j] that by simp
  have "merged st data stat stat i k" if i: "at_lock st data i = at_lock st data k" for i
    unfolding merged_def i using assms(1) all by blast
  then show ?thesis unfolding merge_post_def run_copies.simps by blast
qed

text \<open>A step that takes the status of \<open>r\<close> for the positions in \<open>A\<close>, all of one lock.\<close>

lemma merge_step:
  assumes post: "merge_post st cs data (run_copies copies stat) k' pos' rest"
    and copies: "\<And>i. i < length data \<Longrightarrow> run_copies copies stat (at_param st data i) =
        (if i \<in> A then stat (at_param st data c) else stat (at_param st data i))"
    and c: "c < length data" "\<And>i. i \<in> A \<Longrightarrow> at_lock st data i = at_lock st data c"
      "\<And>i. i \<in> A \<Longrightarrow> at_write st data i \<Longrightarrow> at_write st data c"
    and same: "at_lock st data c = at_lock st data k" "at_lock st data k' = at_lock st data k"
      "cs (at_lock st data k)" "pos' \<le> pos"
      "\<And>i. pos' \<le> i \<Longrightarrow> i < pos \<Longrightarrow> at_lock st data i = at_lock st data k"
  shows "merge_post st cs data stat k pos (copies @ rest)"
proof -
  let ?s1 = "run_copies copies stat"
  have conv: "\<exists>r'. merged st data stat stat' i r'" if m: "merged st data ?s1 stat' i r" for stat' i r
  proof (cases "r \<in> A")
    case True
    then have "?s1 (at_param st data r) = stat (at_param st data c)"
      using m copies [of r] by (simp add: merged_def)
    then have "merged st data stat stat' i c"
      using m c True unfolding merged_def by metis
    then show ?thesis ..
  next
    case False
    then have "?s1 (at_param st data r) = stat (at_param st data r)"
      using m copies [of r] by (simp add: merged_def)
    then show ?thesis using m unfolding merged_def by auto
  qed
  show ?thesis
    unfolding merge_post_def
  proof (intro conjI allI impI)
    fix i
    assume i: "i < length data" "cs (at_lock st data i) \<and> (i < pos \<or> at_lock st data i = at_lock st data k)"
    then have "i < pos' \<or> at_lock st data i = at_lock st data k'"
      using same by (metis not_le)
    then show "\<exists>r. merged st data stat (run_copies (copies @ rest) stat) i r"
      using post i conv unfolding merge_post_def run_copies_append by blast
  next
    fix i
    assume i: "i < length data" "\<not> (cs (at_lock st data i) \<and> (i < pos \<or> at_lock st data i = at_lock st data k))"
    then have "i \<notin> A" using c(2) same by metis
    moreover have "\<not> (cs (at_lock st data i) \<and> (i < pos' \<or> at_lock st data i = at_lock st data k'))"
      using i(2) same(2,4) by (metis order_less_le_trans)
    then have "run_copies rest ?s1 (at_param st data i) = ?s1 (at_param st data i)"
      using post i(1) unfolding merge_post_def by blast
    ultimately show "run_copies (copies @ rest) stat (at_param st data i) = stat (at_param st data i)"
      using copies [OF i(1)] by (simp only: run_copies_append if_False)
  qed
qed

definition merge_result ::
  "(nat \<Rightarrow> THR_LOCK_DATA) \<Rightarrow> (int \<Rightarrow> bool) \<Rightarrow> nat list \<Rightarrow> (nat \<Rightarrow> 'v) \<Rightarrow> nat \<Rightarrow> nat \<Rightarrow> bool" where
  "merge_result st cs data stat k pos \<longleftrightarrow>
     (\<exists>copies. merge_loop st cs data (data ! k) pos = Some copies \<and> merge_post st cs data stat k pos copies)"

definition merge_pre ::
  "(nat \<Rightarrow> THR_LOCK_DATA) \<Rightarrow> (int \<Rightarrow> bool) \<Rightarrow> nat list \<Rightarrow> (nat \<Rightarrow> 'v) \<Rightarrow> nat \<Rightarrow> nat \<Rightarrow> bool" where
  "merge_pre st cs data stat k pos \<longleftrightarrow> pos \<le> k \<and> k < length data \<and>
     (\<forall>i. pos \<le> i \<and> i \<le> k \<longrightarrow> at_lock st data i = at_lock st data k) \<and>
     (cs (at_lock st data k) \<longrightarrow> merge_inv st data stat k pos)"

lemma merge_pre_single:
  assumes "k < length data" and "cs (at_lock st data k) \<Longrightarrow> merge_inv st data stat k k"
  shows "merge_pre st cs data stat k k"
  unfolding merge_pre_def using assms by (metis le_antisym order_refl)

text \<open>The three branches of the loop body.\<close>

lemma merge_read_branch:
  fixes stat :: "nat \<Rightarrow> 'v"
  assumes g: "grouped st data" and pre: "merge_pre st cs data stat k (Suc p)"
    and l: "at_lock st data k = at_lock st data p" "cs (at_lock st data k)" and r: "\<not> at_write st data k"
    and ih: "\<And>k pos (stat :: nat \<Rightarrow> 'v). pos \<le> p \<Longrightarrow> merge_pre st cs data stat k pos \<Longrightarrow> merge_result st cs data stat k pos"
  shows "merge_result st cs data stat k (Suc p)"
proof -
  have inv: "merge_inv st data stat k (Suc p)" and n: "k < length data"
    using pre l(2) unfolding merge_pre_def by blast+
  have k: "k = Suc p" and after: "\<And>i. k < i \<Longrightarrow> i < length data \<Longrightarrow> at_lock st data i \<noteq> at_lock st data k"
    using inv [unfolded merge_inv_def, THEN conjunct2] r l(1) by auto
  define q where "q = merge_back st data p"
  have q: "q \<le> p" "\<And>i. q < i \<Longrightarrow> i \<le> p \<Longrightarrow> \<not> at_write st data i"
    "\<And>i. q \<le> i \<Longrightarrow> i \<le> p \<Longrightarrow> at_lock st data i = at_lock st data p"
    "q = 0 \<or> at_write st data q \<or> at_lock st data (q - 1) \<noteq> at_lock st data q"
    using merge_back_spec [OF q_def] by blast+
  have reads: "\<not> at_write st data i" "at_lock st data i = at_lock st data k" if "q < i" "i \<le> k" for i
    using q(2,3) [of i] that k r l(1) by (cases "i = k"; simp)+
  have lq: "at_lock st data q = at_lock st data k" using q(1) q(3) [of q] l(1) by simp
  define copies where "copies = map (\<lambda>i. (at_param st data i, at_param st data q)) [q + 1..<Suc k]"
  define s1 where "s1 = run_copies copies stat"
  have s1: "s1 (at_param st data i) = (if i \<in> {q<..k} then stat (at_param st data q) else stat (at_param st data i))"
    if "i < length data" for i
  proof -
    have "(\<exists>j. q + 1 \<le> j \<and> j < Suc k \<and> at_param st data i = at_param st data j) \<longleftrightarrow> i \<in> {q<..k}"
    proof
      assume "\<exists>j. q + 1 \<le> j \<and> j < Suc k \<and> at_param st data i = at_param st data j"
      then obtain j where j: "q + 1 \<le> j" "j < Suc k" "at_param st data i = at_param st data j" by blast
      then have "i = j" using grouped_param [OF g that, of j] n by simp
      then show "i \<in> {q<..k}" using j by simp
    next
      assume "i \<in> {q<..k}"
      then show "\<exists>j. q + 1 \<le> j \<and> j < Suc k \<and> at_param st data i = at_param st data j"
        by (intro exI [of _ i]) simp
    qed
    then show ?thesis
      using run_copies_reads [OF g, of q "q + 1" "Suc k" stat "at_param st data i"] n
      by (simp add: s1_def copies_def)
  qed
  have "merge_inv st data s1 q q"
    unfolding merge_inv_def
  proof (intro conjI allI impI)
    fix i
    assume i: "q \<le> i \<and> i < length data \<and> at_lock st data i = at_lock st data q"
    then have "i \<le> k" using after [of i] lq by (metis not_le)
    then show "s1 (at_param st data i) = s1 (at_param st data q)"
      using i s1 [of i] s1 [of q] q(1) n k by auto
    show "at_write st data i \<Longrightarrow> at_write st data q"
      using reads(1) [of i] \<open>i \<le> k\<close> i by (cases "i = q") auto
  qed (use q(4) in blast)
  then have "merge_pre st cs data s1 q q"
    using q(1) n k by (intro merge_pre_single) simp_all
  then obtain rest where rest: "merge_loop st cs data (data ! q) q = Some rest"
    "merge_post st cs data s1 q q rest"
    using ih [OF q(1)] unfolding merge_result_def by blast
  have "copy_reads st data q (data ! k) (q + 1) = Some copies"
    using copy_reads_eq [OF g _ n, of "q + 1" q] q(1) k by (simp add: copies_def)
  then have "merge_loop st cs data (data ! k) (Suc p) = Some (copies @ rest)"
    using l r rest(1) by (simp add: at_defs q_def [symmetric])
  moreover have "merge_post st cs data stat k (Suc p) (copies @ rest)"
  proof (rule merge_step [of _ _ _ _ _ q q _ "{q<..k}" q])
    show "merge_post st cs data (run_copies copies stat) q q rest" using rest(2) by (simp add: s1_def)
    show "run_copies copies stat (at_param st data i) =
        (if i \<in> {q<..k} then stat (at_param st data q) else stat (at_param st data i))"
      if "i < length data" for i using s1 [OF that] by (simp add: s1_def)
    show "q < length data" "q \<le> Suc p" using q(1) n k by simp_all
    show "at_lock st data i = at_lock st data q" if "i \<in> {q<..k}" for i
      using reads(2) [of i] that lq by simp
    show "at_write st data q" if "i \<in> {q<..k}" "at_write st data i" for i
      using reads(1) [of i] that by simp
    show "at_lock st data i = at_lock st data k" if "q \<le> i" "i < Suc p" for i
      using q(3) [of i] that l(1) by simp
  qed (rule lq l)+
  ultimately show ?thesis unfolding merge_result_def by blast
qed

lemma merge_write_branch:
  fixes stat :: "nat \<Rightarrow> 'v"
  assumes g: "grouped st data" and pre: "merge_pre st cs data stat k (Suc p)"
    and l: "at_lock st data k = at_lock st data p" "cs (at_lock st data k)" and w: "at_write st data k"
    and ih: "\<And>k pos (stat :: nat \<Rightarrow> 'v). pos \<le> p \<Longrightarrow> merge_pre st cs data stat k pos \<Longrightarrow> merge_result st cs data stat k pos"
  shows "merge_result st cs data stat k (Suc p)"
proof -
  have inv: "merge_inv st data stat k (Suc p)" and n: "k < length data" "Suc p \<le> k"
    and seen: "\<And>i. Suc p \<le> i \<Longrightarrow> i \<le> k \<Longrightarrow> at_lock st data i = at_lock st data k"
    using pre l(2) unfolding merge_pre_def by blast+
  define s1 where "s1 = stat(at_param st data p := stat (at_param st data k))"
  have s1: "s1 (at_param st data i) = (if i \<in> {p} then stat (at_param st data k) else stat (at_param st data i))"
    if "i < length data" for i
    using grouped_param [OF g that, of p] n by (simp add: s1_def)
  have "merge_inv st data s1 k p"
    unfolding merge_inv_def
  proof (intro conjI allI impI)
    fix i
    assume i: "p \<le> i \<and> i < length data \<and> at_lock st data i = at_lock st data k"
    have "stat (at_param st data i) = stat (at_param st data k)" if "i \<noteq> p"
      using inv [unfolded merge_inv_def, THEN conjunct1, rule_format, of i] i that by simp
    then show "s1 (at_param st data i) = s1 (at_param st data k)"
      using s1 [of i] s1 [of k] i n by simp
  qed (use w in simp_all)
  moreover have "at_lock st data i = at_lock st data k" if "p \<le> i" "i \<le> k" for i
    using seen [of i] l(1) that by (cases "i = p") simp_all
  moreover have "p \<le> k" using n(2) by simp
  ultimately have "merge_pre st cs data s1 k p"
    unfolding merge_pre_def using n(1) by blast
  then obtain rest where rest: "merge_loop st cs data (data ! k) p = Some rest"
    "merge_post st cs data s1 k p rest"
    using ih [OF order_refl] unfolding merge_result_def by blast
  let ?c = "[(at_param st data p, at_param st data k)]"
  have run: "run_copies ?c stat = s1" by (simp add: s1_def)
  have "merge_loop st cs data (data ! k) (Suc p) = Some (?c @ rest)"
    using l w rest(1) by (simp add: at_defs)
  moreover have "merge_post st cs data stat k (Suc p) (?c @ rest)"
  proof (rule merge_step [of _ _ _ _ _ k p _ "{p}" k])
    show "merge_post st cs data (run_copies ?c stat) k p rest" unfolding run by (rule rest(2))
    show "run_copies ?c stat (at_param st data i) =
        (if i \<in> {p} then stat (at_param st data k) else stat (at_param st data i))"
      if "i < length data" for i unfolding run by (rule s1 [OF that])
    show "at_lock st data i = at_lock st data k" if "p \<le> i" "i < Suc p" for i
    proof -
      have "i = p" using that by simp
      then show ?thesis using l(1) by simp
    qed
  qed (use l w n in simp_all)
  ultimately show ?thesis unfolding merge_result_def by blast
qed

lemma merge_other_branch:
  fixes stat :: "nat \<Rightarrow> 'v"
  assumes g: "grouped st data" and pre: "merge_pre st cs data stat k (Suc p)"
    and l: "\<not> (at_lock st data k = at_lock st data p \<and> cs (at_lock st data k))"
    and ih: "\<And>k pos (stat :: nat \<Rightarrow> 'v). pos \<le> p \<Longrightarrow> merge_pre st cs data stat k pos \<Longrightarrow> merge_result st cs data stat k pos"
  shows "merge_result st cs data stat k (Suc p)"
proof -
  have n: "k < length data" "Suc p \<le> k" and inv: "cs (at_lock st data k) \<Longrightarrow> merge_inv st data stat k (Suc p)"
    and sp: "at_lock st data (Suc p) = at_lock st data k"
    using pre unfolding merge_pre_def by blast+
  have apart: "at_lock st data i \<noteq> at_lock st data j"
    if "i \<le> p" "p < j" "j < length data" and ne: "at_lock st data k \<noteq> at_lock st data p" for i j
  proof
    have c: "at_lock st data b = at_lock st data a"
      if "a < b" "b < c" "c < length data" "at_lock st data a = at_lock st data c" for a b c
      using g that unfolding grouped_def by blast
    assume "at_lock st data i = at_lock st data j"
    then have pj: "at_lock st data p = at_lock st data j"
      using c [of i p j] that by (cases "i = p") simp_all
    then have "at_lock st data (Suc p) = at_lock st data p"
      using c [of p "Suc p" j] that by (cases "j = Suc p") simp_all
    then show False using sp ne by simp
  qed
  have next_pre: "merge_pre st cs data stat p p"
  proof (rule merge_pre_single)
    assume "cs (at_lock st data p)"
    then have ne: "at_lock st data k \<noteq> at_lock st data p" using l by auto
    then show "merge_inv st data stat p p"
      using apart [OF order_refl _ _ ne] unfolding merge_inv_def by (metis le_neq_implies_less)
  qed (use n in simp)
  then obtain rest where rest: "merge_loop st cs data (data ! p) p = Some rest"
    "merge_post st cs data stat p p rest"
    using ih [OF order_refl] unfolding merge_result_def by blast
  let ?s = "run_copies rest stat"
  have frame: "?s (at_param st data i) = stat (at_param st data i)"
    if "i < length data" "\<not> (cs (at_lock st data i) \<and> (i < p \<or> at_lock st data i = at_lock st data p))" for i
    using rest(2) that unfolding merge_post_def by blast
  have group: "merged st data stat ?s i k"
    if "\<not> i < Suc p" "at_lock st data i = at_lock st data k" "cs (at_lock st data k)" for i
  proof -
    have ne: "at_lock st data k \<noteq> at_lock st data p" using l that by auto
    have j: "Suc p \<le> j" if "j < length data" "at_lock st data j = at_lock st data k" for j
      using apart [of j k, OF _ _ n(1) ne] n(2) that by (metis Suc_le_eq not_le)
    have all: "stat (at_param st data j) = stat (at_param st data k) \<and> (at_write st data j \<longrightarrow> at_write st data k)"
      if "j < length data" "at_lock st data j = at_lock st data k" for j
      using inv [OF \<open>cs (at_lock st data k)\<close>, unfolded merge_inv_def, THEN conjunct1, rule_format, of j] j that
      by simp
    have "?s (at_param st data j) = stat (at_param st data k)"
      if "j < length data" "at_lock st data j = at_lock st data k" for j
      using frame [OF that(1)] all [OF that] j [OF that] that(2) ne by auto
    then show ?thesis
      unfolding merged_def that(2) using n(1) all by blast
  qed
  have "merge_post st cs data stat k (Suc p) rest"
    unfolding merge_post_def
  proof (intro conjI allI impI)
    fix i
    assume i: "i < length data" "cs (at_lock st data i) \<and> (i < Suc p \<or> at_lock st data i = at_lock st data k)"
    show "\<exists>r. merged st data stat ?s i r"
    proof (cases "i < Suc p")
      case True
      then have "i < p \<or> at_lock st data i = at_lock st data p" by (auto simp: less_Suc_eq)
      then show ?thesis using rest(2) i unfolding merge_post_def by blast
    next
      case False
      then show ?thesis using group [of i] i by auto
    qed
  next
    fix i
    assume i: "i < length data" "\<not> (cs (at_lock st data i) \<and> (i < Suc p \<or> at_lock st data i = at_lock st data k))"
    have "at_lock st data i \<noteq> at_lock st data p" if "cs (at_lock st data i)"
      using i that apart [OF order_refl, of i] by (cases "at_lock st data k = at_lock st data p") auto
    then show "?s (at_param st data i) = stat (at_param st data i)"
      using frame i by auto
  qed
  moreover have "merge_loop st cs data (data ! k) (Suc p) = Some rest"
    using l rest(1) by (auto simp: at_lock_def)
  ultimately show ?thesis unfolding merge_result_def by blast
qed

lemma merge_loop_result:
  assumes "grouped st data" "merge_pre st cs data stat k pos"
  shows "merge_result st cs data stat k pos"
  using assms(2)
proof (induction pos arbitrary: k stat rule: less_induct)
  case (less pos)
  show ?case
  proof (cases pos)
    case 0
    have "merge_post st cs data stat k 0 []"
    proof (cases "cs (at_lock st data k)")
      case True
      then show ?thesis using less.prems merge_done 0 unfolding merge_pre_def by blast
    next
      case False
      then show ?thesis by (auto simp: merge_post_def)
    qed
    then show ?thesis unfolding merge_result_def 0 by simp
  next
    case (Suc p)
    note ih = less.IH [unfolded Suc less_Suc_eq_le]
    show ?thesis
      using merge_read_branch [OF assms(1) less.prems [unfolded Suc] _ _ _ ih]
        merge_write_branch [OF assms(1) less.prems [unfolded Suc] _ _ _ ih]
        merge_other_branch [OF assms(1) less.prems [unfolded Suc] _ ih]
      unfolding Suc by blast
  qed
qed

lemma sorted_grouped:
  assumes "sorted_wrt (lock_before st) data" "distinct (map (d_status_param \<circ> st) data)"
  shows "grouped st data"
  unfolding grouped_def
proof (intro conjI allI impI)
  fix i j k
  assume "i < j" "j < k" "k < length data" "at_lock st data i = at_lock st data k"
  moreover have "lock_before st (data ! i) (data ! j)" "lock_before st (data ! j) (data ! k)"
    using assms(1) calculation by (simp_all add: sorted_wrt_iff_nth_less)
  ultimately show "at_lock st data j = at_lock st data i"
    unfolding lock_before_def at_lock_def by auto
qed (rule assms(2))

lemma merge_status_copies:
  assumes "grouped (sys_data S) data"
  shows "\<exists>copies. thr_lock_merge_status data S =
      Some (S\<lparr>sys_events := sys_events S @ map (\<lambda>(to, from). Copy_status to from) copies\<rparr>) \<and>
    (\<forall>stat :: nat \<Rightarrow> 'v. \<forall>i < length data. l_copy_status (sys_lock S (at_lock (sys_data S) data i)) \<longrightarrow>
      (\<exists>r. merged (sys_data S) data stat (run_copies copies stat) i r))"
proof (cases "length data > 1")
  case True
  let ?st = "sys_data S" and ?cs = "\<lambda>a. l_copy_status (sys_lock S a)" and ?k = "length data - 1"
  have k: "?k < length data" using True by simp
  have pre: "merge_pre ?st ?cs data stat ?k ?k" for stat :: "nat \<Rightarrow> 'v"
  proof (rule merge_pre_single [OF k])
    have "i = ?k" if "?k \<le> i" "i < length data" for i using that by simp
    moreover have "\<not> (?k < i \<and> i < length data)" for i using k by linarith
    ultimately show "merge_inv ?st data stat ?k ?k" unfolding merge_inv_def by blast
  qed
  obtain copies where c: "merge_loop ?st ?cs data (data ! ?k) ?k = Some copies"
    using merge_loop_result [OF assms pre [of "\<lambda>_. undefined"]] unfolding merge_result_def by auto
  have "\<exists>r. merged ?st data stat (run_copies copies stat) i r"
    if i: "i < length data" "?cs (at_lock ?st data i)" for stat :: "nat \<Rightarrow> 'v" and i
  proof -
    have "merge_post ?st ?cs data stat ?k ?k copies"
      using merge_loop_result [OF assms pre [of stat]] c unfolding merge_result_def by auto
    moreover have "i < ?k \<or> at_lock ?st data i = at_lock ?st data ?k"
      using i(1) by (cases "i = ?k") auto
    ultimately show ?thesis using i unfolding merge_post_def by blast
  qed
  then show ?thesis using True c unfolding thr_lock_merge_status_def by (intro exI [of _ copies]) simp
next
  case False
  have "merged (sys_data S) data stat stat i i" if "i < length data" for stat :: "nat \<Rightarrow> 'v" and i
  proof -
    have "j = i" if "j < length data" for j using False that \<open>i < length data\<close> by linarith
    then show ?thesis unfolding merged_def using that by blast
  qed
  then show ?thesis using False unfolding thr_lock_merge_status_def by (intro exI [of _ "[]"]) auto
qed

text \<open>C21: After \<open>thr_lock_merge_status\<close> on a sorted array of locked instances, all instances of one
  table whose engine has \<open>copy_status\<close> hold the same status, that of one instance of the
  table, and of one that writes if there is one, so that the changes of the writing instance
  cannot be lost; every access stays inside the array.\<close>

theorem merge_status_shares:
  assumes "locks_apart (sys_data S) data0" and "distinct (map (d_status_param \<circ> sys_data S) data0)"
    and "data = sort_locks (sys_data S) data0"
  shows "\<exists>copies. thr_lock_merge_status data S =
      Some (S\<lparr>sys_events := sys_events S @ map (\<lambda>(to, from). Copy_status to from) copies\<rparr>) \<and>
    (\<forall>stat :: nat \<Rightarrow> 'v. \<forall>i < length data. l_copy_status (sys_lock S (at_lock (sys_data S) data i)) \<longrightarrow>
      (\<exists>r < length data. at_lock (sys_data S) data r = at_lock (sys_data S) data i \<and>
        (\<forall>j < length data. at_lock (sys_data S) data j = at_lock (sys_data S) data i \<longrightarrow>
          run_copies copies stat (at_param (sys_data S) data j) = stat (at_param (sys_data S) data r)) \<and>
        ((\<exists>j < length data. at_lock (sys_data S) data j = at_lock (sys_data S) data i \<and>
            at_write (sys_data S) data j) \<longrightarrow> at_write (sys_data S) data r)))"
proof -
  have "mset data = mset data0" using assms(3) by (simp add: sort_locks_eq)
  then have "mset (map (d_status_param \<circ> sys_data S) data) = mset (map (d_status_param \<circ> sys_data S) data0)"
    by simp
  then have "distinct (map (d_status_param \<circ> sys_data S) data)"
    using assms(2) mset_eq_imp_distinct_iff by blast
  then have "grouped (sys_data S) data"
    by (rule sorted_grouped [rotated]) (simp add: assms(3) sort_locks_eq lock_key_sorted [OF assms(1)])
  from merge_status_copies [OF this] show ?thesis unfolding merged_def by blast
qed

definition sample_system :: lock_system where
  "sample_system = \<lparr>sys_lock = (\<lambda>a. thr_lock_init\<lparr>l_copy_status := True\<rparr>),
     sys_data = (\<lambda>d. \<lparr>d_owner = None, d_lock = 4096, d_cond = False,
       d_type = (if d = 0 then TL_READ else TL_WRITE), d_status_param = d\<rparr>),
     sys_events = []\<rparr>"

lemma sample_system_sorts: "sort_locks (sys_data sample_system) [0, 1] = [1, 0]"
  by (simp add: sort_locks_def sort_step_def LOCK_CMP_def lock_key_def sample_system_def u32_def)

lemma sample_system_apart: "locks_apart (sys_data sample_system) [0, 1]"
  by (simp add: locks_apart_def sample_system_def)

theorem sort_locks_order_witness:
  "sort_locks (sys_data sample_system) [0, 1] = [1, 0] \<and>
   sorted_wrt (lock_before (sys_data sample_system)) (sort_locks (sys_data sample_system) [0, 1])"
  using sort_locks_order [OF sample_system_apart] sample_system_sorts by blast

theorem merge_status_shares_witness:
  "\<exists>copies. \<forall>stat :: nat \<Rightarrow> nat. run_copies copies stat 0 = stat 1 \<and> run_copies copies stat 1 = stat 1"
proof -
  let ?st = "sys_data sample_system"
  have d: "distinct (map (d_status_param \<circ> ?st) [0, 1])" by (simp add: sample_system_def)
  have cs: "l_copy_status (sys_lock sample_system a)" for a by (simp add: sample_system_def)
  have at: "at_lock ?st [1, 0] i = 4096" "at_param ?st [1, 0] 0 = 1" "at_param ?st [1, 0] 1 = 0"
    "at_write ?st [1, 0] 0" "\<not> at_write ?st [1, 0] 1" for i
    by (simp_all add: at_defs sample_system_def type_order)
  note shares = merge_status_shares [OF sample_system_apart d sample_system_sorts [symmetric], where 'v = nat]
  then obtain copies where c: "\<forall>stat :: nat \<Rightarrow> nat. \<forall>i < length [1, 0 :: nat].
      l_copy_status (sys_lock sample_system (at_lock ?st [1, 0] i)) \<longrightarrow>
      (\<exists>r < length [1, 0 :: nat]. at_lock ?st [1, 0] r = at_lock ?st [1, 0] i \<and>
        (\<forall>j < length [1, 0 :: nat]. at_lock ?st [1, 0] j = at_lock ?st [1, 0] i \<longrightarrow>
          run_copies copies stat (at_param ?st [1, 0] j) = stat (at_param ?st [1, 0] r)) \<and>
        ((\<exists>j < length [1, 0 :: nat]. at_lock ?st [1, 0] j = at_lock ?st [1, 0] i \<and>
            at_write ?st [1, 0] j) \<longrightarrow> at_write ?st [1, 0] r))"
    by (elim exE conjE) (rule that)
  have "run_copies copies stat 0 = stat 1 \<and> run_copies copies stat 1 = stat 1" for stat :: "nat \<Rightarrow> nat"
  proof -
    obtain r where r: "r < 2" "\<And>j. j < 2 \<Longrightarrow> run_copies copies stat (at_param ?st [1, 0] j) =
        stat (at_param ?st [1, 0] r)" "at_write ?st [1, 0] r"
      using c [rule_format, of 0 stat] cs at(4) unfolding at(1) by (auto simp: numeral_2_eq_2)
    then have "r = 0" using at(5) by (cases r) (auto simp: less_Suc_eq numeral_2_eq_2)
    then show ?thesis using r(2) [of 0] r(2) [of 1] unfolding at(2,3) by (simp add: at(2) [simplified])
  qed
  then show ?thesis by blast
qed

end
