(* ===== verification/NetServ.thy ===== *)
theory NetServ
  imports NetPack
begin

unbundle bit_operations_syntax

text \<open>
  The packet layer of the client/server protocol, \<open>src/sql/net_serv.cc\<close>, as built into the client
  library (no alarms) and without compression: logical packets are cut into frames of a four-byte
  header and at most \<open>MAX_PACKET_LENGTH\<close> bytes, written through a buffer, and put together again by
  the reader.  The transport below (\<open>Vio\<close>, a structure of function pointers) is a parameter: its
  state is of any type, its operations a record.  The pointers into \<open>net->buff\<close> are offsets;
  \<open>None\<close> is an access outside a buffer or, for the loop of \<open>my_net_read\<close>, no end.
\<close>

section \<open>State\<close>

datatype net_errno =
    No_errno | ER_NET_PACKET_TOO_LARGE | ER_OUT_OF_RESOURCES | ER_NET_FCNTL_ERROR
  | ER_NET_READ_INTERRUPTED | ER_NET_READ_ERROR | ER_NET_WRITE_INTERRUPTED | ER_NET_ERROR_ON_WRITE

text \<open>\<open>buff_end\<close> is \<open>buff + max_packet\<close> throughout.\<close>

record NET =
  net_vio :: bool
  net_buff :: "uchar list"
  write_pos :: nat
  read_pos :: nat
  where_b :: nat
  max_packet :: nat
  max_packet_size :: nat
  pkt_nr :: nat
  compress_pkt_nr :: nat
  net_retry_count :: nat
  net_error :: nat
  last_errno :: net_errno
  reading_or_writing :: nat

record 'v vio_ops =
  vio_write :: "'v \<Rightarrow> uchar list \<Rightarrow> int \<times> 'v"
  vio_read :: "'v \<Rightarrow> nat \<Rightarrow> int \<times> uchar list \<times> 'v"
  vio_should_retry :: "'v \<Rightarrow> bool"
  vio_was_interrupted :: "'v \<Rightarrow> bool"
  vio_is_blocking :: "'v \<Rightarrow> bool"
  vio_blocking :: "'v \<Rightarrow> bool \<Rightarrow> int \<times> 'v"

definition NET_HEADER_SIZE :: nat where "NET_HEADER_SIZE = 4"
definition COMP_HEADER_SIZE :: nat where "COMP_HEADER_SIZE = 3"
definition IO_SIZE :: nat where "IO_SIZE = 4096"
definition MAX_PACKET_LENGTH :: nat where "MAX_PACKET_LENGTH = 256 * 256 * 256 - 1"

text \<open>\<open>memcpy\<close> into a buffer.\<close>

definition memcpy :: "uchar list \<Rightarrow> nat \<Rightarrow> uchar list \<Rightarrow> uchar list option" where
  "memcpy buff pos bytes =
     (if pos + length bytes \<le> length buff
      then Some (take pos buff @ bytes @ drop (pos + length bytes) buff) else None)"

section \<open>Set-up\<close>

text \<open>The limits of the client library, from its variables \<open>net_buffer_length\<close> and
  \<open>max_allowed_packet\<close> (the timeouts are the transport's).\<close>

definition my_net_local_init :: "nat \<Rightarrow> nat \<Rightarrow> NET \<Rightarrow> NET" where
  "my_net_local_init net_buffer_length max_allowed_packet net =
     net\<lparr>max_packet := u32 (int net_buffer_length), net_retry_count := 1,
         max_packet_size := max net_buffer_length max_allowed_packet\<rparr>"

text \<open>\<open>None\<close> when the allocation fails.\<close>

definition my_net_init ::
  "(nat \<Rightarrow> uchar list option) \<Rightarrow> nat \<Rightarrow> nat \<Rightarrow> NET \<Rightarrow> bool \<Rightarrow> NET option" where
  "my_net_init my_malloc net_buffer_length max_allowed_packet net vio =
     (let net = my_net_local_init net_buffer_length max_allowed_packet (net\<lparr>net_vio := vio\<rparr>)
      in case my_malloc (max_packet net + NET_HEADER_SIZE + COMP_HEADER_SIZE) of
           None \<Rightarrow> None
         | Some buff \<Rightarrow> Some (net\<lparr>net_buff := buff, net_error := 0, pkt_nr := 0,
             compress_pkt_nr := 0, write_pos := 0, read_pos := 0, reading_or_writing := 0, where_b := 0,
             last_errno := No_errno\<rparr>))"

text \<open>\<open>net_realloc\<close> returns whether it failed.\<close>

definition net_realloc ::
  "(uchar list \<Rightarrow> nat \<Rightarrow> uchar list option) \<Rightarrow> NET \<Rightarrow> nat \<Rightarrow> bool \<times> NET" where
  "net_realloc my_realloc net len =
     (if len \<ge> max_packet_size net
      then (True, net\<lparr>net_error := 1, last_errno := ER_NET_PACKET_TOO_LARGE\<rparr>)
      else
        let pkt_length = nat (int (len + IO_SIZE - 1) AND NOT (int IO_SIZE - 1))
        in case my_realloc (net_buff net) (pkt_length + NET_HEADER_SIZE + COMP_HEADER_SIZE + 1) of
             None \<Rightarrow> (True, net\<lparr>net_error := 1, last_errno := ER_OUT_OF_RESOURCES\<rparr>)
           | Some buff \<Rightarrow> (False, net\<lparr>net_buff := buff, write_pos := 0, max_packet := pkt_length\<rparr>))"

text \<open>\<open>net_clear\<close>: the loop that throws away what the socket has ready (\<open>net_data_is_ready\<close>, which
  polls the socket, is part of the transport), and the function.\<close>

partial_function (option) skip_ready ::
  "'v vio_ops \<Rightarrow> ('v \<Rightarrow> bool) \<Rightarrow> NET \<Rightarrow> 'v \<Rightarrow> (NET \<times> 'v) option" where
  "skip_ready ops net_data_is_ready net v =
     (if \<not> net_data_is_ready v then Some (net, v)
      else
        case vio_read ops v (max_packet net) of (count, bytes, v) \<Rightarrow>
          if count > 0 then do {
            buff \<leftarrow> memcpy (net_buff net) 0 bytes;
            skip_ready ops net_data_is_ready (net\<lparr>net_buff := buff\<rparr>) v
          }
          else Some (net\<lparr>net_error := 2\<rparr>, v))"

definition net_clear ::
  "'v vio_ops \<Rightarrow> ('v \<Rightarrow> bool) \<Rightarrow> NET \<Rightarrow> 'v \<Rightarrow> bool \<Rightarrow> (NET \<times> 'v) option" where
  "net_clear ops net_data_is_ready net v clear_buffer = do {
     (net, v) \<leftarrow> (if clear_buffer then skip_ready ops net_data_is_ready net v else Some (net, v));
     Some (net\<lparr>pkt_nr := 0, compress_pkt_nr := 0, write_pos := 0\<rparr>, v)
   }"

section \<open>Writing\<close>

text \<open>The loop that makes the socket blocking after an interrupted transfer; \<open>n\<close> is
  \<open>retry_count\<close>.  The result is whether it succeeded.\<close>

function set_blocking :: "'v vio_ops \<Rightarrow> nat \<Rightarrow> 'v \<Rightarrow> nat \<Rightarrow> bool \<times> 'v" where
  "set_blocking ops retry_limit v n =
     (case vio_blocking ops v True of (r, v) \<Rightarrow>
        if r < 0 then
          if vio_should_retry ops v \<and> n < retry_limit then set_blocking ops retry_limit v (n + 1)
          else (False, v)
        else (True, v))"
  by pat_completeness auto
termination
  by (relation "measure (\<lambda>(ops, retry_limit, v, n). retry_limit - n)") auto

text \<open>The loop of \<open>net_real_write\<close> over the bytes not yet written.\<close>

function write_loop ::
  "'v vio_ops \<Rightarrow> NET \<Rightarrow> 'v \<Rightarrow> uchar list \<Rightarrow> bool \<Rightarrow> nat \<Rightarrow> (uchar list \<times> NET \<times> bool \<times> 'v) option" where
  "write_loop ops net v data alarmed n =
     (if data = [] then Some ([], net, alarmed, v)
      else
        case vio_write ops v data of (len, v) \<Rightarrow>
          if len \<le> 0 then
            let interrupted = vio_should_retry ops v
            in if (interrupted \<or> len = 0) \<and> \<not> alarmed then
                 (case set_blocking ops (net_retry_count net) v n of
                    (ok, v) \<Rightarrow>
                      if ok then write_loop ops net v data True 0
                      else Some (data, net\<lparr>net_error := 2, last_errno := ER_NET_PACKET_TOO_LARGE\<rparr>, True, v))
               else if alarmed \<and> interrupted \<and> n < net_retry_count net
               then write_loop ops net v data alarmed (n + 1)
               else Some (data, net\<lparr>net_error := 2, last_errno :=
                      (if interrupted then ER_NET_WRITE_INTERRUPTED else ER_NET_ERROR_ON_WRITE)\<rparr>, alarmed, v)
          else if length data < nat len then None
          else write_loop ops net v (drop (nat len) data) alarmed n)"
  by pat_completeness auto
termination
  by (relation "measures [\<lambda>(ops, net, v, data, alarmed, n). length data,
      \<lambda>(ops, net, v, data, alarmed, n). if alarmed then 0 else 1,
      \<lambda>(ops, net, v, data, alarmed, n). net_retry_count net - n]") auto

declare set_blocking.simps [simp del] write_loop.simps [simp del]

definition net_real_write ::
  "'v vio_ops \<Rightarrow> NET \<Rightarrow> 'v \<Rightarrow> uchar list \<Rightarrow> (int \<times> NET \<times> 'v) option" where
  "net_real_write ops net v packet =
     (let net_blocking = vio_is_blocking ops v
      in if net_error net = 2 then Some (- 1, net, v)
         else do {
           (rest, net, alarmed, v) \<leftarrow> write_loop ops (net\<lparr>reading_or_writing := 2\<rparr>) v packet False 0;
           Some (if rest \<noteq> [] then 1 else 0, net\<lparr>reading_or_writing := 0\<rparr>,
             if alarmed then snd (vio_blocking ops v net_blocking) else v)
         })"

definition net_flush :: "'v vio_ops \<Rightarrow> NET \<Rightarrow> 'v \<Rightarrow> (bool \<times> NET \<times> 'v) option" where
  "net_flush ops net v =
     (if write_pos net \<noteq> 0 then do {
        (rc, net, v) \<leftarrow> net_real_write ops net v (take (write_pos net) (net_buff net));
        Some (rc \<noteq> 0, net\<lparr>write_pos := 0\<rparr>, v)
      } else Some (False, net, v))"

text \<open>The end of \<open>net_write_buff\<close>, its part once the buffer is empty, and the whole function; the
  result is whether it failed.\<close>

definition buff_rest :: "'v vio_ops \<Rightarrow> NET \<Rightarrow> 'v \<Rightarrow> uchar list \<Rightarrow> (bool \<times> NET \<times> 'v) option" where
  "buff_rest ops net v packet = do {
     buff \<leftarrow> memcpy (net_buff net) (write_pos net) packet;
     Some (False, net\<lparr>net_buff := buff, write_pos := write_pos net + length packet\<rparr>, v)
   }"

definition write_direct ::
  "'v vio_ops \<Rightarrow> NET \<Rightarrow> 'v \<Rightarrow> uchar list \<Rightarrow> (bool \<times> NET \<times> 'v) option" where
  "write_direct ops net v packet =
     (if length packet > max_packet net then do {
        (rc, net, v) \<leftarrow> net_real_write ops net v packet;
        Some (rc \<noteq> 0, net, v)
      } else buff_rest ops net v packet)"

definition net_write_buff ::
  "'v vio_ops \<Rightarrow> NET \<Rightarrow> 'v \<Rightarrow> uchar list \<Rightarrow> (bool \<times> NET \<times> 'v) option" where
  "net_write_buff ops net v packet =
     (let left_length = max_packet net - write_pos net
      in if length packet > left_length then do {
           (rc, net, v, packet) \<leftarrow>
             (if write_pos net \<noteq> 0 then do {
                buff \<leftarrow> memcpy (net_buff net) (write_pos net) (take left_length packet);
                (rc, net, v) \<leftarrow> net_real_write ops (net\<lparr>net_buff := buff\<rparr>) v
                  (take (write_pos net + left_length) buff);
                Some (rc, if rc \<noteq> 0 then net else net\<lparr>write_pos := 0\<rparr>, v, drop left_length packet)
              } else Some (0, net, v, packet));
           if rc \<noteq> 0 then Some (True, net, v) else write_direct ops net v packet
         }
         else buff_rest ops net v packet)"

text \<open>The four bytes of a header; \<open>buff[3]\<close> is the packet number, which is then counted up.\<close>

definition net_header :: "nat \<Rightarrow> nat \<Rightarrow> uchar list option" where
  "net_header len nr = do {
     buff \<leftarrow> int3store (replicate NET_HEADER_SIZE 0) 0 len;
     put buff 3 (of_nat nr)
   }"

definition next_pkt :: "NET \<Rightarrow> NET" where
  "next_pkt net = net\<lparr>pkt_nr := u32 (int (pkt_nr net) + 1)\<rparr>"

function my_net_write_loop ::
  "'v vio_ops \<Rightarrow> NET \<Rightarrow> 'v \<Rightarrow> uchar list \<Rightarrow> (bool \<times> NET \<times> 'v) option" where
  "my_net_write_loop ops net v packet =
     (if length packet \<ge> MAX_PACKET_LENGTH then do {
        buff \<leftarrow> net_header MAX_PACKET_LENGTH (pkt_nr net);
        (rc, net, v) \<leftarrow> net_write_buff ops (next_pkt net) v buff;
        if rc then Some (True, net, v) else do {
          (rc, net, v) \<leftarrow> net_write_buff ops net v (take MAX_PACKET_LENGTH packet);
          if rc then Some (True, net, v)
          else my_net_write_loop ops net v (drop MAX_PACKET_LENGTH packet)
        }
      } else do {
        buff \<leftarrow> net_header (length packet) (pkt_nr net);
        (rc, net, v) \<leftarrow> net_write_buff ops (next_pkt net) v buff;
        if rc then Some (True, net, v) else net_write_buff ops net v packet
      })"
  by pat_completeness auto
termination
  by (relation "measure (\<lambda>(ops, net, v, packet). length packet)") (auto simp: MAX_PACKET_LENGTH_def)

declare my_net_write_loop.simps [simp del]

definition my_net_write :: "'v vio_ops \<Rightarrow> NET \<Rightarrow> 'v \<Rightarrow> uchar list \<Rightarrow> (bool \<times> NET \<times> 'v) option" where
  "my_net_write ops net v packet =
     (if \<not> net_vio net then Some (False, net, v) else my_net_write_loop ops net v packet)"

text \<open>\<open>net_write_command\<close>: the command byte stands behind the first header.  \<open>command_last\<close> writes the
  last frame and flushes; \<open>command_loop\<close> is the \<open>do\<close> loop over the full frames with what follows it.
  \<open>command\<close> is the command byte if it is still to be written, \<open>len\<close> what the code passes for the
  length of \<open>packet\<close>, \<open>full\<close> its variable \<open>length\<close>; the reads of \<open>packet\<close> are checked against its end.\<close>

definition command_last ::
  "'v vio_ops \<Rightarrow> NET \<Rightarrow> 'v \<Rightarrow> uchar list \<Rightarrow> uchar list \<Rightarrow> uchar list \<Rightarrow> nat \<Rightarrow> nat \<Rightarrow> (bool \<times> NET \<times> 'v) option" where
  "command_last ops net v command header packet len full = do {
     buff \<leftarrow> net_header full (pkt_nr net);
     (rc, net, v) \<leftarrow> net_write_buff ops (next_pkt net) v (buff @ command);
     if rc then Some (True, net, v) else do {
       (rc, net, v) \<leftarrow> (if header \<noteq> [] then net_write_buff ops net v header else Some (False, net, v));
       if rc then Some (True, net, v)
       else if length packet < len then None
       else do {
         (rc, net, v) \<leftarrow> net_write_buff ops net v (take len packet);
         if rc then Some (True, net, v) else net_flush ops net v
       }
     }
   }"

function command_loop ::
  "'v vio_ops \<Rightarrow> NET \<Rightarrow> 'v \<Rightarrow> uchar list \<Rightarrow> uchar list \<Rightarrow> uchar list \<Rightarrow> nat \<Rightarrow> nat \<Rightarrow> (bool \<times> NET \<times> 'v) option" where
  "command_loop ops net v command header packet len full = do {
     buff \<leftarrow> net_header MAX_PACKET_LENGTH (pkt_nr net);
     (rc, net, v) \<leftarrow> net_write_buff ops (next_pkt net) v (buff @ command);
     if rc then Some (True, net, v) else do {
       (rc, net, v) \<leftarrow> net_write_buff ops net v header;
       if rc then Some (True, net, v)
       else if length packet < len then None
       else do {
         (rc, net, v) \<leftarrow> net_write_buff ops net v (take len packet);
         if rc then Some (True, net, v)
         else if full - MAX_PACKET_LENGTH \<ge> MAX_PACKET_LENGTH
         then command_loop ops net v [] [] (drop len packet) MAX_PACKET_LENGTH (full - MAX_PACKET_LENGTH)
         else command_last ops net v [] [] (drop len packet) (full - MAX_PACKET_LENGTH) (full - MAX_PACKET_LENGTH)
       }
     }
   }"
  by pat_completeness auto
termination
  by (relation "measure (\<lambda>(ops, net, v, command, header, packet, len, full). full)")
    (auto simp: MAX_PACKET_LENGTH_def)

declare command_loop.simps [simp del]

definition net_write_command ::
  "'v vio_ops \<Rightarrow> NET \<Rightarrow> 'v \<Rightarrow> uchar \<Rightarrow> uchar list \<Rightarrow> uchar list \<Rightarrow> (bool \<times> NET \<times> 'v) option" where
  "net_write_command ops net v command header packet =
     (let full = length packet + 1 + length header
      in if full \<ge> MAX_PACKET_LENGTH
         then command_loop ops net v [command] header packet
           (u64 (int MAX_PACKET_LENGTH - 1 - int (length header))) full
         else command_last ops net v [command] header packet (length packet) full)"

section \<open>Reading\<close>

definition packet_error :: nat where
  "packet_error = 2 ^ 64 - 1"

text \<open>The inner loop of \<open>my_real_read\<close>: \<open>remain\<close> bytes to offset \<open>pos\<close>; the result is whether they
  came.\<close>

function read_loop ::
  "'v vio_ops \<Rightarrow> NET \<Rightarrow> 'v \<Rightarrow> nat \<Rightarrow> nat \<Rightarrow> bool \<Rightarrow> nat \<Rightarrow> (bool \<times> NET \<times> bool \<times> nat \<times> 'v) option" where
  "read_loop ops net v pos remain alarmed n =
     (if remain = 0 then Some (True, net, alarmed, n, v)
      else
        case vio_read ops v remain of (len, bytes, v) \<Rightarrow>
          if len \<le> 0 then
            let interrupted = vio_should_retry ops v
            in if (interrupted \<or> len = 0) \<and> \<not> alarmed then
                 (case set_blocking ops (net_retry_count net) v n of
                    (ok, v) \<Rightarrow>
                      if ok then read_loop ops net v pos remain True 0
                      else Some (False, net\<lparr>net_error := 2, last_errno := ER_NET_FCNTL_ERROR\<rparr>, True, n, v))
               else if alarmed \<and> interrupted \<and> n < net_retry_count net
               then read_loop ops net v pos remain alarmed (n + 1)
               else Some (False, net\<lparr>net_error := 2, last_errno :=
                      (if vio_was_interrupted ops v then ER_NET_READ_INTERRUPTED else ER_NET_READ_ERROR)\<rparr>,
                      alarmed, n, v)
          else if remain < nat len \<or> length bytes \<noteq> nat len then None
          else do {
            buff \<leftarrow> memcpy (net_buff net) pos bytes;
            read_loop ops (net\<lparr>net_buff := buff\<rparr>) v (pos + nat len) (remain - nat len) alarmed n
          })"
  by pat_completeness auto
termination
  by (relation "measures [\<lambda>(ops, net, v, pos, remain, alarmed, n). remain,
      \<lambda>(ops, net, v, pos, remain, alarmed, n). if alarmed then 0 else 1,
      \<lambda>(ops, net, v, pos, remain, alarmed, n). net_retry_count net - n]") auto

declare read_loop.simps [simp del]

text \<open>\<open>my_real_read\<close>: its part once the length is known (the end of the first round and the second),
  all of it up to its label \<open>end\<close>, and the whole function.  The first component of the result is the
  length or \<open>packet_error\<close>.\<close>

definition read_payload ::
  "'v vio_ops \<Rightarrow> (uchar list \<Rightarrow> nat \<Rightarrow> uchar list option) \<Rightarrow> NET \<Rightarrow> 'v \<Rightarrow> nat \<Rightarrow> bool \<Rightarrow> nat \<Rightarrow>
    (nat \<times> NET \<times> bool \<times> 'v) option" where
  "read_payload ops my_realloc net v len alarmed n =
     (let helping = len + where_b net in
      case (if helping \<ge> max_packet net then net_realloc my_realloc net helping else (False, net)) of
        (failed, net) \<Rightarrow>
          if failed then Some (packet_error, net, alarmed, v) else do {
            (ok, net, alarmed, n, v) \<leftarrow> read_loop ops net v (where_b net) len alarmed n;
            Some (if ok then len else packet_error, net, alarmed, v)
          })"

definition real_read_body ::
  "'v vio_ops \<Rightarrow> (uchar list \<Rightarrow> nat \<Rightarrow> uchar list option) \<Rightarrow> NET \<Rightarrow> 'v \<Rightarrow> (nat \<times> NET \<times> bool \<times> 'v) option" where
  "real_read_body ops my_realloc net v = do {
     (ok, net, alarmed, n, v) \<leftarrow> read_loop ops net v (where_b net) NET_HEADER_SIZE False 0;
     if \<not> ok then Some (packet_error, net, alarmed, v) else do {
       b3 \<leftarrow> get (net_buff net) (where_b net + 3);
       if b3 \<noteq> of_nat (pkt_nr net) then Some (packet_error, net, alarmed, v) else do {
         let net = next_pkt net;
         let net = net\<lparr>compress_pkt_nr := pkt_nr net\<rparr>;
         len \<leftarrow> uint3korr (net_buff net) (where_b net);
         if len = 0 then Some (0, net, alarmed, v) else read_payload ops my_realloc net v len alarmed n
       }
     }
   }"

definition my_real_read ::
  "'v vio_ops \<Rightarrow> (uchar list \<Rightarrow> nat \<Rightarrow> uchar list option) \<Rightarrow> NET \<Rightarrow> 'v \<Rightarrow> (nat \<times> NET \<times> 'v) option" where
  "my_real_read ops my_realloc net v =
     (let net_blocking = vio_is_blocking ops v in do {
        (len, net, alarmed, v) \<leftarrow> real_read_body ops my_realloc (net\<lparr>reading_or_writing := 1\<rparr>) v;
        Some (len, net\<lparr>reading_or_writing := 0\<rparr>,
          if alarmed then snd (vio_blocking ops v net_blocking) else v)
      })"

text \<open>The loop of \<open>my_net_read\<close> over the frames of a long packet, its part up to the end of that loop,
  and the function.\<close>

partial_function (option) read_more ::
  "'v vio_ops \<Rightarrow> (uchar list \<Rightarrow> nat \<Rightarrow> uchar list option) \<Rightarrow> NET \<Rightarrow> 'v \<Rightarrow> nat \<Rightarrow> nat \<Rightarrow> (nat \<times> NET \<times> 'v) option" where
  "read_more ops my_realloc net v len total_length = do {
     (len', net, v) \<leftarrow> my_real_read ops my_realloc (net\<lparr>where_b := where_b net + len\<rparr>) v;
     if len' = MAX_PACKET_LENGTH then read_more ops my_realloc net v len' (total_length + len)
     else Some (if len' \<noteq> packet_error then len' + (total_length + len) else len', net, v)
   }"

definition read_frames ::
  "'v vio_ops \<Rightarrow> (uchar list \<Rightarrow> nat \<Rightarrow> uchar list option) \<Rightarrow> NET \<Rightarrow> 'v \<Rightarrow> (nat \<times> NET \<times> 'v) option" where
  "read_frames ops my_realloc net v = do {
     (len, net, v) \<leftarrow> my_real_read ops my_realloc net v;
     if len = MAX_PACKET_LENGTH then do {
       let save_pos = where_b net;
       (len, net, v) \<leftarrow> read_more ops my_realloc net v len 0;
       Some (len, net\<lparr>where_b := save_pos\<rparr>, v)
     } else Some (len, net, v)
   }"

definition my_net_read ::
  "'v vio_ops \<Rightarrow> (uchar list \<Rightarrow> nat \<Rightarrow> uchar list option) \<Rightarrow> NET \<Rightarrow> 'v \<Rightarrow> (nat \<times> NET \<times> 'v) option" where
  "my_net_read ops my_realloc net v = do {
     (len, net, v) \<leftarrow> read_frames ops my_realloc net v;
     let net = net\<lparr>read_pos := where_b net\<rparr>;
     if len \<noteq> packet_error then do {
       buff \<leftarrow> put (net_buff net) (read_pos net + len) 0;
       Some (len, net\<lparr>net_buff := buff\<rparr>, v)
     } else Some (len, net, v)
   }"

end
