(* ===== verification/NetWrite.thy ===== *)
theory NetWrite
  imports NetServ "HOL-Library.Sublist"
begin

text \<open>
  What \<open>my_net_write\<close>, \<open>net_write_command\<close> and \<open>net_flush\<close> put on the wire: over any transport that
  takes bytes in order, the frames of the packet, behind what was pending, whether they go through
  the buffer or around it, and if the transport fails a prefix of them.
\<close>

section \<open>What is written\<close>

text \<open>What the packet layer relies on of a transport that carries a stream of bytes: \<open>vio_write\<close>
  takes a prefix of the bytes it is given (none when it returns an error), and switching the
  blocking mode writes nothing.  \<open>sent\<close> is the bytes it has taken so far.\<close>

definition stream_writer :: "'v vio_ops \<Rightarrow> ('v \<Rightarrow> uchar list) \<Rightarrow> bool" where
  "stream_writer ops sent \<longleftrightarrow>
     (\<forall>v data. fst (vio_write ops v data) \<le> int (length data) \<and>
        sent (snd (vio_write ops v data)) = sent v @ take (nat (fst (vio_write ops v data))) data) \<and>
     (\<forall>v mode. sent (snd (vio_blocking ops v mode)) = sent v)"

definition net_ok :: "NET \<Rightarrow> bool" where
  "net_ok net \<longleftrightarrow> write_pos net \<le> max_packet net \<and>
     max_packet net + NET_HEADER_SIZE + COMP_HEADER_SIZE \<le> length (net_buff net)"

definition pending :: "NET \<Rightarrow> uchar list" where
  "pending net = take (write_pos net) (net_buff net)"

text \<open>The bytes on the wire for a packet whose first frame has the given number.\<close>

function frames :: "nat \<Rightarrow> uchar list \<Rightarrow> uchar list" where
  "frames nr packet =
     (if length packet \<ge> MAX_PACKET_LENGTH
      then le_bytes 3 MAX_PACKET_LENGTH @ [of_nat nr] @ take MAX_PACKET_LENGTH packet @
        frames (Suc nr) (drop MAX_PACKET_LENGTH packet)
      else le_bytes 3 (length packet) @ [of_nat nr] @ packet)"
  by pat_completeness auto
termination
  by (relation "measure (\<lambda>(nr, packet). length packet)") (auto simp: MAX_PACKET_LENGTH_def)

declare frames.simps [simp del]

definition frame_count :: "uchar list \<Rightarrow> nat" where
  "frame_count packet = length packet div MAX_PACKET_LENGTH + 1"

lemma stream_writerD:
  assumes "stream_writer ops sent"
  shows "vio_write ops v data = (n, v') \<Longrightarrow> n \<le> int (length data) \<and> sent v' = sent v @ take (nat n) data"
    and "sent (snd (vio_blocking ops v mode)) = sent v"
    and "vio_blocking ops v mode = (r, v') \<Longrightarrow> sent v' = sent v"
proof -
  have W: "fst (vio_write ops v data) \<le> int (length data) \<and>
      sent (snd (vio_write ops v data)) = sent v @ take (nat (fst (vio_write ops v data))) data" for v data
    using assms unfolding stream_writer_def by blast
  have B: "sent (snd (vio_blocking ops v mode)) = sent v" for v mode
    using assms unfolding stream_writer_def by blast
  show "vio_write ops v data = (n, v') \<Longrightarrow> n \<le> int (length data) \<and> sent v' = sent v @ take (nat n) data"
    using W [of v data] by simp
  show "sent (snd (vio_blocking ops v mode)) = sent v" by (rule B)
  show "vio_blocking ops v mode = (r, v') \<Longrightarrow> sent v' = sent v" using B [of v mode] by simp
qed

text \<open>Switching the mode keeps what the mode does not touch (\<open>f\<close> is \<open>sent\<close>, or what is still to be
  received).\<close>

lemma set_blocking_keeps:
  assumes "\<And>v mode. f (snd (vio_blocking ops v mode)) = f v"
  shows "f (snd (set_blocking ops retry_limit v n)) = f v"
  using assms
proof (induction ops retry_limit v n rule: set_blocking.induct)
  case (1 ops retry_limit v n)
  obtain r v1 where b: "vio_blocking ops v True = (r, v1)" by fastforce
  have k: "f v1 = f v" using "1.prems" [of v True] b by simp
  show ?case
  proof (cases "r < 0 \<and> vio_should_retry ops v1 \<and> n < retry_limit")
    case True
    then have "set_blocking ops retry_limit v n = set_blocking ops retry_limit v1 (n + 1)"
      using b by (subst set_blocking.simps) simp
    moreover have "f (snd (set_blocking ops retry_limit v1 (n + 1))) = f v1"
      using "1.IH" [OF b [symmetric]] True "1.prems" by simp
    ultimately show ?thesis using k by simp
  next
    case False
    then have "snd (set_blocking ops retry_limit v n) = v1"
      using b by (subst set_blocking.simps) auto
    then show ?thesis using k by simp
  qed
qed

text \<open>One round of the write loop: it ends, or goes on with bytes taken and the same \<open>NET\<close>.\<close>

lemma write_loop_sends:
  assumes "stream_writer ops sent"
  shows "\<exists>rest net' alarmed' v' taken. write_loop ops net v data alarmed n = Some (rest, net', alarmed', v') \<and>
    data = taken @ rest \<and> sent v' = sent v @ taken \<and>
    (if rest = [] then net' = net
     else \<exists>e. net' = net\<lparr>net_error := 2, last_errno := e\<rparr>)"
  using assms
proof (induction ops net v data alarmed n rule: write_loop.induct)
  case (1 ops net v data alarmed n)
  note w = "1.prems"
  obtain len v1 where wr: "vio_write ops v data = (len, v1)" by fastforce
  have len: "len \<le> int (length data)" and s1: "sent v1 = sent v @ take (nat len) data"
    using stream_writerD(1) [OF w wr] by simp_all
  obtain ok v2 where sb: "set_blocking ops (net_retry_count net) v1 n = (ok, v2)" by fastforce
  have s2: "sent v2 = sent v1"
    using set_blocking_keeps [of sent ops "net_retry_count net" v1 n] stream_writerD(2) [OF w] sb by simp
  note unf = write_loop.simps [of ops net v data alarmed n]
  consider "data = []" | "data \<noteq> []" "0 < len"
    | "data \<noteq> []" "len \<le> 0" "(vio_should_retry ops v1 \<or> len = 0) \<and> \<not> alarmed" ok
    | "data \<noteq> []" "len \<le> 0" "(vio_should_retry ops v1 \<or> len = 0) \<and> \<not> alarmed" "\<not> ok"
    | "data \<noteq> []" "len \<le> 0" "\<not> ((vio_should_retry ops v1 \<or> len = 0) \<and> \<not> alarmed)"
      "alarmed \<and> vio_should_retry ops v1 \<and> n < net_retry_count net"
    | "data \<noteq> []" "len \<le> 0" "\<not> ((vio_should_retry ops v1 \<or> len = 0) \<and> \<not> alarmed)"
      "\<not> (alarmed \<and> vio_should_retry ops v1 \<and> n < net_retry_count net)"
    by linarith
  then show ?case
  proof cases
    case 1
    then show ?thesis by (simp add: write_loop.simps [of ops net v "[]" alarmed n])
  next
    case 2
    have nl: "\<not> length data < nat len" using len by simp
    have eq: "write_loop ops net v data alarmed n = write_loop ops net v1 (drop (nat len) data) alarmed n"
      using 2 wr by (simp add: unf nl)
    from "1.IH"(3) [OF 2(1) wr [symmetric] _ nl w] 2 obtain rest net' alarmed' v' taken where
      r: "write_loop ops net v1 (drop (nat len) data) alarmed n = Some (rest, net', alarmed', v')"
        "drop (nat len) data = taken @ rest" "sent v' = sent v1 @ taken"
        "if rest = [] then net' = net else \<exists>e. net' = net\<lparr>net_error := 2, last_errno := e\<rparr>"
      by force
    have "data = (take (nat len) data @ taken) @ rest"
      using r(2) append_take_drop_id [of "nat len" data] by simp
    moreover have "sent v' = sent v @ take (nat len) data @ taken" using r(3) s1 by simp
    ultimately show ?thesis unfolding eq r(1) using r(4) by blast
  next
    case 3
    have eq: "write_loop ops net v data alarmed n = write_loop ops net v2 data True 0"
      unfolding unf using 3 wr sb by simp
    show ?thesis
      using "1.IH"(1) [OF 3(1) wr [symmetric] 3(2) refl 3(3) sb [symmetric] 3(4) w] s1 s2 3(2)
      unfolding eq by simp
  next
    case 4
    then show ?thesis unfolding unf using wr sb s1 s2 by auto
  next
    case 5
    have eq: "write_loop ops net v data alarmed n = write_loop ops net v1 data alarmed (n + 1)"
      unfolding unf using 5 wr by simp
    show ?thesis
      using "1.IH"(2) [OF 5(1) wr [symmetric] 5(2) refl 5(3) 5(4) w] s1 5(2)
      unfolding eq by simp
  next
    case 6
    have "write_loop ops net v data alarmed n = Some (data, net\<lparr>net_error := 2, last_errno :=
        (if vio_should_retry ops v1 then ER_NET_WRITE_INTERRUPTED else ER_NET_ERROR_ON_WRITE)\<rparr>, alarmed, v1)"
      unfolding unf using 6 wr by (auto simp: Let_def)
    then show ?thesis using 6(1,2) s1 by auto
  qed
qed

lemma net_real_write_sends:
  assumes "stream_writer ops sent"
  shows "\<exists>rc net' v' taken rest. net_real_write ops net v packet = Some (rc, net', v') \<and>
    packet = taken @ rest \<and> sent v' = sent v @ taken \<and>
    (if rc = 0 then rest = [] \<and> net' = net\<lparr>reading_or_writing := 0\<rparr>
     else net_error net' = 2)"
proof (cases "net_error net = 2")
  case True
  then show ?thesis by (auto simp: net_real_write_def)
next
  case False
  obtain rest net' alarmed' v' taken where
    r: "write_loop ops (net\<lparr>reading_or_writing := 2\<rparr>) v packet False 0 = Some (rest, net', alarmed', v')"
      "packet = taken @ rest" "sent v' = sent v @ taken"
      "if rest = [] then net' = net\<lparr>reading_or_writing := 2\<rparr>
       else \<exists>e. net' = net\<lparr>reading_or_writing := 2, net_error := 2, last_errno := e\<rparr>"
    using write_loop_sends [OF assms, of "net\<lparr>reading_or_writing := 2\<rparr>" v packet False 0] by auto
  define v2 where "v2 = (if alarmed' then snd (vio_blocking ops v' (vio_is_blocking ops v)) else v')"
  have "net_real_write ops net v packet = Some (if rest \<noteq> [] then 1 else 0, net'\<lparr>reading_or_writing := 0\<rparr>, v2)"
    using False by (simp add: net_real_write_def r(1) v2_def)
  moreover have "sent v2 = sent v @ taken" using r(3) stream_writerD(2) [OF assms] by (simp add: v2_def)
  ultimately show ?thesis using r(2,4) by (cases "rest = []") auto
qed

text \<open>What a call that writes \<open>bytes\<close> through the buffer has done: nothing but those bytes, behind what
  was pending, has gone out, in order; and if it did not fail all of them are sent or pending.\<close>

definition wrote :: "('v \<Rightarrow> uchar list) \<Rightarrow> NET \<Rightarrow> 'v \<Rightarrow> uchar list \<Rightarrow> bool \<Rightarrow> NET \<Rightarrow> 'v \<Rightarrow> bool" where
  "wrote sent net v bytes failed net' v' \<longleftrightarrow>
     prefix (sent v) (sent v') \<and> prefix (sent v') (sent v @ pending net @ bytes) \<and>
     (if failed then net_error net' = 2
      else net_ok net' \<and> sent v' @ pending net' = sent v @ pending net @ bytes)"

lemma wrote_failed: "wrote sent net v a True net' v' \<Longrightarrow> wrote sent net v (a @ b) True net' v'"
  unfolding wrote_def by (metis append.assoc prefix_prefix)

lemma wrote_trans:
  assumes "wrote sent net v a False net1 v1" "wrote sent net1 v1 b failed net' v'"
  shows "wrote sent net v (a @ b) failed net' v'"
proof -
  have eq: "sent v1 @ pending net1 @ b = sent v @ pending net @ a @ b"
    using assms(1) unfolding wrote_def by (metis append.assoc)
  show ?thesis
    using assms prefix_order.trans unfolding wrote_def eq by auto
qed

lemma wrote_next_pkt [simp]:
  "wrote sent (next_pkt net) v = wrote sent net v" "net_ok (next_pkt net) = net_ok net"
  by (simp_all add: fun_eq_iff wrote_def pending_def net_ok_def next_pkt_def)

lemma memcpy_block:
  assumes "pos + length bytes \<le> length buff"
  obtains buff' where "memcpy buff pos bytes = Some buff'" "length buff' = length buff"
    "take pos buff' = take pos buff" "take (pos + length bytes) buff' = take pos buff @ bytes"
    "take (length bytes) (drop pos buff') = bytes"
proof
  let ?b = "take pos buff @ bytes @ drop (pos + length bytes) buff"
  show "memcpy buff pos bytes = Some ?b" using assms by (simp add: memcpy_def)
  show "length ?b = length buff" "take pos ?b = take pos buff"
    "take (pos + length bytes) ?b = take pos buff @ bytes" "take (length bytes) (drop pos ?b) = bytes"
    using assms by simp_all
qed

lemma buff_rest_wrote:
  assumes "net_ok net" "write_pos net + length packet \<le> max_packet net"
  shows "\<exists>net'. buff_rest ops net v packet = Some (False, net', v) \<and> wrote sent net v packet False net' v \<and>
    pkt_nr net' = pkt_nr net \<and> net_error net' = net_error net"
proof -
  have "write_pos net + length packet \<le> length (net_buff net)"
    using assms by (simp add: net_ok_def)
  then obtain b where b: "memcpy (net_buff net) (write_pos net) packet = Some b"
    "length b = length (net_buff net)"
    "take (write_pos net + length packet) b = take (write_pos net) (net_buff net) @ packet"
    by (rule memcpy_block)
  then show ?thesis
    using assms by (auto simp: buff_rest_def wrote_def pending_def net_ok_def)
qed

text \<open>Sending the whole of what is pending together with \<open>bytes\<close>, and emptying the buffer.\<close>

lemma real_write_wrote:
  assumes "stream_writer ops sent" "net_ok net" "pending net @ bytes = data"
    "pending net1 = pending net" "net_ok net1"
  shows "\<exists>rc net' v'. net_real_write ops net1 v data = Some (rc, net', v') \<and>
    (if rc = 0 then net' = net1\<lparr>reading_or_writing := 0\<rparr> \<and> wrote sent net v bytes False (net'\<lparr>write_pos := 0\<rparr>) v'
     else wrote sent net v bytes True net' v')"
proof -
  obtain rc net' v' taken rest where r: "net_real_write ops net1 v data = Some (rc, net', v')"
    "data = taken @ rest" "sent v' = sent v @ taken"
    "if rc = 0 then rest = [] \<and> net' = net1\<lparr>reading_or_writing := 0\<rparr> else net_error net' = 2"
    using net_real_write_sends [OF assms(1), of net1 v data] by blast
  have "prefix (sent v) (sent v')" "prefix (sent v') (sent v @ pending net @ bytes)"
    using r(2,3) assms(3) by simp_all
  then show ?thesis
    using r assms by (cases "rc = 0") (auto simp: wrote_def net_ok_def pending_def)
qed

lemma net_flush_wrote:
  assumes "stream_writer ops sent" "net_ok net"
  shows "\<exists>failed net' v'. net_flush ops net v = Some (failed, net', v') \<and> wrote sent net v [] failed net' v' \<and>
    write_pos net' = 0 \<and> (\<not> failed \<longrightarrow> pkt_nr net' = pkt_nr net \<and> net_error net' = net_error net)"
proof (cases "write_pos net = 0")
  case True
  then show ?thesis using assms by (auto simp: net_flush_def wrote_def pending_def)
next
  case False
  obtain rc net' v' where r: "net_real_write ops net v (take (write_pos net) (net_buff net)) = Some (rc, net', v')"
    "if rc = 0 then net' = net\<lparr>reading_or_writing := 0\<rparr> \<and> wrote sent net v [] False (net'\<lparr>write_pos := 0\<rparr>) v'
     else wrote sent net v [] True net' v'"
    using real_write_wrote [OF assms(1,2) _ refl assms(2), of "[]" "take (write_pos net) (net_buff net)" v]
    by (auto simp: pending_def)
  then show ?thesis using False by (cases "rc = 0") (auto simp: net_flush_def wrote_def)
qed

lemma write_direct_wrote:
  assumes "stream_writer ops sent" "net_ok net" "write_pos net = 0"
  shows "\<exists>failed net' v'. write_direct ops net v packet = Some (failed, net', v') \<and>
    wrote sent net v packet failed net' v' \<and>
    (\<not> failed \<longrightarrow> pkt_nr net' = pkt_nr net \<and> net_error net' = net_error net)"
proof (cases "length packet > max_packet net")
  case True
  have p: "pending net = []" using assms(3) by (simp add: pending_def)
  obtain rc net' v' where r: "net_real_write ops net v packet = Some (rc, net', v')"
    "if rc = 0 then net' = net\<lparr>reading_or_writing := 0\<rparr> \<and> wrote sent net v packet False (net'\<lparr>write_pos := 0\<rparr>) v'
     else wrote sent net v packet True net' v'"
    using real_write_wrote [OF assms(1,2) _ refl assms(2), of packet packet v] p by auto
  moreover have "net\<lparr>reading_or_writing := 0, write_pos := 0\<rparr> = net\<lparr>reading_or_writing := 0\<rparr>"
    using assms(3) by (cases net) simp
  ultimately have "wrote sent net v packet (rc \<noteq> 0) net' v'" "rc = 0 \<longrightarrow> net' = net\<lparr>reading_or_writing := 0\<rparr>"
    by (auto split: if_splits)
  then show ?thesis using True r(1) by (cases "rc = 0") (auto simp: write_direct_def)
next
  case False
  then show ?thesis
    using buff_rest_wrote [OF assms(2), of packet ops v sent] assms(3) by (auto simp: write_direct_def)
qed

text \<open>The buffer holds something and the bytes do not fit: it is filled up and sent first.\<close>

lemma net_write_buff_full:
  assumes "stream_writer ops sent" "net_ok net"
    and 3: "max_packet net - write_pos net < length packet" "write_pos net \<noteq> 0"
  shows "\<exists>failed net' v'. net_write_buff ops net v packet = Some (failed, net', v') \<and>
    wrote sent net v packet failed net' v' \<and>
    (\<not> failed \<longrightarrow> pkt_nr net' = pkt_nr net \<and> net_error net' = net_error net)"
proof -
  define left where "left = max_packet net - write_pos net"
  have room: "write_pos net + left = max_packet net" using assms(2) by (simp add: left_def net_ok_def)
  note unf = net_write_buff_def [of ops net v packet, folded left_def, unfolded Let_def]
  note 3 = 3 [folded left_def]
  have len: "length (take left packet) = left" using 3(1) by simp
  have "write_pos net + length (take left packet) \<le> length (net_buff net)"
    using assms(2) room len by (simp add: net_ok_def)
  then obtain b where b: "memcpy (net_buff net) (write_pos net) (take left packet) = Some b"
    "length b = length (net_buff net)" "take (write_pos net) b = take (write_pos net) (net_buff net)"
    "take (write_pos net + left) b = take (write_pos net) (net_buff net) @ take left packet"
    using len by (metis memcpy_block)
  let ?net1 = "net\<lparr>net_buff := b\<rparr>"
  have ok1: "net_ok ?net1" using assms(2) b(2) by (simp add: net_ok_def)
  have p1: "pending ?net1 = pending net" using b(3) by (simp add: pending_def)
  have d: "pending net @ take left packet = take (write_pos net + left) b"
    using b(4) by (simp add: pending_def)
  obtain rc net2 v2 where w: "net_real_write ops ?net1 v (take (write_pos net + left) b) = Some (rc, net2, v2)"
    "if rc = 0 then net2 = ?net1\<lparr>reading_or_writing := 0\<rparr> \<and>
       wrote sent net v (take left packet) False (net2\<lparr>write_pos := 0\<rparr>) v2
     else wrote sent net v (take left packet) True net2 v2"
    using real_write_wrote [OF assms(1,2) d p1 ok1] by blast
  show ?thesis
  proof (cases "rc = 0")
    case True
    let ?net3 = "net2\<lparr>write_pos := 0\<rparr>"
    have w3: "wrote sent net v (take left packet) False ?net3 v2" using w(2) unfolding if_P [OF True] by blast
    then have ok3: "net_ok ?net3" by (simp add: wrote_def)
    have "net_write_buff ops net v packet = write_direct ops ?net3 v2 (drop left packet)"
      using 3 True w(1) b(1) by (simp add: unf)
    moreover obtain failed net' v' where
      "write_direct ops ?net3 v2 (drop left packet) = Some (failed, net', v')"
      "wrote sent ?net3 v2 (drop left packet) failed net' v'"
      "\<not> failed \<longrightarrow> pkt_nr net' = pkt_nr ?net3 \<and> net_error net' = net_error ?net3"
      using write_direct_wrote [OF assms(1) ok3, of v2 "drop left packet"] by auto
    ultimately show ?thesis
      using wrote_trans [OF w3, of "drop left packet" failed net' v'] w(2) True by simp
  next
    case False
    then have "net_write_buff ops net v packet = Some (True, net2, v2)"
      using 3 w(1) b(1) by (simp add: unf)
    moreover have "wrote sent net v packet True net2 v2"
      using wrote_failed [of sent net v "take left packet" net2 v2 "drop left packet"] w(2) False by simp
    ultimately show ?thesis by blast
  qed
qed

lemma net_write_buff_wrote:
  assumes "stream_writer ops sent" "net_ok net"
  shows "\<exists>failed net' v'. net_write_buff ops net v packet = Some (failed, net', v') \<and>
    wrote sent net v packet failed net' v' \<and>
    (\<not> failed \<longrightarrow> pkt_nr net' = pkt_nr net \<and> net_error net' = net_error net)"
proof -
  define left where "left = max_packet net - write_pos net"
  have room: "write_pos net + left = max_packet net" using assms(2) by (simp add: left_def net_ok_def)
  note unf = net_write_buff_def [of ops net v packet, folded left_def, unfolded Let_def]
  consider "length packet \<le> left" | "left < length packet" "write_pos net = 0"
    | "left < length packet" "write_pos net \<noteq> 0" by linarith
  then show ?thesis
  proof cases
    case 1
    then have "net_write_buff ops net v packet = buff_rest ops net v packet" by (simp add: unf)
    then show ?thesis using buff_rest_wrote [OF assms(2), of packet ops v sent] 1 room by auto
  next
    case 2
    then have "net_write_buff ops net v packet = write_direct ops net v packet" by (simp add: unf)
    then show ?thesis using write_direct_wrote [OF assms 2(2), of v packet] by simp
  next
    case 3
    then show ?thesis using net_write_buff_full [OF assms] by (simp add: left_def)
  qed
qed

lemma net_header_bytes: "net_header len nr = Some (le_bytes 3 len @ [of_nat nr])"
proof -
  have r: "replicate NET_HEADER_SIZE (0 :: uchar) = [0, 0, 0] @ [0]"
    by (simp add: NET_HEADER_SIZE_def small_numerals)
  have "int3store ([] @ [0, 0, 0] @ [0]) (length ([] :: uchar list)) len = Some ([] @ le_bytes 3 len @ [0])"
    by (rule int3store_block) simp
  moreover have "put (le_bytes 3 len @ [0]) (length (le_bytes 3 len) + 0) (of_nat nr) =
      Some (le_bytes 3 len @ [of_nat nr])"
    unfolding put_append by simp
  ultimately show ?thesis by (simp add: net_header_def r)
qed

text \<open>Two writes one after the other, as the code chains them.\<close>

lemma write_then:
  assumes "stream_writer ops sent" "net_ok net"
    "\<And>net1 v1. \<lbrakk>net_ok net1; pkt_nr net1 = pkt_nr net; net_error net1 = net_error net\<rbrakk> \<Longrightarrow>
      \<exists>failed net' v'. k net1 v1 = Some (failed, net', v') \<and> wrote sent net1 v1 b failed net' v' \<and>
        (\<not> failed \<longrightarrow> P net')"
  shows "\<exists>failed net' v'. do { (rc, net, v) \<leftarrow> net_write_buff ops net v a;
      if rc then Some (True, net, v) else k net v } = Some (failed, net', v') \<and>
    wrote sent net v (a @ b) failed net' v' \<and> (\<not> failed \<longrightarrow> P net')"
proof -
  obtain rc net1 v1 where r: "net_write_buff ops net v a = Some (rc, net1, v1)" "wrote sent net v a rc net1 v1"
    "\<not> rc \<longrightarrow> pkt_nr net1 = pkt_nr net \<and> net_error net1 = net_error net"
    using net_write_buff_wrote [OF assms(1,2), of v a] by blast
  show ?thesis
  proof (cases rc)
    case True
    then show ?thesis using r wrote_failed [of sent net v a net1 v1 b] by auto
  next
    case False
    then have w1: "wrote sent net v a False net1 v1" using r(2) by simp
    then have "net_ok net1" by (simp add: wrote_def)
    then obtain failed net' v' where s: "k net1 v1 = Some (failed, net', v')"
      "wrote sent net1 v1 b failed net' v'" "\<not> failed \<longrightarrow> P net'"
      using assms(3) [of net1 v1] r(3) False by blast
    show ?thesis using wrote_trans [OF w1 s(2)] s(1,3) r(1) False by simp
  qed
qed

lemma u32_add: "u32 (int (u32 x) + y) = u32 (x + y)"
  by (simp add: u32_def mod_add_left_eq)

lemma uchar_u32: "(of_nat (u32 (int n)) :: uchar) = of_nat n"
proof -
  have "u32 (int n) mod 256 = n mod 256"
    by (simp add: u32_def nat_mod_distrib mod_mod_cancel)
  then show ?thesis by (simp add: word_of_nat_eq_iff take_bit_eq_mod)
qed

lemma frames_cong:
  assumes "(of_nat nr :: uchar) = of_nat nr'"
  shows "frames nr packet = frames nr' packet"
  using assms
proof (induction nr packet arbitrary: nr' rule: frames.induct)
  case (1 nr packet)
  have "(of_nat (Suc nr) :: uchar) = of_nat (Suc nr')" using "1.prems" by simp
  then show ?case
    using "1.IH" [of "Suc nr'"] "1.prems" frames.simps [of nr packet] frames.simps [of nr' packet]
    by (cases "length packet \<ge> MAX_PACKET_LENGTH") simp_all
qed

lemma next_pkt_frames: "frames (pkt_nr (next_pkt net)) packet = frames (Suc (pkt_nr net)) packet"
  by (rule frames_cong) (simp add: next_pkt_def uchar_u32 [of "Suc (pkt_nr net)", simplified] add.commute)

lemma next_pkt_simps [simp]:
  "net_error (next_pkt net) = net_error net" "net_vio (next_pkt net) = net_vio net"
  "net_buff (next_pkt net) = net_buff net" "where_b (next_pkt net) = where_b net"
  "max_packet (next_pkt net) = max_packet net" "max_packet_size (next_pkt net) = max_packet_size net"
  "pkt_nr (next_pkt net) = u32 (int (pkt_nr net) + 1)"
  by (simp_all add: next_pkt_def)

lemma frame_count_drop:
  "length packet \<ge> MAX_PACKET_LENGTH \<Longrightarrow> frame_count packet = Suc (frame_count (drop MAX_PACKET_LENGTH packet))"
  by (simp add: frame_count_def le_div_geq MAX_PACKET_LENGTH_def)

lemma frame_count_short: "length packet < MAX_PACKET_LENGTH \<Longrightarrow> frame_count packet = 1"
  by (simp add: frame_count_def)

lemma my_net_write_loop_wrote:
  assumes "stream_writer ops sent" "net_ok net"
  shows "\<exists>failed net' v'. my_net_write_loop ops net v packet = Some (failed, net', v') \<and>
    wrote sent net v (frames (pkt_nr net) packet) failed net' v' \<and>
    (\<not> failed \<longrightarrow> pkt_nr net' = u32 (int (pkt_nr net) + int (frame_count packet)) \<and>
      net_error net' = net_error net)"
  using assms
proof (induction "length packet" arbitrary: net v packet rule: less_induct)
  case less
  let ?n = "next_pkt net" and ?M = "MAX_PACKET_LENGTH"
  have ok: "net_ok ?n" using less.prems(2) by simp
  note unf = my_net_write_loop.simps [of ops net v packet] and w = less.prems(1)
  show ?case
  proof (cases "length packet \<ge> ?M")
    case False
    have "\<exists>failed net' v'. net_write_buff ops net1 v1 packet = Some (failed, net', v') \<and>
        wrote sent net1 v1 packet failed net' v' \<and> (\<not> failed \<longrightarrow> pkt_nr net' = pkt_nr ?n \<and>
        net_error net' = net_error net)"
      if "net_ok net1" "pkt_nr net1 = pkt_nr ?n" "net_error net1 = net_error ?n" for net1 v1
      using net_write_buff_wrote [OF w that(1), of v1 packet] that by auto
    from write_then [OF w ok, of "\<lambda>net v. net_write_buff ops net v packet", OF this, of v
        "le_bytes 3 (length packet) @ [of_nat (pkt_nr net)]"]
    show ?thesis
      using False frames.simps [of "pkt_nr net" packet]
      by (simp add: unf net_header_bytes frame_count_short)
  next
    case True
    let ?rest = "drop ?M packet"
    have short: "length ?rest < length packet" using True by (simp add: MAX_PACKET_LENGTH_def)
    have tail: "\<exists>failed net' v'. my_net_write_loop ops net2 v2 ?rest = Some (failed, net', v') \<and>
        wrote sent net2 v2 (frames (Suc (pkt_nr net)) ?rest) failed net' v' \<and>
        (\<not> failed \<longrightarrow> pkt_nr net' = u32 (int (pkt_nr net) + int (frame_count packet)) \<and>
          net_error net' = net_error net)"
      if "net_ok net2" "pkt_nr net2 = pkt_nr ?n" "net_error net2 = net_error ?n" for net2 v2
    proof -
      have p: "u32 (int (pkt_nr net2) + int (frame_count ?rest)) = u32 (int (pkt_nr net) + int (frame_count packet))"
        using that(2) frame_count_drop [OF True] by (simp add: u32_add add.assoc)
      have f: "frames (pkt_nr net2) ?rest = frames (Suc (pkt_nr net)) ?rest"
        using that(2) next_pkt_frames [of net] by simp
      show ?thesis using less.hyps [OF short w that(1), of v2] that(3) unfolding p f by simp
    qed
    have mid: "\<exists>failed net' v'. do { (rc, net, v) \<leftarrow> net_write_buff ops net1 v1 (take ?M packet);
        if rc then Some (True, net, v) else my_net_write_loop ops net v ?rest } = Some (failed, net', v') \<and>
        wrote sent net1 v1 (take ?M packet @ frames (Suc (pkt_nr net)) ?rest) failed net' v' \<and>
        (\<not> failed \<longrightarrow> pkt_nr net' = u32 (int (pkt_nr net) + int (frame_count packet)) \<and>
          net_error net' = net_error net)"
      if "net_ok net1" "pkt_nr net1 = pkt_nr ?n" "net_error net1 = net_error ?n" for net1 v1
      by (rule write_then [OF w that(1)]) (rule tail; simp add: that)
    from write_then [OF w ok, of "\<lambda>net v. do { (rc, net, v) \<leftarrow> net_write_buff ops net v (take ?M packet);
        if rc then Some (True, net, v) else my_net_write_loop ops net v ?rest }", OF mid, of v
        "le_bytes 3 ?M @ [of_nat (pkt_nr net)]"]
    show ?thesis
      using True frames.simps [of "pkt_nr net" packet] by (simp add: unf net_header_bytes)
  qed
qed

text \<open>A write that the code leaves out when there is nothing to write.\<close>

lemma write_nonempty_then:
  assumes "stream_writer ops sent" "net_ok net"
    "\<And>net1 v1. \<lbrakk>net_ok net1; pkt_nr net1 = pkt_nr net; net_error net1 = net_error net\<rbrakk> \<Longrightarrow>
      \<exists>failed net' v'. k net1 v1 = Some (failed, net', v') \<and> wrote sent net1 v1 b failed net' v' \<and>
        (\<not> failed \<longrightarrow> P net')"
  shows "\<exists>failed net' v'. do { (rc, net, v) \<leftarrow>
        (if a \<noteq> [] then net_write_buff ops net v a else Some (False, net, v));
      if rc then Some (True, net, v) else k net v } = Some (failed, net', v') \<and>
    wrote sent net v (a @ b) failed net' v' \<and> (\<not> failed \<longrightarrow> P net')"
proof (cases "a = []")
  case True
  then show ?thesis using assms(3) [OF assms(2) refl refl, of v] by simp
next
  case False
  then have eq: "(if a \<noteq> [] then net_write_buff ops net v a else Some (False, net, v)) = net_write_buff ops net v a"
    by simp
  show ?thesis
    unfolding eq by (rule write_then [where k = k and b = b and P = P, OF assms(1,2)]) (rule assms(3))
qed

lemma command_last_wrote:
  assumes w: "stream_writer ops sent" and ok: "net_ok net"
    and short: "length (command @ header @ packet) < MAX_PACKET_LENGTH"
  shows "\<exists>failed net' v'. command_last ops net v command header packet (length packet)
      (length (command @ header @ packet)) = Some (failed, net', v') \<and>
    wrote sent net v (frames (pkt_nr net) (command @ header @ packet)) failed net' v' \<and>
    (\<not> failed \<longrightarrow> pkt_nr net' = u32 (int (pkt_nr net) + 1) \<and> write_pos net' = 0)"
proof -
  let ?n = "next_pkt net" and ?full = "length (command @ header @ packet)"
  let ?P = "\<lambda>net'. pkt_nr net' = u32 (int (pkt_nr net) + 1) \<and> write_pos net' = 0"
  let ?body = "\<lambda>net v. do { (rc, net, v) \<leftarrow> net_write_buff ops net v packet;
    if rc then Some (True, net, v) else net_flush ops net v }"
  let ?mid = "\<lambda>net v. do { (rc, net, v) \<leftarrow>
      (if header \<noteq> [] then net_write_buff ops net v header else Some (False, net, v));
    if rc then Some (True, net, v) else ?body net v }"
  have flush: "\<exists>failed net' v'. net_flush ops net1 v1 = Some (failed, net', v') \<and>
      wrote sent net1 v1 [] failed net' v' \<and> (\<not> failed \<longrightarrow> ?P net')"
    if "net_ok net1" "pkt_nr net1 = pkt_nr ?n" for net1 v1
    using net_flush_wrote [OF w that(1), of v1] that(2) by auto
  have body: "\<exists>failed net' v'. ?body net1 v1 = Some (failed, net', v') \<and>
      wrote sent net1 v1 (packet @ []) failed net' v' \<and> (\<not> failed \<longrightarrow> ?P net')"
    if "net_ok net1" "pkt_nr net1 = pkt_nr ?n" for net1 v1
    by (rule write_then [OF w that(1)]) (rule flush; simp add: that)
  have mid: "\<exists>failed net' v'. ?mid net1 v1 = Some (failed, net', v') \<and>
      wrote sent net1 v1 (header @ packet @ []) failed net' v' \<and> (\<not> failed \<longrightarrow> ?P net')"
    if "net_ok net1" "pkt_nr net1 = pkt_nr ?n" for net1 v1
    by (rule write_nonempty_then [OF w that(1)]) (rule body; simp add: that)
  have ok': "net_ok ?n" using ok by simp
  have "\<exists>failed net' v'. do { (rc, net, v) \<leftarrow> net_write_buff ops ?n v
        ((le_bytes 3 ?full @ [of_nat (pkt_nr net)]) @ command);
      if rc then Some (True, net, v) else ?mid net v } = Some (failed, net', v') \<and>
      wrote sent ?n v (((le_bytes 3 ?full @ [of_nat (pkt_nr net)]) @ command) @ header @ packet @ []) failed net' v' \<and>
      (\<not> failed \<longrightarrow> ?P net')"
    by (rule write_then [OF w ok']) (rule mid; simp)
  moreover have "frames (pkt_nr net) (command @ header @ packet) =
      ((le_bytes 3 ?full @ [of_nat (pkt_nr net)]) @ command) @ header @ packet @ []"
    using short by (subst frames.simps) simp
  ultimately show ?thesis by (simp add: command_last_def net_header_bytes cong: if_cong)
qed

lemma command_loop_wrote:
  assumes "stream_writer ops sent" "net_ok net"
    "length command + length header + len = MAX_PACKET_LENGTH"
    "length (command @ header @ packet) \<ge> MAX_PACKET_LENGTH"
  shows "\<exists>failed net' v'. command_loop ops net v command header packet len
      (length (command @ header @ packet)) = Some (failed, net', v') \<and>
    wrote sent net v (frames (pkt_nr net) (command @ header @ packet)) failed net' v' \<and>
    (\<not> failed \<longrightarrow> pkt_nr net' = u32 (int (pkt_nr net) + int (frame_count (command @ header @ packet))) \<and>
      write_pos net' = 0)"
  using assms
proof (induction "length (command @ header @ packet)" arbitrary: net v command header packet len rule: less_induct)
  case less
  note w = less.prems(1)
  let ?n = "next_pkt net" and ?M = MAX_PACKET_LENGTH and ?all = "command @ header @ packet"
  let ?rest = "drop len packet"
  let ?P = "\<lambda>net'. pkt_nr net' = u32 (int (pkt_nr net) + int (frame_count ?all)) \<and> write_pos net' = 0"
  have len: "len \<le> length packet" using less.prems(3,4) by simp
  have rest: "drop ?M ?all = ?rest" "take ?M ?all = command @ header @ take len packet"
    unfolding less.prems(3) [symmetric] by simp_all
  have full: "length ?all - ?M = length ?rest" using less.prems(3) len by simp
  let ?tail = "\<lambda>net v. if length ?rest \<ge> ?M then command_loop ops net v [] [] ?rest ?M (length ?rest)
      else command_last ops net v [] [] ?rest (length ?rest) (length ?rest)"
  let ?body = "\<lambda>net v. do { (rc, net, v) \<leftarrow> net_write_buff ops net v (take len packet);
    if rc then Some (True, net, v) else ?tail net v }"
  let ?mid = "\<lambda>net v. do { (rc, net, v) \<leftarrow> net_write_buff ops net v header;
    if rc then Some (True, net, v) else ?body net v }"
  have tail: "\<exists>failed net' v'. ?tail net1 v1 = Some (failed, net', v') \<and>
      wrote sent net1 v1 (frames (Suc (pkt_nr net)) ?rest) failed net' v' \<and> (\<not> failed \<longrightarrow> ?P net')"
    if "net_ok net1" "pkt_nr net1 = pkt_nr ?n" for net1 v1
  proof -
    have c: "frame_count ?all = Suc (frame_count ?rest)"
      using frame_count_drop [OF less.prems(4)] rest(1) by simp
    then have p: "u32 (int (pkt_nr net1) + int (frame_count ?rest)) = u32 (int (pkt_nr net) + int (frame_count ?all))"
      using that(2) by (simp add: u32_add add.assoc)
    have f: "frames (pkt_nr net1) ?rest = frames (Suc (pkt_nr net)) ?rest"
      using that(2) next_pkt_frames [of net] by simp
    show ?thesis
    proof (cases "length ?rest \<ge> ?M")
      case True
      have short: "length ([] @ [] @ ?rest) < length ?all"
        using full less.prems(4) by (simp add: MAX_PACKET_LENGTH_def)
      show ?thesis
        using less.hyps [OF short w that(1), of ?M v1] True p f by simp
    next
      case False
      then show ?thesis
        using command_last_wrote [OF w that(1), of "[]" "[]" ?rest v1] p f frame_count_short [of ?rest] by simp
    qed
  qed
  have body: "\<exists>failed net' v'. ?body net1 v1 = Some (failed, net', v') \<and>
      wrote sent net1 v1 (take len packet @ frames (Suc (pkt_nr net)) ?rest) failed net' v' \<and>
      (\<not> failed \<longrightarrow> ?P net')"
    if "net_ok net1" "pkt_nr net1 = pkt_nr ?n" for net1 v1
    by (rule write_then [OF w that(1)]) (rule tail; simp add: that)
  have mid: "\<exists>failed net' v'. ?mid net1 v1 = Some (failed, net', v') \<and>
      wrote sent net1 v1 (header @ take len packet @ frames (Suc (pkt_nr net)) ?rest) failed net' v' \<and>
      (\<not> failed \<longrightarrow> ?P net')"
    if "net_ok net1" "pkt_nr net1 = pkt_nr ?n" for net1 v1
    by (rule write_then [OF w that(1)]) (rule body; simp add: that)
  have ok': "net_ok ?n" using less.prems(2) by simp
  have "\<exists>failed net' v'. do { (rc, net, v) \<leftarrow> net_write_buff ops ?n v
        ((le_bytes 3 ?M @ [of_nat (pkt_nr net)]) @ command);
      if rc then Some (True, net, v) else ?mid net v } = Some (failed, net', v') \<and>
      wrote sent ?n v (((le_bytes 3 ?M @ [of_nat (pkt_nr net)]) @ command) @ header @ take len packet @
        frames (Suc (pkt_nr net)) ?rest) failed net' v' \<and>
      (\<not> failed \<longrightarrow> ?P net')"
    by (rule write_then [OF w ok']) (rule mid; simp)
  moreover have "frames (pkt_nr net) ?all =
      ((le_bytes 3 ?M @ [of_nat (pkt_nr net)]) @ command) @ header @ take len packet @
        frames (Suc (pkt_nr net)) ?rest"
    using less.prems(4) frames.simps [of "pkt_nr net" ?all] unfolding rest by simp
  moreover have "command_loop ops net v command header packet len (length ?all) =
      do { (rc, net, v) \<leftarrow> net_write_buff ops ?n v ((le_bytes 3 ?M @ [of_nat (pkt_nr net)]) @ command);
        if rc then Some (True, net, v) else ?mid net v }"
    unfolding command_loop.simps [of ops net v command header packet len "length ?all"] full net_header_bytes
    using len by (simp cong: if_cong)
  ultimately show ?case by simp
qed

lemma net_write_command_wrote:
  assumes "stream_writer ops sent" "net_ok net" "length header < MAX_PACKET_LENGTH"
  shows "\<exists>failed net' v'. net_write_command ops net v command header packet = Some (failed, net', v') \<and>
    wrote sent net v (frames (pkt_nr net) (command # header @ packet)) failed net' v' \<and>
    (\<not> failed \<longrightarrow> pkt_nr net' = u32 (int (pkt_nr net) + int (frame_count (command # header @ packet))) \<and>
      write_pos net' = 0)"
proof (cases "length ([command] @ header @ packet) \<ge> MAX_PACKET_LENGTH")
  case True
  define len where "len = u64 (int MAX_PACKET_LENGTH - 1 - int (length header))"
  have "int len = int MAX_PACKET_LENGTH - 1 - int (length header)"
    using assms(3) unfolding len_def by (simp add: u64_id MAX_PACKET_LENGTH_def)
  then have "length [command] + length header + len = MAX_PACKET_LENGTH" by simp
  from command_loop_wrote [OF assms(1,2) this True, of v]
  show ?thesis using True by (simp add: net_write_command_def len_def add.commute)
next
  case False
  then have "length ([command] @ header @ packet) < MAX_PACKET_LENGTH" by simp
  from command_last_wrote [OF assms(1,2) this, of v] False frame_count_short [OF this]
  show ?thesis by (simp add: net_write_command_def add.commute)
qed

section \<open>Properties\<close>

text \<open>A transport for the examples: a pipe that takes and gives at most five bytes at a time.\<close>

definition pipe_ops :: "uchar list vio_ops" where
  "pipe_ops = \<lparr>vio_write = (\<lambda>v data. (int (min 5 (length data)), v @ take 5 data)),
     vio_read = (\<lambda>v k. (int (min (min 5 k) (length v)), take (min 5 k) v, drop (min 5 k) v)),
     vio_should_retry = (\<lambda>_. False), vio_was_interrupted = (\<lambda>_. False), vio_is_blocking = (\<lambda>_. True),
     vio_blocking = (\<lambda>v mode. (0, v))\<rparr>"

definition sample_net :: NET where
  "sample_net = \<lparr>net_vio = True, net_buff = replicate 15 0, write_pos = 0, read_pos = 0, where_b = 0,
     max_packet = 8, max_packet_size = 1024, pkt_nr = 3, compress_pkt_nr = 0, net_retry_count = 1,
     net_error = 0, last_errno = No_errno, reading_or_writing = 0\<rparr>"

lemma pipe_stream_writer: "stream_writer pipe_ops id"
  by (simp add: stream_writer_def pipe_ops_def min_def)

lemma sample_net_ok: "net_ok sample_net" "net_vio sample_net" "write_pos sample_net = 0" "pkt_nr sample_net = 3"
  by (simp_all add: net_ok_def sample_net_def NET_HEADER_SIZE_def COMP_HEADER_SIZE_def)

text \<open>C11: \<open>my_net_write\<close> over any transport that takes bytes in order returns (its loops end, and no
  access leaves the buffer); what has gone out is a prefix of the earlier output, what was pending
  in the buffer, and the frames of the packet numbered from \<open>pkt_nr\<close>; if it succeeds all of that is
  out or pending and \<open>pkt_nr\<close> has moved on by the number of frames, and if it fails the connection
  is marked unusable (\<open>net_error = 2\<close>).\<close>

theorem my_net_write_in_order:
  assumes "stream_writer ops sent" "net_ok net" "net_vio net"
  shows "\<exists>failed net' v'. my_net_write ops net v packet = Some (failed, net', v') \<and>
    prefix (sent v) (sent v') \<and> prefix (sent v') (sent v @ pending net @ frames (pkt_nr net) packet) \<and>
    (if failed then net_error net' = 2
     else net_ok net' \<and> sent v' @ pending net' = sent v @ pending net @ frames (pkt_nr net) packet \<and>
       pkt_nr net' = u32 (int (pkt_nr net) + int (frame_count packet)))"
  using my_net_write_loop_wrote [OF assms(1,2), of v packet] assms(3)
  unfolding wrote_def my_net_write_def by (auto split: if_splits)

theorem my_net_write_in_order_witness:
  "\<exists>failed net' v'. my_net_write pipe_ops sample_net [] [1, 2, 3, 4, 5, 6] = Some (failed, net', v') \<and>
    prefix v' (frames 3 [1, 2, 3, 4, 5, 6])"
  using my_net_write_in_order [OF pipe_stream_writer sample_net_ok(1,2), of "[]" "[1, 2, 3, 4, 5, 6]"]
  by (auto simp: pending_def sample_net_ok)

text \<open>C18: \<open>net_write_command\<close> sends, behind what was pending, the frames of the command byte, the header
  and the packet put together, and leaves nothing in the buffer; if it fails a prefix of them has
  gone out and the connection is marked unusable.\<close>

theorem net_write_command_frames:
  assumes "stream_writer ops sent" "net_ok net" "length header < MAX_PACKET_LENGTH"
  shows "\<exists>failed net' v'. net_write_command ops net v command header packet = Some (failed, net', v') \<and>
    prefix (sent v') (sent v @ pending net @ frames (pkt_nr net) (command # header @ packet)) \<and>
    (if failed then net_error net' = 2
     else sent v' = sent v @ pending net @ frames (pkt_nr net) (command # header @ packet) \<and> pending net' = [] \<and>
       pkt_nr net' = u32 (int (pkt_nr net) + int (frame_count (command # header @ packet))))"
  using net_write_command_wrote [OF assms, of v command packet] unfolding wrote_def
  by (auto simp: pending_def split: if_splits)

theorem net_write_command_frames_witness:
  "\<exists>failed net' v'. net_write_command pipe_ops sample_net [] 3 [9] [1, 2, 3, 4, 5, 6] = Some (failed, net', v') \<and>
    prefix v' (frames 3 [3, 9, 1, 2, 3, 4, 5, 6])"
  using net_write_command_frames [OF pipe_stream_writer sample_net_ok(1), of "[9]" "[]" 3 "[1, 2, 3, 4, 5, 6]"]
  by (auto simp: pending_def sample_net_ok MAX_PACKET_LENGTH_def)

end
