(* ===== verification/NetRead.thy ===== *)
theory NetRead
  imports NetWrite
begin

text \<open>
  What \<open>my_net_read\<close> makes of the bytes it receives.  Whatever they are, it stays within its buffer
  and ends; what it returns is a packet whose frames were the bytes consumed; and it returns every
  packet that was framed, fits the limits and arrives.
\<close>

unbundle bit_operations_syntax

section \<open>The transport\<close>

text \<open>A transport that carries a stream of bytes: \<open>vio_read\<close> hands out a prefix, at most as long as
  asked for, of what is still to come (\<open>incoming\<close>), and nothing when it returns an error or 0.\<close>

definition stream_reader :: "'v vio_ops \<Rightarrow> ('v \<Rightarrow> uchar list) \<Rightarrow> bool" where
  "stream_reader ops incoming \<longleftrightarrow>
     (\<forall>v k. case vio_read ops v k of (n, bytes, v') \<Rightarrow>
        n \<le> int k \<and> (if 0 < n then int (length bytes) = n \<and> incoming v = bytes @ incoming v'
                      else incoming v' = incoming v)) \<and>
     (\<forall>v mode. incoming (snd (vio_blocking ops v mode)) = incoming v)"

text \<open>It delivers: as long as there are bytes to come a read gets some.\<close>

definition delivers :: "'v vio_ops \<Rightarrow> ('v \<Rightarrow> uchar list) \<Rightarrow> bool" where
  "delivers ops incoming \<longleftrightarrow> (\<forall>v k. incoming v \<noteq> [] \<longrightarrow> 0 < k \<longrightarrow> 0 < fst (vio_read ops v k))"

text \<open>The allocator: \<open>realloc\<close> gives the size asked for and keeps the contents.\<close>

definition realloc_ok :: "(uchar list \<Rightarrow> nat \<Rightarrow> uchar list option) \<Rightarrow> bool" where
  "realloc_ok my_realloc \<longleftrightarrow> (\<forall>buff n buff'. my_realloc buff n = Some buff' \<longrightarrow>
     length buff' = n \<and> (\<forall>k. k \<le> length buff \<longrightarrow> k \<le> n \<longrightarrow> take k buff' = take k buff))"

definition read_ok :: "NET \<Rightarrow> bool" where
  "read_ok net \<longleftrightarrow> where_b net \<le> max_packet net \<and>
     max_packet net + NET_HEADER_SIZE + COMP_HEADER_SIZE \<le> length (net_buff net)"

lemma stream_readerD:
  assumes "stream_reader ops incoming"
  shows "vio_read ops v k = (n, bytes, v') \<Longrightarrow> n \<le> int k \<and>
      (if 0 < n then int (length bytes) = n \<and> incoming v = bytes @ incoming v' else incoming v' = incoming v)"
    and "incoming (snd (vio_blocking ops v mode)) = incoming v"
proof -
  have "case vio_read ops v k of (n, bytes, v') \<Rightarrow> n \<le> int k \<and>
      (if 0 < n then int (length bytes) = n \<and> incoming v = bytes @ incoming v' else incoming v' = incoming v)"
    by (rule assms [unfolded stream_reader_def, THEN conjunct1, THEN spec, THEN spec])
  then show "vio_read ops v k = (n, bytes, v') \<Longrightarrow> n \<le> int k \<and>
      (if 0 < n then int (length bytes) = n \<and> incoming v = bytes @ incoming v' else incoming v' = incoming v)"
    by simp
  show "incoming (snd (vio_blocking ops v mode)) = incoming v"
    using assms unfolding stream_reader_def by blast
qed

section \<open>Reading a number of bytes\<close>

lemma memcpy_memcpy:
  assumes "memcpy b pos xs = Some b'" "pos + length (xs @ ys) \<le> length b"
  shows "memcpy b' (pos + length xs) ys = memcpy b pos (xs @ ys)"
proof -
  have b': "b' = (take pos b @ xs) @ drop (pos + length xs) b"
    using assms by (auto simp: memcpy_def split: if_splits)
  have l: "length (take pos b @ xs) = pos + length xs" using assms(2) by simp
  have td: "take (pos + length xs) b' = take pos b @ xs" "drop (pos + length xs) b' = drop (pos + length xs) b"
    using b' l by (metis append_eq_conv_conj)+
  then have "drop (pos + length xs + length ys) b' = drop (pos + length xs + length ys) b"
    by (metis add.commute drop_drop)
  moreover note td(1)
  moreover have "length b' = length b" unfolding b' using assms(2) by simp
  ultimately show ?thesis using assms(2) by (simp add: memcpy_def add.assoc)
qed

text \<open>Where \<open>remain\<close> bytes fit at \<open>pos\<close>, the loop copies the next \<open>remain\<close> bytes of the stream there or
  fails with \<open>net_error = 2\<close>, and it does not fail when they are there and are delivered.\<close>

lemma read_loop_reads:
  assumes "stream_reader ops incoming" "pos + remain \<le> length (net_buff net)"
  shows "\<exists>ok net' alarmed' n' v'. read_loop ops net v pos remain alarmed n = Some (ok, net', alarmed', n', v') \<and>
    (if ok then \<exists>data buff. length data = remain \<and> incoming v = data @ incoming v' \<and>
        memcpy (net_buff net) pos data = Some buff \<and> net' = net\<lparr>net_buff := buff\<rparr>
     else net_error net' = 2 \<and> \<not> (delivers ops incoming \<and> remain \<le> length (incoming v)))"
  using assms
proof (induction ops net v pos remain alarmed n rule: read_loop.induct)
  case (1 ops net v pos remain alarmed n)
  note st = "1.prems"(1)
  obtain len bytes v1 where rd: "vio_read ops v remain = (len, bytes, v1)" by (metis prod_cases3)
  have len: "len \<le> int remain" and inc: "if 0 < len then int (length bytes) = len \<and> incoming v = bytes @ incoming v1
      else incoming v1 = incoming v"
    using stream_readerD(1) [OF st rd] by simp_all
  obtain ok v2 where sb: "set_blocking ops (net_retry_count net) v1 n = (ok, v2)" by fastforce
  have s2: "incoming v2 = incoming v1"
    using set_blocking_keeps [of incoming ops "net_retry_count net" v1 n] stream_readerD(2) [OF st] sb by simp
  have del: "\<not> (delivers ops incoming \<and> remain \<le> length (incoming v))" if "len \<le> 0" "remain \<noteq> 0"
    using that rd unfolding delivers_def by (metis fst_conv le_zero_eq length_0_conv not_gr_zero not_less)
  note unf = read_loop.simps [of ops net v pos remain alarmed n]
  consider "remain = 0" | "remain \<noteq> 0" "0 < len"
    | "remain \<noteq> 0" "len \<le> 0" "(vio_should_retry ops v1 \<or> len = 0) \<and> \<not> alarmed" ok
    | "remain \<noteq> 0" "len \<le> 0" "(vio_should_retry ops v1 \<or> len = 0) \<and> \<not> alarmed" "\<not> ok"
    | "remain \<noteq> 0" "len \<le> 0" "\<not> ((vio_should_retry ops v1 \<or> len = 0) \<and> \<not> alarmed)"
      "alarmed \<and> vio_should_retry ops v1 \<and> n < net_retry_count net"
    | "remain \<noteq> 0" "len \<le> 0" "\<not> ((vio_should_retry ops v1 \<or> len = 0) \<and> \<not> alarmed)"
      "\<not> (alarmed \<and> vio_should_retry ops v1 \<and> n < net_retry_count net)"
    by linarith
  then show ?case
  proof cases
    case 1
    then show ?thesis using "1.prems"(2) by (auto simp: read_loop.simps [of ops net v pos 0 alarmed n] memcpy_def)
  next
    case 2
    have bl: "length bytes = nat len" "nat len \<le> remain" and i1: "incoming v = bytes @ incoming v1"
      using inc 2 len by auto
    have fit: "pos + length bytes \<le> length (net_buff net)" using bl "1.prems"(2) by simp
    obtain b1 where b1: "memcpy (net_buff net) pos bytes = Some b1" "length b1 = length (net_buff net)"
      using memcpy_block [OF fit] by metis
    have ng: "\<not> (remain < nat len \<or> length bytes \<noteq> nat len)" using bl by simp
    have eq: "read_loop ops net v pos remain alarmed n =
        read_loop ops (net\<lparr>net_buff := b1\<rparr>) v1 (pos + nat len) (remain - nat len) alarmed n"
      unfolding unf using 2 rd ng b1(1) by simp
    have "pos + nat len + (remain - nat len) \<le> length (net_buff (net\<lparr>net_buff := b1\<rparr>))"
      using "1.prems"(2) b1(2) bl(2) by simp
    from "1.IH"(3) [OF 2(1) rd [symmetric] refl _ ng b1(1) st this] 2(2)
    obtain ok' net' alarmed' n' v' where r:
      "read_loop ops (net\<lparr>net_buff := b1\<rparr>) v1 (pos + nat len) (remain - nat len) alarmed n =
        Some (ok', net', alarmed', n', v')"
      "if ok' then \<exists>data buff. length data = remain - nat len \<and> incoming v1 = data @ incoming v' \<and>
          memcpy b1 (pos + nat len) data = Some buff \<and> net' = net\<lparr>net_buff := buff\<rparr>
        else net_error net' = 2 \<and> \<not> (delivers ops incoming \<and> remain - nat len \<le> length (incoming v1))"
      by (auto cong: if_cong)
    show ?thesis
    proof (cases ok')
      case True
      then obtain data buff where d: "length data = remain - nat len" "incoming v1 = data @ incoming v'"
        "memcpy b1 (pos + nat len) data = Some buff" "net' = net\<lparr>net_buff := buff\<rparr>"
        using r(2) by auto
      have "length (bytes @ data) = remain" "incoming v = (bytes @ data) @ incoming v'"
        using d bl i1 by simp_all
      moreover have "memcpy (net_buff net) pos (bytes @ data) = Some buff"
        using memcpy_memcpy [OF b1(1), of data] d bl "1.prems"(2) by simp
      ultimately show ?thesis unfolding eq r(1) using True d(4) by auto
    next
      case False
      then have "\<not> (delivers ops incoming \<and> remain \<le> length (incoming v))"
        using r(2) i1 bl by auto
      then show ?thesis unfolding eq r(1) using r(2) False by auto
    qed
  next
    case 3
    have eq: "read_loop ops net v pos remain alarmed n = read_loop ops net v2 pos remain True 0"
      unfolding unf using 3 rd sb by simp
    have i: "incoming v2 = incoming v" using s2 inc 3(2) by simp
    show ?thesis
      using "1.IH"(1) [OF 3(1) rd [symmetric] refl 3(2) refl 3(3) sb [symmetric] 3(4) "1.prems"]
      unfolding eq i .
  next
    case 4
    then show ?thesis unfolding unf using rd sb del by auto
  next
    case 5
    have eq: "read_loop ops net v pos remain alarmed n = read_loop ops net v1 pos remain alarmed (n + 1)"
      unfolding unf using 5 rd by simp
    have i: "incoming v1 = incoming v" using inc 5(2) by simp
    show ?thesis
      using "1.IH"(2) [OF 5(1) rd [symmetric] refl 5(2) refl 5(3) 5(4) "1.prems"]
      unfolding eq i .
  next
    case 6
    have "\<exists>net' n' v'. read_loop ops net v pos remain alarmed n = Some (False, net', alarmed, n', v') \<and> net_error net' = 2"
      unfolding unf using 6 rd by (auto simp: Let_def)
    then obtain net' n' v' where "read_loop ops net v pos remain alarmed n = Some (False, net', alarmed, n', v')"
      "net_error net' = 2" by blast
    then show ?thesis
      using del [OF 6(2,1)]
      by (intro exI [of _ False] exI [of _ net'] exI [of _ alarmed] exI [of _ n'] exI [of _ v']) simp
  qed
qed

section \<open>Reading a frame\<close>

lemma io_align:
  "len \<le> nat (int (len + IO_SIZE - 1) AND NOT (int IO_SIZE - 1))"
  "nat (int (len + IO_SIZE - 1) AND NOT (int IO_SIZE - 1)) < len + IO_SIZE"
proof -
  have a: "y AND NOT (4096 - 1) = y div 4096 * 4096" for y :: int
  proof -
    have "y AND NOT (mask 12) = push_bit 12 (drop_bit 12 y)"
      by (rule bit_eqI) (auto simp: bit_simps)
    then show ?thesis by (simp add: mask_eq_exp_minus_1 push_bit_eq_mult drop_bit_eq_div)
  qed
  have eq: "nat (int (len + IO_SIZE - 1) AND NOT (int IO_SIZE - 1)) = (len + 4095) div 4096 * 4096"
  proof -
    have "int (len + IO_SIZE - 1) AND NOT (int IO_SIZE - 1) = int (len + 4095) AND NOT (4096 - 1)"
      by (simp add: IO_SIZE_def add.commute)
    also have "\<dots> = int ((len + 4095) div 4096 * 4096)" unfolding a by (simp add: zdiv_int)
    finally show ?thesis by (simp only: nat_int)
  qed
  define q where "q = (len + 4095) div 4096"
  have "q * 4096 \<le> len + 4095" "len + 4095 < q * 4096 + 4096"
    using div_mult_mod_eq [of "len + 4095" 4096] mod_less_divisor [of 4096 "len + 4095"] unfolding q_def
    by linarith+
  then show "len \<le> nat (int (len + IO_SIZE - 1) AND NOT (int IO_SIZE - 1))"
    "nat (int (len + IO_SIZE - 1) AND NOT (int IO_SIZE - 1)) < len + IO_SIZE"
    unfolding eq q_def [symmetric] by (simp_all add: IO_SIZE_def)
qed

lemma le_bytes_surj: "\<exists>A < 256 ^ length bs. le_bytes (length bs) A = bs"
proof (induction bs)
  case (Cons b bs)
  then obtain A where A: "A < 256 ^ length bs" "le_bytes (length bs) A = bs" by blast
  have b: "unat b < 256" using unsigned_less [of b] by simp
  have "(of_nat (unat b + 256 * A) :: uchar) = of_nat (unat b)"
    unfolding word_of_nat_eq_iff by (simp add: take_bit_eq_mod)
  then have "of_nat (unat b + 256 * A) = b" by (simp del: of_nat_add of_nat_mult)
  moreover have "(unat b + 256 * A) div 256 = A" using b by simp
  moreover have "unat b + 256 * A < 256 ^ length (b # bs)" using b A(1) by simp
  ultimately show ?case using A(2) by (intro exI [of _ "unat b + 256 * A"]) simp
qed simp

lemma header_cases:
  assumes "length h = NET_HEADER_SIZE"
  obtains A c where "h = le_bytes 3 A @ [c]" "A < 256 ^ 3"
proof -
  have h: "h = take 3 h @ [h ! 3]"
    using assms by (simp add: NET_HEADER_SIZE_def take_Suc_conv_app_nth [symmetric])
  obtain A where "A < 256 ^ 3" "le_bytes 3 A = take 3 h"
    using le_bytes_surj [of "take 3 h"] assms by (auto simp: NET_HEADER_SIZE_def)
  then show ?thesis using h that by metis
qed

lemma le_bytes_inj:
  assumes "le_bytes k A = le_bytes k B" "A < 256 ^ k" "B < 256 ^ k"
  shows "A = B"
  using assms
proof (induction k arbitrary: A B)
  case (Suc k)
  have "A mod 256 = B mod 256"
    using Suc.prems(1) unat_uchar [of A] unat_uchar [of B] by simp
  moreover have "A div 256 = B div 256"
    using Suc.prems by (intro Suc.IH) (simp_all add: less_mult_imp_div_less mult.commute)
  ultimately show ?case by (metis div_mult_mod_eq)
qed simp

text \<open>A frame with the expected number at the head of the stream, and what reading it has done.\<close>

definition frame_read ::
  "('v \<Rightarrow> uchar list) \<Rightarrow> NET \<Rightarrow> 'v \<Rightarrow> nat \<Rightarrow> NET \<Rightarrow> 'v \<Rightarrow> bool" where
  "frame_read incoming net v len net' v' \<longleftrightarrow>
     (\<exists>data. length data = len \<and> incoming v = le_bytes 3 len @ [of_nat (pkt_nr net)] @ data @ incoming v' \<and>
        take (where_b net + len) (net_buff net') = take (where_b net) (net_buff net) @ data) \<and>
     len \<le> MAX_PACKET_LENGTH \<and> where_b net' = where_b net \<and> where_b net + len \<le> max_packet net' \<and>
     max_packet net' \<le> max (max_packet net) (max_packet_size net + IO_SIZE) \<and>
     max_packet_size net' = max_packet_size net \<and> net_error net' = net_error net \<and>
     pkt_nr net' = u32 (int (pkt_nr net) + 1) \<and> read_ok net'"

definition readable ::
  "'v vio_ops \<Rightarrow> ('v \<Rightarrow> uchar list) \<Rightarrow> (uchar list \<Rightarrow> nat \<Rightarrow> uchar list option) \<Rightarrow> NET \<Rightarrow> 'v \<Rightarrow> bool" where
  "readable ops incoming my_realloc net v \<longleftrightarrow>
     delivers ops incoming \<and> (\<forall>buff n. my_realloc buff n \<noteq> None) \<and>
     (\<exists>len data rest. incoming v = le_bytes 3 len @ [of_nat (pkt_nr net)] @ data @ rest \<and> length data = len \<and>
        len \<le> MAX_PACKET_LENGTH \<and> where_b net + len < max_packet_size net)"

lemma realloc_grows:
  assumes "realloc_ok my_realloc" "read_ok net" "where_b net + len \<ge> max_packet net"
    "net_realloc my_realloc net (where_b net + len) = (False, net')"
  shows "where_b net + len \<le> max_packet net' \<and> max_packet net' < max_packet_size net + IO_SIZE \<and>
    take (where_b net) (net_buff net') = take (where_b net) (net_buff net) \<and>
    max_packet net' + NET_HEADER_SIZE + COMP_HEADER_SIZE \<le> length (net_buff net') \<and>
    where_b net' = where_b net \<and> max_packet_size net' = max_packet_size net \<and>
    net_error net' = net_error net \<and> pkt_nr net' = pkt_nr net"
proof -
  define p where "p = nat (int (where_b net + len + IO_SIZE - 1) AND NOT (int IO_SIZE - 1))"
  obtain b where b: "where_b net + len < max_packet_size net"
    "my_realloc (net_buff net) (p + NET_HEADER_SIZE + COMP_HEADER_SIZE + 1) = Some b"
    "net' = net\<lparr>net_buff := b, write_pos := 0, max_packet := p\<rparr>"
    using assms(4) unfolding net_realloc_def p_def [symmetric] by (auto simp: Let_def split: if_splits option.splits)
  have p: "where_b net + len \<le> p" "p < where_b net + len + IO_SIZE"
    unfolding p_def by (rule io_align)+
  have r: "length b = p + NET_HEADER_SIZE + COMP_HEADER_SIZE + 1"
    "k \<le> length (net_buff net) \<Longrightarrow> k \<le> p + NET_HEADER_SIZE + COMP_HEADER_SIZE + 1 \<Longrightarrow>
      take k b = take k (net_buff net)" for k
    using assms(1) b(2) unfolding realloc_ok_def by blast+
  have "take (where_b net) b = take (where_b net) (net_buff net)"
    using assms(2) p(1) by (intro r(2)) (auto simp: read_ok_def)
  then show ?thesis using b(1,3) p r(1) by simp
qed

definition payload_read ::
  "('v \<Rightarrow> uchar list) \<Rightarrow> NET \<Rightarrow> 'v \<Rightarrow> nat \<Rightarrow> NET \<Rightarrow> 'v \<Rightarrow> bool" where
  "payload_read incoming net v len net' v' \<longleftrightarrow>
     (\<exists>data. length data = len \<and> incoming v = data @ incoming v' \<and>
        take (where_b net + len) (net_buff net') = take (where_b net) (net_buff net) @ data) \<and>
     where_b net' = where_b net \<and> where_b net + len \<le> max_packet net' \<and>
     max_packet net' \<le> max (max_packet net) (max_packet_size net + IO_SIZE) \<and>
     max_packet_size net' = max_packet_size net \<and> net_error net' = net_error net \<and>
     pkt_nr net' = pkt_nr net \<and> read_ok net'"

lemma read_payload_reads:
  assumes st: "stream_reader ops incoming" and re: "realloc_ok my_realloc" and ok: "read_ok net"
    and len: "len \<le> MAX_PACKET_LENGTH"
  shows "\<exists>len' net' alarmed' v'. read_payload ops my_realloc net v len alarmed n = Some (len', net', alarmed', v') \<and>
    (len' = packet_error \<and> net_error net' \<noteq> 0 \<and>
       \<not> (delivers ops incoming \<and> (\<forall>buff n. my_realloc buff n \<noteq> None) \<and> len \<le> length (incoming v) \<and>
          where_b net + len < max_packet_size net) \<or>
     len' = len \<and> payload_read incoming net v len net' v')"
proof -
  obtain failed net1 where f: "(if len + where_b net \<ge> max_packet net
      then net_realloc my_realloc net (len + where_b net) else (False, net)) = (failed, net1)" by fastforce
  note unf = read_payload_def [of ops my_realloc net v len alarmed n, unfolded Let_def f]
  show ?thesis
  proof (cases failed)
    case True
    then have g: "net_realloc my_realloc net (len + where_b net) = (True, net1)"
      using f by (simp split: if_splits)
    have "net_error net1 \<noteq> 0 \<and> \<not> ((\<forall>buff n. my_realloc buff n \<noteq> None) \<and> where_b net + len < max_packet_size net)"
      using g by (auto simp: net_realloc_def Let_def split: if_splits option.splits)
    then show ?thesis unfolding unf using True by auto
  next
    case False
    have g: "where_b net + len \<le> max_packet net1 \<and> max_packet net1 \<le> max (max_packet net) (max_packet_size net + IO_SIZE) \<and>
      take (where_b net) (net_buff net1) = take (where_b net) (net_buff net) \<and>
      max_packet net1 + NET_HEADER_SIZE + COMP_HEADER_SIZE \<le> length (net_buff net1) \<and>
      where_b net1 = where_b net \<and> max_packet_size net1 = max_packet_size net \<and>
      net_error net1 = net_error net \<and> pkt_nr net1 = pkt_nr net"
    proof (cases "len + where_b net \<ge> max_packet net")
      case True
      then have "where_b net + len \<ge> max_packet net" "net_realloc my_realloc net (where_b net + len) = (False, net1)"
        using f False by (simp_all add: add.commute)
      from realloc_grows [OF re ok this] show ?thesis by auto
    next
      case False
      then show ?thesis using f ok by (auto simp: read_ok_def)
    qed
    then have fit: "where_b net1 + len \<le> length (net_buff net1)" by simp
    obtain ok2 net2 alarmed2 n2 v2 where r: "read_loop ops net1 v (where_b net1) len alarmed n =
        Some (ok2, net2, alarmed2, n2, v2)"
      "if ok2 then \<exists>data buff. length data = len \<and> incoming v = data @ incoming v2 \<and>
        memcpy (net_buff net1) (where_b net1) data = Some buff \<and> net2 = net1\<lparr>net_buff := buff\<rparr>
       else net_error net2 = 2 \<and> \<not> (delivers ops incoming \<and> len \<le> length (incoming v))"
      using read_loop_reads [OF st fit] by blast
    have eq: "read_payload ops my_realloc net v len alarmed n =
        Some (if ok2 then len else packet_error, net2, alarmed2, v2)"
      unfolding unf using False r(1) by simp
    show ?thesis
    proof (cases ok2)
      case True
      then obtain data buff where d: "length data = len" "incoming v = data @ incoming v2"
        "memcpy (net_buff net1) (where_b net1) data = Some buff" "net2 = net1\<lparr>net_buff := buff\<rparr>"
        using r(2) by auto
      have "take (where_b net1 + len) buff = take (where_b net1) (net_buff net1) @ data"
        "length buff = length (net_buff net1)"
        using memcpy_block [of "where_b net1" data "net_buff net1"] fit d(1,3) by auto
      then show ?thesis unfolding eq using True d(1,2,4) g by (auto simp: payload_read_def read_ok_def)
    next
      case False
      then show ?thesis unfolding eq using r(2) by auto
    qed
  qed
qed

text \<open>The header as it is found in the buffer.\<close>

lemma header_in_buffer:
  assumes "memcpy buff pos (le_bytes 3 A @ [c]) = Some buff'" "A < 256 ^ 3"
  shows "get buff' (pos + 3) = Some c" "uint3korr buff' pos = Some A" "length buff' = length buff"
    "take pos buff' = take pos buff"
proof -
  have fit: "pos + 4 \<le> length buff" and b: "buff' = take pos buff @ le_bytes 3 A @ c # drop (pos + 4) buff"
    using assms(1) by (auto simp: memcpy_def split: if_splits)
  have l: "length (take pos buff) = pos" using fit by simp
  show "uint3korr buff' pos = Some A"
    using uint3korr_block [of "take pos buff" A "c # drop (pos + 4) buff"] assms(2) unfolding b l by simp
  have "get ((take pos buff @ le_bytes 3 A) @ c # drop (pos + 4) buff) (length (take pos buff @ le_bytes 3 A) + 0) = Some c"
    unfolding get_append by simp
  then show "get buff' (pos + 3) = Some c" unfolding b using fit by simp
  show "length buff' = length buff" "take pos buff' = take pos buff" unfolding b using fit by simp_all
qed

text \<open>A frame that can be read determines the bytes of its header.\<close>

lemma readable_header:
  assumes "readable ops incoming my_realloc net v" "incoming v = (le_bytes 3 A @ [c]) @ rest" "A < 256 ^ 3"
  shows "c = of_nat (pkt_nr net)" "A \<le> length rest" "where_b net + A < max_packet_size net"
proof -
  obtain len data rest' where r: "incoming v = le_bytes 3 len @ [of_nat (pkt_nr net)] @ data @ rest'"
    "length data = len" "len \<le> MAX_PACKET_LENGTH" "where_b net + len < max_packet_size net"
    using assms(1) unfolding readable_def by blast
  have e: "le_bytes 3 A @ [c] @ rest = le_bytes 3 len @ [of_nat (pkt_nr net)] @ data @ rest'"
    using assms(2) r(1) by simp
  then have "le_bytes 3 A = le_bytes 3 len" and t: "c = of_nat (pkt_nr net)" "rest = data @ rest'"
    by (simp_all add: append_eq_append_conv)
  moreover have "len < 256 ^ 3" using r(3) by (simp add: MAX_PACKET_LENGTH_def)
  ultimately have "A = len" using le_bytes_inj assms(3) by blast
  then show "c = of_nat (pkt_nr net)" "A \<le> length rest" "where_b net + A < max_packet_size net"
    using t r by simp_all
qed

lemma real_read_body_frame:
  assumes st: "stream_reader ops incoming" and re: "realloc_ok my_realloc" and ok: "read_ok net"
  shows "\<exists>len net' alarmed v'. real_read_body ops my_realloc net v = Some (len, net', alarmed, v') \<and>
    (len = packet_error \<and> \<not> readable ops incoming my_realloc net v \<or> frame_read incoming net v len net' v')"
proof -
  have "where_b net + NET_HEADER_SIZE \<le> length (net_buff net)" using ok by (simp add: read_ok_def)
  from read_loop_reads [OF st this] obtain hok net1 alarmed n v1 where r:
    "read_loop ops net v (where_b net) NET_HEADER_SIZE False 0 = Some (hok, net1, alarmed, n, v1)"
    "if hok then \<exists>data buff. length data = NET_HEADER_SIZE \<and> incoming v = data @ incoming v1 \<and>
        memcpy (net_buff net) (where_b net) data = Some buff \<and> net1 = net\<lparr>net_buff := buff\<rparr>
     else net_error net1 = 2 \<and> \<not> (delivers ops incoming \<and> NET_HEADER_SIZE \<le> length (incoming v))"
    by blast
  show ?thesis
  proof (cases hok)
    case False
    then have "\<not> readable ops incoming my_realloc net v"
      using r(2) by (auto simp: readable_def NET_HEADER_SIZE_def)
    then show ?thesis using r(1) False by (simp add: real_read_body_def)
  next
    case True
    then obtain h buff where h: "length h = NET_HEADER_SIZE" "incoming v = h @ incoming v1"
      "memcpy (net_buff net) (where_b net) h = Some buff" "net1 = net\<lparr>net_buff := buff\<rparr>"
      using r(2) by auto
    obtain A c where A: "h = le_bytes 3 A @ [c]" "A < 256 ^ 3" using header_cases [OF h(1)] by blast
    have inc: "incoming v = (le_bytes 3 A @ [c]) @ incoming v1" using h(2) A(1) by simp
    note hb = header_in_buffer [OF h(3) [unfolded A(1)] A(2)]
    note rh = readable_header [where ops = ops and my_realloc = my_realloc and incoming = incoming and net = net
      and v = v, OF _ inc A(2)]
    have AM: "A \<le> MAX_PACKET_LENGTH" using A(2) by (simp add: MAX_PACKET_LENGTH_def)
    let ?net2 = "(next_pkt net1)\<lparr>compress_pkt_nr := pkt_nr (next_pkt net1)\<rparr>"
    have ok2: "read_ok ?net2" using ok h(4) hb(3) by (simp add: read_ok_def)
    have unf: "real_read_body ops my_realloc net v =
        (if c \<noteq> of_nat (pkt_nr net) then Some (packet_error, net1, alarmed, v1)
         else if A = 0 then Some (0, ?net2, alarmed, v1)
         else read_payload ops my_realloc ?net2 v1 A alarmed n)"
      using r(1) True hb(1,2) h(4) by (simp add: real_read_body_def Let_def)
    consider "c \<noteq> of_nat (pkt_nr net)" | "c = of_nat (pkt_nr net)" "A = 0" | "c = of_nat (pkt_nr net)" "A \<noteq> 0"
      by blast
    then show ?thesis
    proof cases
      case 1
      then show ?thesis using rh(1) unfolding unf by auto
    next
      case 2
      have "frame_read incoming net v 0 ?net2 v1"
        using 2 inc ok2 h(4) hb(4) ok by (simp add: frame_read_def read_ok_def)
      then show ?thesis unfolding unf using 2 by auto
    next
      case 3
      let ?can = "delivers ops incoming \<and> (\<forall>buff n. my_realloc buff n \<noteq> None) \<and> A \<le> length (incoming v1) \<and>
        where_b ?net2 + A < max_packet_size ?net2"
      from read_payload_reads [OF st re ok2 AM, of v1 alarmed n] obtain len' net' alarmed' v' where p:
        "read_payload ops my_realloc ?net2 v1 A alarmed n = Some (len', net', alarmed', v')"
        "len' = packet_error \<and> net_error net' \<noteq> 0 \<and> \<not> ?can \<or> len' = A \<and> payload_read incoming ?net2 v1 A net' v'"
        by blast
      have eq: "real_read_body ops my_realloc net v = Some (len', net', alarmed', v')"
        unfolding unf using 3 p(1) by simp
      have can: ?can if R: "readable ops incoming my_realloc net v"
      proof -
        have "delivers ops incoming" "\<forall>buff n. my_realloc buff n \<noteq> None" using R unfolding readable_def by blast+
        then show ?thesis using rh(2,3) [OF R] h(4) by simp
      qed
      have "frame_read incoming net v A net' v'" if "payload_read incoming ?net2 v1 A net' v'"
        using that 3 inc AM h(4) hb(4) by (auto simp: frame_read_def payload_read_def)
      then show ?thesis unfolding eq using p(2) can by blast
    qed
  qed
qed

lemma my_real_read_frame:
  assumes st: "stream_reader ops incoming" and re: "realloc_ok my_realloc" and ok: "read_ok net"
  shows "\<exists>len net' v'. my_real_read ops my_realloc net v = Some (len, net', v') \<and>
    (len = packet_error \<and> \<not> readable ops incoming my_realloc net v \<or> frame_read incoming net v len net' v')"
proof -
  let ?net1 = "net\<lparr>reading_or_writing := 1\<rparr>"
  have ok1: "read_ok ?net1" using ok by (simp add: read_ok_def)
  obtain len net2 alarmed v2 where r: "real_read_body ops my_realloc ?net1 v = Some (len, net2, alarmed, v2)"
    "len = packet_error \<and> \<not> readable ops incoming my_realloc ?net1 v \<or> frame_read incoming ?net1 v len net2 v2"
    using real_read_body_frame [OF st re ok1, of v] by blast
  let ?v3 = "if alarmed then snd (vio_blocking ops v2 (vio_is_blocking ops v)) else v2"
  have v3: "incoming ?v3 = incoming v2" using stream_readerD(2) [OF st] by simp
  have eq: "my_real_read ops my_realloc net v = Some (len, net2\<lparr>reading_or_writing := 0\<rparr>, ?v3)"
    unfolding my_real_read_def Let_def r(1) by simp
  have "readable ops incoming my_realloc ?net1 v = readable ops incoming my_realloc net v"
    by (simp add: readable_def)
  moreover have "frame_read incoming net v len (net2\<lparr>reading_or_writing := 0\<rparr>) ?v3"
    if "frame_read incoming ?net1 v len net2 v2"
    using that unfolding frame_read_def v3 by (simp add: read_ok_def)
  ultimately show ?thesis unfolding eq using r(2) by blast
qed

section \<open>Reading a packet\<close>

text \<open>The whole packet is in the stream and can be put at offset \<open>off\<close>.\<close>

definition can_read ::
  "'v vio_ops \<Rightarrow> ('v \<Rightarrow> uchar list) \<Rightarrow> (uchar list \<Rightarrow> nat \<Rightarrow> uchar list option) \<Rightarrow> NET \<Rightarrow> nat \<Rightarrow> 'v \<Rightarrow> bool" where
  "can_read ops incoming my_realloc net off v \<longleftrightarrow>
     delivers ops incoming \<and> (\<forall>buff n. my_realloc buff n \<noteq> None) \<and>
     (\<exists>packet rest. incoming v = frames (pkt_nr net) packet @ rest \<and> off + length packet < max_packet_size net)"

text \<open>Its first frame, and the frames behind a full one.\<close>

lemma frames_first:
  "\<exists>rest. frames nr packet = le_bytes 3 (min (length packet) MAX_PACKET_LENGTH) @ [of_nat nr] @
     take MAX_PACKET_LENGTH packet @ rest \<and>
     (if length packet \<ge> MAX_PACKET_LENGTH then rest = frames (Suc nr) (drop MAX_PACKET_LENGTH packet) else rest = [])"
proof (cases "length packet \<ge> MAX_PACKET_LENGTH")
  case True
  then have "frames nr packet = le_bytes 3 (min (length packet) MAX_PACKET_LENGTH) @ [of_nat nr] @
      take MAX_PACKET_LENGTH packet @ frames (Suc nr) (drop MAX_PACKET_LENGTH packet)"
    using frames.simps [of nr packet] by (simp add: min_def)
  then show ?thesis using True by auto
next
  case False
  then have "frames nr packet = le_bytes 3 (min (length packet) MAX_PACKET_LENGTH) @ [of_nat nr] @
      take MAX_PACKET_LENGTH packet @ []"
    using frames.simps [of nr packet] by (simp add: min_def)
  then show ?thesis using False by auto
qed

lemma frames_next:
  assumes "frames nr packet @ rest = le_bytes 3 len @ [of_nat nr] @ data @ others" "length data = len"
    "len \<le> MAX_PACKET_LENGTH"
  shows "take MAX_PACKET_LENGTH packet = data \<and> len = min (length packet) MAX_PACKET_LENGTH \<and>
    (if length packet \<ge> MAX_PACKET_LENGTH then others = frames (Suc nr) (drop MAX_PACKET_LENGTH packet) @ rest
     else others = rest)"
proof -
  obtain r where r: "frames nr packet = le_bytes 3 (min (length packet) MAX_PACKET_LENGTH) @ [of_nat nr] @
     take MAX_PACKET_LENGTH packet @ r"
    "if length packet \<ge> MAX_PACKET_LENGTH then r = frames (Suc nr) (drop MAX_PACKET_LENGTH packet) else r = []"
    using frames_first by blast
  have "le_bytes 3 (min (length packet) MAX_PACKET_LENGTH) = le_bytes 3 len"
    and t: "take MAX_PACKET_LENGTH packet @ r @ rest = data @ others"
    using assms(1) unfolding r(1) by (simp_all add: append_eq_append_conv)
  moreover have "len < 256 ^ 3" "min (length packet) MAX_PACKET_LENGTH < 256 ^ 3"
    using assms(3) by (simp_all add: MAX_PACKET_LENGTH_def)
  ultimately have l: "len = min (length packet) MAX_PACKET_LENGTH" using le_bytes_inj by metis
  then have "length (take MAX_PACKET_LENGTH packet) = length data" using assms(2) by simp
  then have "take MAX_PACKET_LENGTH packet = data" "r @ rest = others" using t by (simp_all add: append_eq_append_conv)
  then show ?thesis using r(2) l by auto
qed

lemma can_read_readable:
  assumes "can_read ops incoming my_realloc net (where_b net) v"
  shows "readable ops incoming my_realloc net v"
proof -
  obtain packet rest where p: "incoming v = frames (pkt_nr net) packet @ rest"
    "where_b net + length packet < max_packet_size net"
    using assms unfolding can_read_def by blast
  obtain r where "frames (pkt_nr net) packet = le_bytes 3 (min (length packet) MAX_PACKET_LENGTH) @
      [of_nat (pkt_nr net)] @ take MAX_PACKET_LENGTH packet @ r"
    using frames_first by blast
  then have "incoming v = le_bytes 3 (min (length packet) MAX_PACKET_LENGTH) @ [of_nat (pkt_nr net)] @
      take MAX_PACKET_LENGTH packet @ (r @ rest)"
    using p(1) by simp
  moreover have "length (take MAX_PACKET_LENGTH packet) = min (length packet) MAX_PACKET_LENGTH"
    "min (length packet) MAX_PACKET_LENGTH \<le> MAX_PACKET_LENGTH"
    "where_b net + min (length packet) MAX_PACKET_LENGTH < max_packet_size net"
    using p(2) by simp_all
  moreover have "delivers ops incoming" "\<forall>buff n. my_realloc buff n \<noteq> None"
    using assms unfolding can_read_def by blast+
  ultimately show ?thesis unfolding readable_def by blast
qed

lemma can_read_next:
  assumes "can_read ops incoming my_realloc net (where_b net) v"
    "frame_read incoming net v MAX_PACKET_LENGTH net' v'"
  shows "can_read ops incoming my_realloc net' (where_b net + MAX_PACKET_LENGTH) v'"
proof -
  obtain packet rest where p: "incoming v = frames (pkt_nr net) packet @ rest"
    "where_b net + length packet < max_packet_size net"
    using assms(1) unfolding can_read_def by blast
  obtain data where d: "length data = MAX_PACKET_LENGTH"
    "incoming v = le_bytes 3 MAX_PACKET_LENGTH @ [of_nat (pkt_nr net)] @ data @ incoming v'"
    and n: "max_packet_size net' = max_packet_size net" "pkt_nr net' = pkt_nr (next_pkt net)"
    using assms(2) unfolding frame_read_def by auto
  have f: "MAX_PACKET_LENGTH = min (length packet) MAX_PACKET_LENGTH"
    "incoming v' = (if length packet \<ge> MAX_PACKET_LENGTH
      then frames (Suc (pkt_nr net)) (drop MAX_PACKET_LENGTH packet) @ rest else rest)"
    using frames_next [of "pkt_nr net" packet rest MAX_PACKET_LENGTH data "incoming v'"] p(1) d by (auto split: if_splits)
  then have "length packet \<ge> MAX_PACKET_LENGTH" by (simp add: min_def split: if_splits)
  then have "incoming v' = frames (pkt_nr net') (drop MAX_PACKET_LENGTH packet) @ rest"
    "where_b net + MAX_PACKET_LENGTH + length (drop MAX_PACKET_LENGTH packet) < max_packet_size net'"
    using f(2) n next_pkt_frames [of net] p(2) by simp_all
  moreover have "delivers ops incoming" "\<forall>buff n. my_realloc buff n \<noteq> None"
    using assms(1) unfolding can_read_def by blast+
  ultimately show ?thesis unfolding can_read_def by blast
qed

text \<open>What reading a packet to offset \<open>off\<close> has done.\<close>

definition packet_read ::
  "('v \<Rightarrow> uchar list) \<Rightarrow> NET \<Rightarrow> nat \<Rightarrow> 'v \<Rightarrow> uchar list \<Rightarrow> NET \<Rightarrow> 'v \<Rightarrow> bool" where
  "packet_read incoming net off v packet net' v' \<longleftrightarrow>
     incoming v = frames (pkt_nr net) packet @ incoming v' \<and>
     take (off + length packet) (net_buff net') = take off (net_buff net) @ packet \<and>
     off + length packet \<le> max_packet net' \<and>
     max_packet net' \<le> max (max_packet net) (max_packet_size net + IO_SIZE) \<and>
     max_packet net' + NET_HEADER_SIZE + COMP_HEADER_SIZE \<le> length (net_buff net') \<and>
     max_packet_size net' = max_packet_size net \<and> net_error net' = net_error net \<and>
     pkt_nr net' = u32 (int (pkt_nr net) + int (frame_count packet))"

lemma packet_read_last:
  assumes "frame_read incoming net v len net' v'" "len \<noteq> MAX_PACKET_LENGTH"
  shows "\<exists>packet. len = length packet \<and> packet_read incoming net (where_b net) v packet net' v'"
proof -
  obtain data where d: "length data = len" "incoming v = le_bytes 3 len @ [of_nat (pkt_nr net)] @ data @ incoming v'"
    "take (where_b net + len) (net_buff net') = take (where_b net) (net_buff net) @ data"
    using assms(1) unfolding frame_read_def by blast
  have short: "length data < MAX_PACKET_LENGTH" using assms d(1) by (simp add: frame_read_def)
  then have "incoming v = frames (pkt_nr net) data @ incoming v'"
    using d(1,2) frames.simps [of "pkt_nr net" data] by simp
  then have "packet_read incoming net (where_b net) v data net' v'"
    using assms(1) d frame_count_short [OF short] unfolding packet_read_def frame_read_def
    by (simp add: read_ok_def)
  then show ?thesis using d(1) by blast
qed

lemma packet_read_more:
  assumes "frame_read incoming net v MAX_PACKET_LENGTH net1 v1"
    "packet_read incoming net1 (where_b net + MAX_PACKET_LENGTH) v1 q net' v'"
  shows "\<exists>data. length data = MAX_PACKET_LENGTH \<and> packet_read incoming net (where_b net) v (data @ q) net' v'"
proof -
  let ?M = MAX_PACKET_LENGTH
  obtain data where d: "length data = ?M" "incoming v = le_bytes 3 ?M @ [of_nat (pkt_nr net)] @ data @ incoming v1"
    "take (where_b net + ?M) (net_buff net1) = take (where_b net) (net_buff net) @ data"
    and n: "max_packet_size net1 = max_packet_size net" "pkt_nr net1 = pkt_nr (next_pkt net)"
      "net_error net1 = net_error net" "max_packet net1 \<le> max (max_packet net) (max_packet_size net + IO_SIZE)"
    using assms(1) unfolding frame_read_def by auto
  have q: "incoming v1 = frames (Suc (pkt_nr net)) q @ incoming v'"
    using assms(2) n(2) next_pkt_frames [of net] unfolding packet_read_def by simp
  have "length (data @ q) \<ge> ?M" using d(1) by simp
  then have "incoming v = frames (pkt_nr net) (data @ q) @ incoming v'" "frame_count (data @ q) = Suc (frame_count q)"
    using d(1,2) q frames.simps [of "pkt_nr net" "data @ q"] frame_count_drop [of "data @ q"] by simp_all
  moreover have "take (where_b net + length (data @ q)) (net_buff net') = take (where_b net) (net_buff net) @ data @ q"
    using assms(2) d(1,3) unfolding packet_read_def by (simp add: add.assoc)
  moreover have "u32 (int (pkt_nr net1) + int (frame_count q)) = u32 (int (pkt_nr net) + int (Suc (frame_count q)))"
    using n(2) by (simp add: u32_add add.assoc)
  ultimately have "packet_read incoming net (where_b net) v (data @ q) net' v'"
    using assms(2) n d(1) unfolding packet_read_def by (auto simp: add.assoc)
  then show ?thesis using d(1) by blast
qed

text \<open>The loop ends because the buffer would outgrow \<open>max_packet_size\<close>: \<open>B\<close> bounds its size, and
  \<open>where_b\<close> grows with each frame.\<close>

lemma read_more_reads:
  assumes st: "stream_reader ops incoming" and re: "realloc_ok my_realloc"
  shows "\<lbrakk>read_ok net; where_b net + len \<le> max_packet net; 0 < len;
      max_packet net \<le> B; max_packet_size net + IO_SIZE \<le> B; B < packet_error\<rbrakk> \<Longrightarrow>
    \<exists>len' net' v'. read_more ops my_realloc net v len so_far = Some (len', net', v') \<and>
      (len' = packet_error \<and> \<not> can_read ops incoming my_realloc net (where_b net + len) v \<or>
       (\<exists>packet. len' = length packet + (so_far + len) \<and>
          packet_read incoming net (where_b net + len) v packet net' v'))"
proof (induction "B - where_b net" arbitrary: net v len so_far rule: less_induct)
  case less
  let ?net0 = "net\<lparr>where_b := where_b net + len\<rparr>"
  have ok0: "read_ok ?net0" using less.prems(1,2) by (simp add: read_ok_def)
  have cr: "can_read ops incoming my_realloc ?net0 (where_b ?net0) v =
      can_read ops incoming my_realloc net (where_b net + len) v" by (simp add: can_read_def)
  have pr: "packet_read incoming ?net0 off v packet net' v' = packet_read incoming net off v packet net' v'"
    for off packet net' v' by (simp add: packet_read_def)
  obtain len1 net1 v1 where r: "my_real_read ops my_realloc ?net0 v = Some (len1, net1, v1)"
    "len1 = packet_error \<and> \<not> readable ops incoming my_realloc ?net0 v \<or> frame_read incoming ?net0 v len1 net1 v1"
    using my_real_read_frame [OF st re ok0, of v] by blast
  note unf = read_more.simps [of ops my_realloc net v len so_far, unfolded r(1)]
  have pe: "packet_error \<noteq> MAX_PACKET_LENGTH" by (simp add: packet_error_def MAX_PACKET_LENGTH_def)
  consider "len1 = packet_error" "\<not> readable ops incoming my_realloc ?net0 v"
    | "frame_read incoming ?net0 v len1 net1 v1" "len1 = MAX_PACKET_LENGTH"
    | "frame_read incoming ?net0 v len1 net1 v1" "len1 \<noteq> MAX_PACKET_LENGTH"
    using r(2) by blast
  then show ?case
  proof cases
    case 1
    then have "\<not> can_read ops incoming my_realloc net (where_b net + len) v"
      using can_read_readable [of ops incoming my_realloc ?net0 v] cr by blast
    then show ?thesis unfolding unf using 1(1) pe by auto
  next
    case 2
    let ?M = MAX_PACKET_LENGTH
    have fr: "frame_read incoming ?net0 v ?M net1 v1" using 2 by simp
    have f: "where_b net1 = where_b net + len" "where_b net1 + ?M \<le> max_packet net1"
      "max_packet net1 \<le> max (max_packet net) (max_packet_size net + IO_SIZE)"
      "max_packet_size net1 = max_packet_size net" "read_ok net1"
      using fr unfolding frame_read_def by auto
    have less': "B - where_b net1 < B - where_b net" using f less.prems by simp
    have B: "max_packet net1 \<le> B" "max_packet_size net1 + IO_SIZE \<le> B" "0 < ?M"
      using f less.prems by (auto simp: MAX_PACKET_LENGTH_def)
    obtain len' net' v' where i: "read_more ops my_realloc net1 v1 ?M (so_far + len) = Some (len', net', v')"
      "len' = packet_error \<and> \<not> can_read ops incoming my_realloc net1 (where_b net1 + ?M) v1 \<or>
       (\<exists>packet. len' = length packet + (so_far + len + ?M) \<and>
          packet_read incoming net1 (where_b net1 + ?M) v1 packet net' v')"
      using less.hyps [OF less' f(5,2) B(3,1,2) less.prems(6), of v1 "so_far + len"] by blast
    have eq: "read_more ops my_realloc net v len so_far = Some (len', net', v')"
      unfolding unf using 2(2) i(1) by simp
    from i(2) show ?thesis
    proof
      assume "len' = packet_error \<and> \<not> can_read ops incoming my_realloc net1 (where_b net1 + ?M) v1"
      then show ?thesis unfolding eq using can_read_next [OF _ fr] cr f(1) by auto
    next
      assume "\<exists>packet. len' = length packet + (so_far + len + ?M) \<and>
          packet_read incoming net1 (where_b net1 + ?M) v1 packet net' v'"
      then obtain q where q: "len' = length q + (so_far + len + ?M)"
        "packet_read incoming net1 (where_b ?net0 + ?M) v1 q net' v'" using f(1) by auto
      then obtain data where "length data = ?M" "packet_read incoming ?net0 (where_b ?net0) v (data @ q) net' v'"
        using packet_read_more [OF fr] by blast
      then have "len' = length (data @ q) + (so_far + len)"
        "packet_read incoming net (where_b net + len) v (data @ q) net' v'" using q(1) pr by auto
      then show ?thesis unfolding eq by blast
    qed
  next
    case 3
    obtain packet where p: "len1 = length packet" "packet_read incoming ?net0 (where_b ?net0) v packet net1 v1"
      using packet_read_last [OF 3] by blast
    then have "len1 \<noteq> packet_error"
      using less.prems unfolding packet_read_def by auto
    then have "read_more ops my_realloc net v len so_far = Some (length packet + (so_far + len), net1, v1)"
      unfolding unf using 3(2) p(1) by simp
    moreover have "packet_read incoming net (where_b net + len) v packet net1 v1" using p(2) pr by simp
    ultimately show ?thesis by auto
  qed
qed

lemma read_frames_reads:
  assumes st: "stream_reader ops incoming" and re: "realloc_ok my_realloc" and ok: "read_ok net"
    and lim: "max_packet net < packet_error" "max_packet_size net + IO_SIZE < packet_error"
  shows "\<exists>len net' v'. read_frames ops my_realloc net v = Some (len, net', v') \<and>
    (len = packet_error \<and> \<not> can_read ops incoming my_realloc net (where_b net) v \<or>
     (\<exists>packet. len = length packet \<and> packet_read incoming net (where_b net) v packet net' v' \<and>
        where_b net' = where_b net))"
proof -
  let ?M = MAX_PACKET_LENGTH and ?B = "max (max_packet net) (max_packet_size net + IO_SIZE)"
  obtain len net1 v1 where r: "my_real_read ops my_realloc net v = Some (len, net1, v1)"
    "len = packet_error \<and> \<not> readable ops incoming my_realloc net v \<or> frame_read incoming net v len net1 v1"
    using my_real_read_frame [OF st re ok, of v] by blast
  note unf = read_frames_def [of ops my_realloc net v, unfolded r(1) Let_def]
  consider "len = packet_error" "\<not> readable ops incoming my_realloc net v"
    | "frame_read incoming net v len net1 v1" "len \<noteq> ?M" | "len = ?M" "frame_read incoming net v ?M net1 v1"
    using r(2) by blast
  then show ?thesis
  proof cases
    case 1
    then have "read_frames ops my_realloc net v = Some (packet_error, net1, v1)"
      unfolding unf by (simp add: packet_error_def MAX_PACKET_LENGTH_def)
    moreover have "\<not> can_read ops incoming my_realloc net (where_b net) v"
      using can_read_readable [of ops incoming my_realloc net v] 1(2) by blast
    ultimately show ?thesis by simp
  next
    case 2
    obtain packet where "len = length packet" "packet_read incoming net (where_b net) v packet net1 v1"
      using packet_read_last [OF 2] by blast
    moreover have "where_b net1 = where_b net" using 2(1) by (simp add: frame_read_def)
    moreover have "read_frames ops my_realloc net v = Some (len, net1, v1)" unfolding unf using 2(2) by simp
    ultimately show ?thesis by auto
  next
    case 3
    have f: "where_b net1 = where_b net" "where_b net1 + ?M \<le> max_packet net1" "max_packet net1 \<le> ?B"
      "max_packet_size net1 + IO_SIZE \<le> ?B" "read_ok net1"
      using 3(2) unfolding frame_read_def by auto
    have B: "?B < packet_error" "0 < ?M" using lim by (auto simp: MAX_PACKET_LENGTH_def)
    obtain len2 net2 v2 where m: "read_more ops my_realloc net1 v1 ?M 0 = Some (len2, net2, v2)"
      "len2 = packet_error \<and> \<not> can_read ops incoming my_realloc net1 (where_b net1 + ?M) v1 \<or>
       (\<exists>packet. len2 = length packet + (0 + ?M) \<and> packet_read incoming net1 (where_b net1 + ?M) v1 packet net2 v2)"
      using read_more_reads [OF st re f(5,2) B(2) f(3,4) B(1), of v1 0] by blast
    let ?net3 = "net2\<lparr>where_b := where_b net1\<rparr>"
    have eq: "read_frames ops my_realloc net v = Some (len2, ?net3, v2)"
      unfolding unf using 3(1) m(1) by simp
    have pr: "packet_read incoming net off v packet ?net3 v2 = packet_read incoming net off v packet net2 v2"
      for off packet by (simp add: packet_read_def)
    have err: "\<not> can_read ops incoming my_realloc net (where_b net) v"
      if "\<not> can_read ops incoming my_realloc net1 (where_b net1 + ?M) v1"
      using that can_read_next [OF _ 3(2)] f(1) by auto
    have fin: "\<exists>packet. len2 = length packet \<and> packet_read incoming net (where_b net) v packet ?net3 v2"
      if q: "len2 = length q + (0 + ?M)" "packet_read incoming net1 (where_b net1 + ?M) v1 q net2 v2" for q
    proof -
      obtain data where "length data = ?M" "packet_read incoming net (where_b net) v (data @ q) net2 v2"
        using packet_read_more [OF 3(2), of q net2 v2] q(2) f(1) by auto
      then show ?thesis using q(1) pr by (intro exI [of _ "data @ q"]) simp
    qed
    have "len2 = packet_error \<and> \<not> can_read ops incoming my_realloc net (where_b net) v \<or>
        (\<exists>packet. len2 = length packet \<and> packet_read incoming net (where_b net) v packet ?net3 v2)"
      using m(2) err fin by blast
    then show ?thesis unfolding eq using f(1) by simp
  qed
qed

lemma my_net_read_reads:
  assumes st: "stream_reader ops incoming" and re: "realloc_ok my_realloc" and ok: "read_ok net"
    and lim: "max_packet net < packet_error" "max_packet_size net + IO_SIZE < packet_error"
  shows "\<exists>len net' v'. my_net_read ops my_realloc net v = Some (len, net', v') \<and>
    (len = packet_error \<and> \<not> can_read ops incoming my_realloc net (where_b net) v \<or>
     (\<exists>packet. len = length packet \<and> incoming v = frames (pkt_nr net) packet @ incoming v' \<and>
        take (Suc len) (drop (read_pos net') (net_buff net')) = packet @ [0] \<and>
        pkt_nr net' = u32 (int (pkt_nr net) + int (frame_count packet)) \<and>
        where_b net' = where_b net \<and> read_ok net'))"
proof -
  obtain len net2 v2 where a: "read_frames ops my_realloc net v = Some (len, net2, v2)"
    "len = packet_error \<and> \<not> can_read ops incoming my_realloc net (where_b net) v \<or>
     (\<exists>packet. len = length packet \<and> packet_read incoming net (where_b net) v packet net2 v2 \<and> where_b net2 = where_b net)"
    using read_frames_reads [OF assms, of v] by blast
  have eq: "my_net_read ops my_realloc net v = (if len \<noteq> packet_error then do {
      buff \<leftarrow> put (net_buff net2) (where_b net2 + len) 0;
      Some (len, net2\<lparr>read_pos := where_b net2, net_buff := buff\<rparr>, v2)
    } else Some (len, net2\<lparr>read_pos := where_b net2\<rparr>, v2))"
    using a(1) by (simp add: my_net_read_def Let_def)
  consider "len = packet_error" "\<not> can_read ops incoming my_realloc net (where_b net) v"
    | packet where "len = length packet" "packet_read incoming net (where_b net) v packet net2 v2"
      "where_b net2 = where_b net"
    using a(2) by blast
  then show ?thesis
  proof cases
    case 1
    then show ?thesis unfolding eq by simp
  next
    case 2
    let ?b = "net_buff net2" and ?w = "where_b net"
    have p: "take (?w + len) ?b = take ?w (net_buff net) @ packet" "?w + len \<le> max_packet net2"
      "max_packet net2 \<le> max (max_packet net) (max_packet_size net + IO_SIZE)"
      "max_packet net2 + NET_HEADER_SIZE + COMP_HEADER_SIZE \<le> length ?b"
      using 2 unfolding packet_read_def by simp_all
    have w: "?w \<le> length (net_buff net)" using ok by (simp add: read_ok_def)
    have ne: "len \<noteq> packet_error" using p(2,3) lim by auto
    have i: "?w + len < length ?b" using p(2,4) by (simp add: NET_HEADER_SIZE_def)
    have "take len (drop ?w ?b) = packet"
      using arg_cong [OF p(1), of "drop ?w"] w by (simp add: drop_take)
    then have "take (Suc len) (drop ?w (?b[?w + len := 0])) = packet @ [0]"
      using i 2(1) by (simp add: take_Suc_conv_app_nth drop_update_swap)
    moreover have "my_net_read ops my_realloc net v =
        Some (len, net2\<lparr>read_pos := where_b net2, net_buff := ?b[?w + len := 0]\<rparr>, v2)"
      unfolding eq using ne i 2(3) by (simp add: put_def)
    ultimately show ?thesis
      using 2 p(2,4) unfolding packet_read_def by (auto simp: read_ok_def)
  qed
qed

text \<open>A fresh connection is fit for writing and reading, and \<open>net_clear\<close> keeps it so.\<close>

lemma my_net_init_ok:
  assumes "\<And>n buff. my_malloc n = Some buff \<Longrightarrow> length buff = n"
    "my_net_init my_malloc net_buffer_length max_allowed_packet net vio = Some net'"
  shows "net_ok net' \<and> read_ok net' \<and> pending net' = [] \<and> pkt_nr net' = 0 \<and> net_error net' = 0"
  using assms(2) assms(1) [of "u32 (int net_buffer_length) + NET_HEADER_SIZE + COMP_HEADER_SIZE"]
  by (auto simp: my_net_init_def my_net_local_init_def net_ok_def read_ok_def pending_def Let_def
      split: option.splits)

lemma skip_ready_keeps:
  assumes "skip_ready ops ready net v = Some r"
  shows "length (net_buff (fst r)) = length (net_buff net) \<and> max_packet (fst r) = max_packet net \<and>
    where_b (fst r) = where_b net"
proof (rule skip_ready.raw_induct [OF _ assms])
  fix skip ops net v and ready :: "'a \<Rightarrow> bool" and r :: "NET \<times> 'a"
  assume IH: "\<And>ops ready net v r. skip ops ready net v = Some r \<Longrightarrow>
      length (net_buff (fst r)) = length (net_buff net) \<and> max_packet (fst r) = max_packet net \<and>
      where_b (fst r) = where_b net"
    and body: "(if \<not> ready v then Some (net, v)
      else case vio_read ops v (max_packet net) of (count, bytes, v) \<Rightarrow>
        if 0 < count then memcpy (net_buff net) 0 bytes \<bind> (\<lambda>buff. skip ops ready (net\<lparr>net_buff := buff\<rparr>) v)
        else Some (net\<lparr>net_error := 2\<rparr>, v)) = Some r"
  obtain count bytes v1 where rd: "vio_read ops v (max_packet net) = (count, bytes, v1)" by (metis prod_cases3)
  have l: "length b = length (net_buff net)" if "memcpy (net_buff net) 0 bytes = Some b" for b
    using that by (auto simp: memcpy_def split: if_splits)
  show "length (net_buff (fst r)) = length (net_buff net) \<and> max_packet (fst r) = max_packet net \<and>
      where_b (fst r) = where_b net"
  proof (cases "ready v \<and> count > 0")
    case True
    then obtain b where b: "memcpy (net_buff net) 0 bytes = Some b"
      "skip ops ready (net\<lparr>net_buff := b\<rparr>) v1 = Some r"
      using body rd by (auto simp: Option.bind_eq_Some_conv)
    then show ?thesis using IH [OF b(2)] l [OF b(1)] by simp
  next
    case False
    then show ?thesis using body rd by (auto split: if_splits)
  qed
qed

lemma net_clear_ok:
  assumes "net_clear ops ready net v clear_buffer = Some (net', v')" "net_ok net" "read_ok net"
  shows "net_ok net' \<and> read_ok net' \<and> pending net' = [] \<and> pkt_nr net' = 0"
proof -
  obtain net1 where "net' = net1\<lparr>pkt_nr := 0, compress_pkt_nr := 0, write_pos := 0\<rparr>"
    "length (net_buff net1) = length (net_buff net) \<and> max_packet net1 = max_packet net \<and> where_b net1 = where_b net"
    using assms(1) skip_ready_keeps [of ops ready net v]
    by (auto simp: net_clear_def Option.bind_eq_Some_conv split: if_splits)
  then show ?thesis using assms(2,3) by (simp add: net_ok_def read_ok_def pending_def)
qed

section \<open>Properties\<close>

text \<open>The frames of a packet tell where they end.\<close>

lemma frames_prefix_free:
  assumes "frames nr p @ r = frames nr q @ s"
  shows "p = q \<and> r = s"
  using assms
proof (induction "length p" arbitrary: nr p q rule: less_induct)
  case less
  let ?M = MAX_PACKET_LENGTH
  obtain t where t: "frames nr q = le_bytes 3 (min (length q) ?M) @ [of_nat nr] @ take ?M q @ t"
    "if length q \<ge> ?M then t = frames (Suc nr) (drop ?M q) else t = []"
    using frames_first by blast
  have "frames nr p @ r = le_bytes 3 (min (length q) ?M) @ [of_nat nr] @ take ?M q @ (t @ s)"
    using less.prems t(1) by simp
  from frames_next [OF this] have h: "take ?M p = take ?M q" "min (length q) ?M = min (length p) ?M"
    "if length p \<ge> ?M then t @ s = frames (Suc nr) (drop ?M p) @ r else t @ s = r"
    by simp_all
  show ?case
  proof (cases "length p \<ge> ?M")
    case True
    then have q: "length q \<ge> ?M" using h(2) by (simp add: min_def split: if_splits)
    have "length (drop ?M p) < length p" using True by (simp add: MAX_PACKET_LENGTH_def)
    from less.hyps [OF this, of "Suc nr" "drop ?M q"] have "drop ?M p = drop ?M q \<and> r = s"
      using True q h(3) t(2) by simp
    then show ?thesis using h(1) append_take_drop_id [of ?M p] append_take_drop_id [of ?M q] by metis
  next
    case False
    then have "length q < ?M" using h(2) by (simp add: min_def split: if_splits)
    then show ?thesis using False h(1,3) t(2) by simp
  qed
qed

lemma pipe_stream_reader: "stream_reader pipe_ops id" "delivers pipe_ops id"
  by (auto simp: stream_reader_def delivers_def pipe_ops_def min_def)

text \<open>An allocator for the examples, which never fails.\<close>

definition sample_realloc :: "uchar list \<Rightarrow> nat \<Rightarrow> uchar list option" where
  "sample_realloc buff n = Some (take n buff @ replicate (n - length buff) 0)"

lemma sample_realloc_ok: "realloc_ok sample_realloc" "sample_realloc buff n \<noteq> None"
  by (auto simp: realloc_ok_def sample_realloc_def)

lemma sample_read_ok: "read_ok sample_net" "max_packet sample_net < packet_error"
  "max_packet_size sample_net + IO_SIZE < packet_error"
  by (simp_all add: read_ok_def sample_net_def NET_HEADER_SIZE_def COMP_HEADER_SIZE_def packet_error_def IO_SIZE_def)

text \<open>C5: whatever bytes the peer sends, \<open>my_net_read\<close> returns and no access leaves its buffer; either
  it reports \<open>packet_error\<close>, or the bytes it consumed are the frames, numbered from \<open>pkt_nr\<close>, of the
  packet it leaves at \<open>read_pos\<close> with a 0 behind it, and its state is fit for the next packet.\<close>

theorem my_net_read_sound:
  assumes "stream_reader ops incoming" "realloc_ok my_realloc" "read_ok net"
    "max_packet net < packet_error" "max_packet_size net + IO_SIZE < packet_error"
  shows "\<exists>len net' v'. my_net_read ops my_realloc net v = Some (len, net', v') \<and>
    (len = packet_error \<or>
     (\<exists>packet. len = length packet \<and> incoming v = frames (pkt_nr net) packet @ incoming v' \<and>
        take (Suc len) (drop (read_pos net') (net_buff net')) = packet @ [0] \<and>
        pkt_nr net' = u32 (int (pkt_nr net) + int (frame_count packet)) \<and>
        where_b net' = where_b net \<and> read_ok net'))"
  using my_net_read_reads [OF assms, of v] by blast

theorem my_net_read_sound_witness:
  "\<exists>len net' v'. my_net_read pipe_ops sample_realloc sample_net [2, 0, 0, 3, 7, 8, 1] = Some (len, net', v') \<and>
    (len = packet_error \<or> (\<exists>packet. len = length packet \<and> [2, 0, 0, 3, 7, 8, 1] = frames 3 packet @ v'))"
  using my_net_read_sound [OF pipe_stream_reader(1) sample_realloc_ok(1) sample_read_ok, of "[2, 0, 0, 3, 7, 8, 1]"]
  by (auto simp: sample_net_ok)

text \<open>C2: a packet of any length written with \<open>my_net_write\<close> and \<open>net_flush\<close> is what \<open>my_net_read\<close>
  returns at the other end: if the writer reports success, the bytes it has put out arrive, and the
  packet is within the reader's limit, then the reader gets exactly the packet, consumes exactly
  its bytes, and the packet numbers of the two ends are in step again.\<close>

theorem packet_roundtrip:
  assumes w: "stream_writer wops sent" "net_ok wnet" "net_vio wnet" "write_pos wnet = 0"
    and sent: "my_net_write wops wnet w packet = Some (False, wnet1, w1)"
      "net_flush wops wnet1 w1 = Some (False, wnet2, w2)"
    and r: "stream_reader rops incoming" "delivers rops incoming" "realloc_ok my_realloc"
      "\<forall>buff n. my_realloc buff n \<noteq> None" "read_ok rnet"
      "max_packet rnet < packet_error" "max_packet_size rnet + IO_SIZE < packet_error"
    and step: "(of_nat (pkt_nr rnet) :: uchar) = of_nat (pkt_nr wnet)"
    and fits: "where_b rnet + length packet < max_packet_size rnet"
    and arrives: "incoming v = drop (length (sent w)) (sent w2) @ rest"
  shows "\<exists>rnet' v'. my_net_read rops my_realloc rnet v = Some (length packet, rnet', v') \<and>
    take (length packet) (drop (read_pos rnet') (net_buff rnet')) = packet \<and> incoming v' = rest \<and>
    (of_nat (pkt_nr rnet') :: uchar) = of_nat (pkt_nr wnet2)"
proof -
  have fr: "frames (pkt_nr wnet) packet = frames (pkt_nr rnet) packet" by (rule frames_cong) (simp add: step)
  have wl: "my_net_write_loop wops wnet w packet = Some (False, wnet1, w1)"
    using sent(1) w(3) by (simp add: my_net_write_def)
  then have w1: "wrote sent wnet w (frames (pkt_nr wnet) packet) False wnet1 w1"
    "pkt_nr wnet1 = u32 (int (pkt_nr wnet) + int (frame_count packet))"
    using my_net_write_loop_wrote [OF w(1,2), of w packet] by auto
  then have ok1: "net_ok wnet1" by (simp add: wrote_def)
  then have w2: "wrote sent wnet1 w1 [] False wnet2 w2" "write_pos wnet2 = 0" "pkt_nr wnet2 = pkt_nr wnet1"
    using net_flush_wrote [OF w(1) ok1, of w1] sent(2) by auto
  have "sent w2 = sent w @ frames (pkt_nr wnet) packet"
    using w1(1) w2(1,2) w(4) by (simp add: wrote_def pending_def)
  then have inc: "incoming v = frames (pkt_nr rnet) packet @ rest" using arrives fr by simp
  have can: "can_read rops incoming my_realloc rnet (where_b rnet) v"
    using r(2,4) inc fits unfolding can_read_def by blast
  obtain len rnet' v' packet' where m: "my_net_read rops my_realloc rnet v = Some (len, rnet', v')"
    "len = length packet'" "incoming v = frames (pkt_nr rnet) packet' @ incoming v'"
    "take (Suc len) (drop (read_pos rnet') (net_buff rnet')) = packet' @ [0]"
    "pkt_nr rnet' = u32 (int (pkt_nr rnet) + int (frame_count packet'))"
    using my_net_read_reads [OF r(1,3,5-7), of v] can by blast
  have p: "packet' = packet" "incoming v' = rest"
    using frames_prefix_free [of "pkt_nr rnet" packet rest packet' "incoming v'"] inc m(3) by simp_all
  have "take len (drop (read_pos rnet') (net_buff rnet')) = packet"
    using arg_cong [OF m(4), of "take len"] m(2) p(1) by simp
  moreover have "(of_nat (pkt_nr rnet') :: uchar) = of_nat (pkt_nr wnet2)"
    using m(5) w1(2) w2(3) p(1) step uchar_u32 [of "pkt_nr rnet + frame_count packet"]
      uchar_u32 [of "pkt_nr wnet + frame_count packet"] by simp
  ultimately show ?thesis using m(1,2) p by auto
qed

text \<open>The example: a packet of six bytes through a buffer of eight.\<close>

definition sample_packet :: "uchar list" where
  "sample_packet = [1, 2, 3, 4, 5, 6]"

definition sample_written :: NET where
  "sample_written = sample_net\<lparr>net_buff := [5, 6, 0, 3, 1, 2, 3, 4] @ replicate 7 0, write_pos := 2, pkt_nr := 4\<rparr>"

lemma pipe_write_loop: "write_loop pipe_ops net v data alarmed n = Some ([], net, alarmed, v @ data)"
proof (induction "length data" arbitrary: v data rule: less_induct)
  case less
  show ?case
  proof (cases "data = []")
    case True
    then show ?thesis by (simp add: write_loop.simps [of pipe_ops net v "[]" alarmed n])
  next
    case False
    define k where "k = min 5 (length data)"
    have w: "vio_write pipe_ops v data = (int k, v @ take k data)" by (simp add: pipe_ops_def k_def min_def)
    have l: "0 < k" "\<not> length data < k" using False by (auto simp: k_def)
    have "write_loop pipe_ops net v data alarmed n = write_loop pipe_ops net (v @ take k data) (drop k data) alarmed n"
      unfolding write_loop.simps [of pipe_ops net v data alarmed n] w using False l by simp
    then show ?thesis using less [of "drop k data" "v @ take k data"] False l by simp
  qed
qed

lemma pipe_real_write:
  "net_error net \<noteq> 2 \<Longrightarrow> net_real_write pipe_ops net v data = Some (0, net\<lparr>reading_or_writing := 0\<rparr>, v @ data)"
  by (simp add: net_real_write_def pipe_write_loop)


definition sample_header :: NET where
  "sample_header = sample_net\<lparr>net_buff := [6, 0, 0, 3] @ replicate 11 0, write_pos := 4, pkt_nr := 4\<rparr>"

lemma le_bytes_3: "le_bytes 3 A = [of_nat A, of_nat (A div 256), of_nat (A div 256 div 256)]"
  by (simp add: numeral_3_eq_3)

lemma sample_write_header:
  "net_write_buff pipe_ops (next_pkt sample_net) [] [6, 0, 0, 3] = Some (False, sample_header, [])"
  by (simp add: net_write_buff_def buff_rest_def memcpy_def sample_net_def sample_header_def next_pkt_def u32_def)

lemma sample_write_body:
  "net_write_buff pipe_ops sample_header [] sample_packet = Some (False, sample_written, [6, 0, 0, 3, 1, 2, 3, 4])"
  by (simp add: net_write_buff_def write_direct_def buff_rest_def memcpy_def pipe_real_write
      sample_net_def sample_header_def sample_packet_def sample_written_def)

lemma sample_write:
  "my_net_write pipe_ops sample_net [] sample_packet = Some (False, sample_written, [6, 0, 0, 3, 1, 2, 3, 4])"
proof -
  have l: "\<not> MAX_PACKET_LENGTH \<le> 6" "length sample_packet = 6"
    by (simp_all add: MAX_PACKET_LENGTH_def sample_packet_def)
  show ?thesis
    unfolding my_net_write_def my_net_write_loop.simps [of _ _ _ sample_packet]
    by (simp add: sample_net_ok l net_header_bytes le_bytes_3 sample_write_header sample_write_body)
qed

lemma sample_flush:
  "net_flush pipe_ops sample_written [6, 0, 0, 3, 1, 2, 3, 4] =
    Some (False, sample_written\<lparr>write_pos := 0\<rparr>, [6, 0, 0, 3, 1, 2, 3, 4, 5, 6])"
  by (simp add: net_flush_def pipe_real_write sample_written_def sample_net_def)

theorem packet_roundtrip_witness:
  "\<exists>rnet' v'. my_net_read pipe_ops sample_realloc sample_net [6, 0, 0, 3, 1, 2, 3, 4, 5, 6, 42] =
      Some (6, rnet', v') \<and>
    take 6 (drop (read_pos rnet') (net_buff rnet')) = [1, 2, 3, 4, 5, 6] \<and> v' = [42] \<and>
    (of_nat (pkt_nr rnet') :: uchar) = 4"
proof -
  have fits: "where_b sample_net + length sample_packet < max_packet_size sample_net"
    by (simp add: sample_net_def sample_packet_def)
  have arrives: "id [6, 0, 0, 3, 1, 2, 3, 4, 5, 6, 42] =
      drop (length (id ([] :: uchar list))) (id [6, 0, 0, 3, 1, 2, 3, 4, 5, 6]) @ [42 :: uchar]"
    by simp
  have len: "length sample_packet = 6" by (simp add: sample_packet_def)
  have alloc: "\<forall>buff n. sample_realloc buff n \<noteq> None" by (simp add: sample_realloc_ok)
  show ?thesis
    using packet_roundtrip [OF pipe_stream_writer sample_net_ok(1-3) sample_write sample_flush
      pipe_stream_reader sample_realloc_ok(1) alloc sample_read_ok refl fits arrives]
    unfolding len by (simp add: sample_packet_def sample_written_def)
qed

end
