(* ===== verification/VioSocket.thy ===== *)
theory VioSocket
  imports NetRead
begin

text \<open>
  The socket transport under the packet layer, \<open>src/vio/viosocket.c\<close> as \<open>vio_init\<close> of
  \<open>src/vio/vio.c\<close> wires it (the POSIX variant): plain and buffered reads, writes and the blocking mode.
  The system calls are parameters.  The transport keeps the contract the packet layer relies on,
  if the system's sockets do.
\<close>

unbundle bit_operations_syntax

section \<open>Model\<close>

datatype errno = EINTR | EAGAIN | EWOULDBLOCK | Other_errno nat

text \<open>\<open>read\<close>, \<open>write\<close>, \<open>fcntl(F_SETFL)\<close> on the connection's socket, and \<open>errno\<close>.\<close>

record 's sys_ops =
  sys_read :: "'s \<Rightarrow> nat \<Rightarrow> int \<times> uchar list \<times> 's"
  sys_write :: "'s \<Rightarrow> uchar list \<Rightarrow> int \<times> 's"
  sys_fcntl :: "'s \<Rightarrow> 32 word \<Rightarrow> int \<times> 's"
  sys_errno :: "'s \<Rightarrow> errno"
  sys_clear_errno :: "'s \<Rightarrow> 's"

text \<open>Of the read buffer only the bytes from \<open>read_pos\<close> to \<open>read_end\<close> are ever used again: they are
  \<open>vio_unread\<close>.  \<open>vio_sys\<close> is the state of the system.\<close>

record 's Vio =
  vio_sd :: int
  fcntl_mode :: "32 word"
  vio_unread :: "uchar list"
  vio_sys :: 's

definition O_NONBLOCK :: "32 word" where "O_NONBLOCK = 0x800"
definition VIO_READ_BUFFER_SIZE :: nat where "VIO_READ_BUFFER_SIZE = 16384"
definition VIO_UNBUFFERED_READ_MIN_SIZE :: nat where "VIO_UNBUFFERED_READ_MIN_SIZE = 2048"

definition socket_read :: "'s sys_ops \<Rightarrow> 's Vio \<Rightarrow> nat \<Rightarrow> int \<times> uchar list \<times> 's Vio" where
  "socket_read sys vio len =
     (case sys_read sys (sys_clear_errno sys (vio_sys vio)) len of
        (r, bytes, s) \<Rightarrow> (r, bytes, vio\<lparr>vio_sys := s\<rparr>))"

definition vio_read_buff :: "'s sys_ops \<Rightarrow> 's Vio \<Rightarrow> nat \<Rightarrow> int \<times> uchar list \<times> 's Vio" where
  "vio_read_buff sys vio len =
     (if vio_unread vio \<noteq> [] then
        let rc = min (length (vio_unread vio)) len
        in (int rc, take rc (vio_unread vio), vio\<lparr>vio_unread := drop rc (vio_unread vio)\<rparr>)
      else if len < VIO_UNBUFFERED_READ_MIN_SIZE then
        case socket_read sys vio VIO_READ_BUFFER_SIZE of
          (rc, bytes, vio) \<Rightarrow>
            if rc \<noteq> 0 \<and> rc \<noteq> - 1 then
              if rc > int len then (int len, take len bytes, vio\<lparr>vio_unread := drop len bytes\<rparr>)
              else (rc, bytes, vio)
            else (rc, [], vio)
      else socket_read sys vio len)"

definition socket_write :: "'s sys_ops \<Rightarrow> 's Vio \<Rightarrow> uchar list \<Rightarrow> int \<times> 's Vio" where
  "socket_write sys vio buf =
     (case sys_write sys (vio_sys vio) buf of (r, s) \<Rightarrow> (r, vio\<lparr>vio_sys := s\<rparr>))"

text \<open>Without the old mode, which the packet layer does not use.\<close>

definition socket_blocking :: "'s sys_ops \<Rightarrow> 's Vio \<Rightarrow> bool \<Rightarrow> int \<times> 's Vio" where
  "socket_blocking sys vio set_blocking_mode =
     (if vio_sd vio \<ge> 0 then
        let old_fcntl = fcntl_mode vio;
            vio = (if set_blocking_mode then vio\<lparr>fcntl_mode := fcntl_mode vio AND NOT O_NONBLOCK\<rparr>
                   else vio\<lparr>fcntl_mode := fcntl_mode vio OR O_NONBLOCK\<rparr>)
        in if old_fcntl \<noteq> fcntl_mode vio then
             case sys_fcntl sys (vio_sys vio) (fcntl_mode vio) of
               (r, s) \<Rightarrow> (r, (if r = - 1 then vio\<lparr>fcntl_mode := old_fcntl\<rparr> else vio)\<lparr>vio_sys := s\<rparr>)
           else (0, vio)
      else (0, vio))"

definition socket_is_blocking :: "'s Vio \<Rightarrow> bool" where
  "socket_is_blocking vio \<longleftrightarrow> fcntl_mode vio AND O_NONBLOCK = 0"

definition socket_should_retry :: "'s sys_ops \<Rightarrow> 's Vio \<Rightarrow> bool" where
  "socket_should_retry sys vio \<longleftrightarrow>
     (let en = sys_errno sys (vio_sys vio)
      in en = EINTR \<or> \<not> socket_is_blocking vio \<and> (en = EAGAIN \<or> en = EWOULDBLOCK))"

text \<open>\<open>SOCKET_ETIMEDOUT\<close> is \<open>SOCKET_EINTR\<close>.\<close>

definition socket_was_interrupted :: "'s sys_ops \<Rightarrow> 's Vio \<Rightarrow> bool" where
  "socket_was_interrupted sys vio \<longleftrightarrow>
     (let en = sys_errno sys (vio_sys vio)
      in en = EAGAIN \<or> en = EINTR \<or> en = EWOULDBLOCK)"

definition vio_init :: "'s sys_ops \<Rightarrow> bool \<Rightarrow> 's Vio vio_ops" where
  "vio_init sys buffered_read =
     \<lparr>vio_write = socket_write sys,
      vio_read = (if buffered_read then vio_read_buff sys else socket_read sys),
      vio_should_retry = socket_should_retry sys,
      vio_was_interrupted = socket_was_interrupted sys,
      vio_is_blocking = socket_is_blocking,
      vio_blocking = socket_blocking sys\<rparr>"

section \<open>The contract\<close>

text \<open>A stream socket of the system: \<open>read\<close> returns at most the bytes asked for, the next ones, or -1
  or 0 and nothing; \<open>write\<close> takes a beginning of the bytes; \<open>fcntl\<close> and \<open>errno\<close> move no data.\<close>

definition stream_socket :: "'s sys_ops \<Rightarrow> ('s \<Rightarrow> uchar list) \<Rightarrow> ('s \<Rightarrow> uchar list) \<Rightarrow> bool" where
  "stream_socket sys sent incoming \<longleftrightarrow>
     (\<forall>s k n bytes s'. sys_read sys s k = (n, bytes, s') \<longrightarrow>
        - 1 \<le> n \<and> n \<le> int k \<and> sent s' = sent s \<and>
        (if 0 < n then int (length bytes) = n \<and> incoming s = bytes @ incoming s' else incoming s' = incoming s)) \<and>
     (\<forall>s data n s'. sys_write sys s data = (n, s') \<longrightarrow>
        n \<le> int (length data) \<and> sent s' = sent s @ take (nat n) data \<and> incoming s' = incoming s) \<and>
     (\<forall>s mode r s'. sys_fcntl sys s mode = (r, s') \<longrightarrow> sent s' = sent s \<and> incoming s' = incoming s) \<and>
     (\<forall>s. sent (sys_clear_errno sys s) = sent s \<and> incoming (sys_clear_errno sys s) = incoming s)"

definition vio_sent :: "('s \<Rightarrow> uchar list) \<Rightarrow> 's Vio \<Rightarrow> uchar list" where
  "vio_sent sent vio = sent (vio_sys vio)"

text \<open>What is to come is what the buffer still holds, if reads are buffered, and then what the socket
  has.\<close>

definition vio_incoming :: "bool \<Rightarrow> ('s \<Rightarrow> uchar list) \<Rightarrow> 's Vio \<Rightarrow> uchar list" where
  "vio_incoming buffered_read incoming vio =
     (if buffered_read then vio_unread vio else []) @ incoming (vio_sys vio)"

lemma stream_socketD:
  assumes "stream_socket sys sent incoming"
  shows "sys_read sys s k = (n, bytes, s') \<Longrightarrow> - 1 \<le> n \<and> n \<le> int k \<and> sent s' = sent s \<and>
      (if 0 < n then int (length bytes) = n \<and> incoming s = bytes @ incoming s' else incoming s' = incoming s)"
    and "sys_write sys s data = (n, s') \<Longrightarrow>
      n \<le> int (length data) \<and> sent s' = sent s @ take (nat n) data \<and> incoming s' = incoming s"
    and "sys_fcntl sys s mode = (r, s') \<Longrightarrow> sent s' = sent s \<and> incoming s' = incoming s"
    and "sent (sys_clear_errno sys s) = sent s" "incoming (sys_clear_errno sys s) = incoming s"
  using assms [unfolded stream_socket_def] by blast+

lemma socket_blocking_keeps:
  assumes "stream_socket sys sent incoming"
  shows "sent (vio_sys (snd (socket_blocking sys vio mode))) = sent (vio_sys vio)"
    "incoming (vio_sys (snd (socket_blocking sys vio mode))) = incoming (vio_sys vio)"
    "vio_unread (snd (socket_blocking sys vio mode)) = vio_unread vio"
  using stream_socketD(3) [OF assms]
  by (auto simp: socket_blocking_def Let_def split: prod.splits)

lemma socket_read_stream:
  assumes "stream_socket sys sent incoming" "socket_read sys vio len = (n, bytes, vio')"
  shows "- 1 \<le> n \<and> n \<le> int len \<and> vio_unread vio' = vio_unread vio \<and>
    (if 0 < n then int (length bytes) = n \<and> incoming (vio_sys vio) = bytes @ incoming (vio_sys vio')
     else incoming (vio_sys vio') = incoming (vio_sys vio))"
proof -
  obtain r bs s where r: "sys_read sys (sys_clear_errno sys (vio_sys vio)) len = (r, bs, s)"
    by (metis prod_cases3)
  then have e: "n = r" "bytes = bs" "vio' = vio\<lparr>vio_sys := s\<rparr>" using assms(2) by (simp_all add: socket_read_def)
  show ?thesis using stream_socketD(1) [OF assms(1) r] unfolding e stream_socketD(4,5) [OF assms(1)] by simp
qed

lemma vio_read_buff_stream:
  assumes "stream_socket sys sent incoming" "vio_read_buff sys vio len = (n, bytes, vio')"
  shows "n \<le> int len \<and>
    (if 0 < n then int (length bytes) = n \<and> vio_unread vio @ incoming (vio_sys vio) = bytes @ vio_unread vio' @ incoming (vio_sys vio')
     else vio_unread vio' @ incoming (vio_sys vio') = vio_unread vio @ incoming (vio_sys vio))"
proof -
  obtain rc bs vio1 where rd: "socket_read sys vio VIO_READ_BUFFER_SIZE = (rc, bs, vio1)" by (metis prod_cases3)
  note s = socket_read_stream [OF assms(1) rd]
  consider "vio_unread vio \<noteq> []" | "vio_unread vio = []" "VIO_UNBUFFERED_READ_MIN_SIZE \<le> len"
    | "vio_unread vio = []" "len < VIO_UNBUFFERED_READ_MIN_SIZE" by linarith
  then show ?thesis
  proof cases
    case 1
    let ?rc = "min (length (vio_unread vio)) len"
    have e: "n = int ?rc" "bytes = take ?rc (vio_unread vio)" "vio_unread vio' = drop ?rc (vio_unread vio)"
      "vio_sys vio' = vio_sys vio"
      using 1 assms(2) unfolding vio_read_buff_def Let_def by auto
    have "vio_unread vio = take ?rc (vio_unread vio) @ drop ?rc (vio_unread vio)" by simp
    then show ?thesis unfolding e by simp
  next
    case 2
    then have "socket_read sys vio len = (n, bytes, vio')" using assms(2) by (simp add: vio_read_buff_def)
    from socket_read_stream [OF assms(1) this] show ?thesis using 2(1) by auto
  next
    case 3
    note eq = assms(2) [unfolded vio_read_buff_def rd, simplified 3, simplified]
    show ?thesis
    proof (cases "0 < rc")
      case True
      then show ?thesis using eq s 3(1) by (auto split: if_splits)
    next
      case False
      then have "rc = 0 \<or> rc = - 1" using s by auto
      then show ?thesis using eq s 3(1) by auto
    qed
  qed
qed

text \<open>C8: the socket transport, buffered or not, keeps the contract of the packet layer on any system
  whose sockets carry a stream of bytes: bytes are handed out in order, none lost and none twice,
  never more than asked for, also across the read buffer; bytes are sent in order; and if the
  socket's \<open>read\<close> delivers so does the transport.\<close>

theorem vio_socket_stream:
  assumes "stream_socket sys sent incoming"
  shows "stream_writer (vio_init sys buffered) (vio_sent sent) \<and>
    stream_reader (vio_init sys buffered) (vio_incoming buffered incoming) \<and>
    ((\<forall>s k. incoming s \<noteq> [] \<longrightarrow> 0 < k \<longrightarrow> 0 < fst (sys_read sys s k)) \<longrightarrow>
      delivers (vio_init sys buffered) (vio_incoming buffered incoming))"
proof (intro conjI impI)
  have w: "fst (socket_write sys v data) \<le> int (length data) \<and> vio_sent sent (snd (socket_write sys v data)) =
      vio_sent sent v @ take (nat (fst (socket_write sys v data))) data" for v data
    using stream_socketD(2) [OF assms, of "vio_sys v" data]
    by (auto simp: socket_write_def vio_sent_def split: prod.splits)
  show "stream_writer (vio_init sys buffered) (vio_sent sent)"
    using w socket_blocking_keeps(1) [OF assms] by (simp add: stream_writer_def vio_init_def vio_sent_def)
  have r: "case vio_read (vio_init sys buffered) v k of (n, bytes, v') \<Rightarrow> n \<le> int k \<and>
      (if 0 < n then int (length bytes) = n \<and> vio_incoming buffered incoming v = bytes @ vio_incoming buffered incoming v'
       else vio_incoming buffered incoming v' = vio_incoming buffered incoming v)" for v k
    using vio_read_buff_stream [OF assms, of v k] socket_read_stream [OF assms, of v k]
    by (cases buffered) (auto simp: vio_init_def vio_incoming_def split: prod.splits)
  show "stream_reader (vio_init sys buffered) (vio_incoming buffered incoming)"
    unfolding stream_reader_def using r socket_blocking_keeps(2,3) [OF assms]
    by (auto simp: vio_init_def vio_incoming_def)
  assume d: "\<forall>s k. incoming s \<noteq> [] \<longrightarrow> 0 < k \<longrightarrow> 0 < fst (sys_read sys s k)"
  have s: "0 < fst (socket_read sys v k)" if "incoming (vio_sys v) \<noteq> []" "0 < k" for v k
    using d [rule_format, of "sys_clear_errno sys (vio_sys v)" k] that stream_socketD(5) [OF assms, of "vio_sys v"]
    by (auto simp: socket_read_def split: prod.splits)
  have b: "0 < fst (vio_read_buff sys v k)" if "vio_unread v @ incoming (vio_sys v) \<noteq> []" "0 < k" for v k
    using that s [of v VIO_READ_BUFFER_SIZE] s [of v k]
    by (auto simp: vio_read_buff_def Let_def VIO_READ_BUFFER_SIZE_def split: prod.splits)
  show "delivers (vio_init sys buffered) (vio_incoming buffered incoming)"
    using s b by (simp add: delivers_def vio_init_def vio_incoming_def)
qed

text \<open>A system for the example: the bytes sent and the bytes to come, seven at most at a time.\<close>

definition sample_sys :: "(uchar list \<times> uchar list) sys_ops" where
  "sample_sys = \<lparr>sys_read = (\<lambda>(out, inp) k. (int (min (min 7 k) (length inp)), take (min 7 k) inp, (out, drop (min 7 k) inp))),
     sys_write = (\<lambda>(out, inp) data. (int (min 7 (length data)), (out @ take 7 data, inp))),
     sys_fcntl = (\<lambda>s mode. (0, s)), sys_errno = (\<lambda>s. Other_errno 0), sys_clear_errno = id\<rparr>"

lemma sample_sys_stream: "stream_socket sample_sys fst snd"
  by (auto simp: stream_socket_def sample_sys_def min_def split: if_splits)

theorem vio_socket_stream_witness:
  "stream_writer (vio_init sample_sys True) (vio_sent fst) \<and>
   stream_reader (vio_init sample_sys True) (vio_incoming True snd) \<and>
   delivers (vio_init sample_sys True) (vio_incoming True snd)"
proof -
  have "\<forall>s k. snd s \<noteq> [] \<longrightarrow> 0 < k \<longrightarrow> 0 < fst (sys_read sample_sys s k)"
    by (auto simp: sample_sys_def)
  then show ?thesis using vio_socket_stream [OF sample_sys_stream, of True] by blast
qed

end
