(* ===== verification/Spec2Isabelle.thy ===== *)
theory Spec2Isabelle
  imports Prelude Calendar TimeValue DateArith TableLockSteps LockQueue PriorityQueue BitmapSpec CharsetConv MultiLock VioSocket
begin

text \<open>
  Verification of parts of the MySQL server.
\<close>

end
